(* ===== verification/Ymuduo_Prelude.thy ===== *)
theory Ymuduo_Prelude
  imports Main "HOL-Library.Sublist" "HOL-Library.Char_ord" "HOL-Library.List_Lexorder"
    "HOL-Library.Product_Lexorder"
begin

text \<open>
  Shared vocabulary of the development: the algorithms and containers of the C++ standard
  library that the sources under \<^verbatim>\<open>src/\<close> use (\<^verbatim>\<open>std::find\<close>, \<^verbatim>\<open>std::search\<close>,
  \<^verbatim>\<open>std::copy\<close>, \<^verbatim>\<open>vector::resize\<close>, \<^verbatim>\<open>std::set\<close>, \<^verbatim>\<open>std::map\<close>, \<^verbatim>\<open>snprintf\<close> of a
  decimal), the interfaces of those containers as locales, and the lemmas about them that the
  component theories use.
\<close>

named_theorems buf_simps "equations of Buffer operations"
named_theorems std_simps "equations of the standard library's algorithms"

section \<open>Ranges: find, search, copy, resize\<close>

text \<open>A range of a contiguous container is a list; an iterator into it is an index, and the end
  iterator is the length.\<close>

definition std_find :: "'a \<Rightarrow> 'a list \<Rightarrow> nat" where
  "std_find x xs = length (takeWhile (\<lambda>y. y \<noteq> x) xs)"

fun std_search :: "'a list \<Rightarrow> 'a list \<Rightarrow> nat" where
  "std_search pat [] = 0"
| "std_search pat (x # xs) = (if prefix pat (x # xs) then 0 else Suc (std_search pat xs))"

definition std_copy :: "'a list \<Rightarrow> nat \<Rightarrow> 'a list \<Rightarrow> 'a list" where
  "std_copy src i dst = take i dst @ src @ drop (i + length src) dst"

definition vec_resize :: "nat \<Rightarrow> 'a \<Rightarrow> 'a list \<Rightarrow> 'a list" where
  "vec_resize n z xs = take n xs @ replicate (n - length xs) z"

text \<open>\<open>subrange i j xs\<close> is the sequence of the half-open range from index \<open>i\<close> to \<open>j\<close>.\<close>

definition subrange :: "nat \<Rightarrow> nat \<Rightarrow> 'a list \<Rightarrow> 'a list" where
  "subrange i j xs = take (j - i) (drop i xs)"

section \<open>Ordered containers\<close>

text \<open>A \<^verbatim>\<open>std::set\<close> is the strictly increasing list of its elements, in iteration order.\<close>

fun set_insert :: "'a::linorder \<Rightarrow> 'a list \<Rightarrow> 'a list" where
  "set_insert x [] = [x]"
| "set_insert x (y # ys) =
     (if x < y then x # y # ys else if x = y then y # ys else y # set_insert x ys)"

definition set_erase :: "'a \<Rightarrow> 'a list \<Rightarrow> 'a list" where
  "set_erase x ys = filter (\<lambda>y. y \<noteq> x) ys"

text \<open>\<^verbatim>\<open>lower_bound\<close>: the position of the first element that is not less than the key.\<close>

definition lower_bound :: "'a::linorder list \<Rightarrow> 'a \<Rightarrow> nat" where
  "lower_bound ys x = length (takeWhile (\<lambda>y. y < x) ys)"

text \<open>A \<^verbatim>\<open>std::map\<close> is the list of its pairs, in increasing order of the keys;
  \<open>map_assign k v m\<close> is \<^verbatim>\<open>m[k] = v\<close>.\<close>

type_synonym ('k, 'v) std_map = "('k \<times> 'v) list"

fun map_assign :: "'k::linorder \<Rightarrow> 'v \<Rightarrow> ('k, 'v) std_map \<Rightarrow> ('k, 'v) std_map" where
  "map_assign k v [] = [(k, v)]"
| "map_assign k v ((a, b) # m) =
     (if k < a then (k, v) # (a, b) # m
      else if k = a then (a, v) # m
      else (a, b) # map_assign k v m)"

section \<open>Decimal numbers\<close>

definition digit_char :: "nat \<Rightarrow> char" where
  "digit_char d = char_of (48 + d)"

fun show_nat :: "nat \<Rightarrow> string" where
  "show_nat n = (if n < 10 then [digit_char n] else show_nat (n div 10) @ [digit_char (n mod 10)])"

declare show_nat.simps [simp del]

definition show_int :: "int \<Rightarrow> string" where
  "show_int i = (if i < 0 then CHR ''-'' # show_nat (nat (- i)) else show_nat (nat i))"

text \<open>\<^verbatim>\<open>%0kd\<close>: at least \<open>k\<close> columns, filled with zeros after the sign.\<close>

definition pad0 :: "nat \<Rightarrow> int \<Rightarrow> string" where
  "pad0 k i = (let ds = show_nat (nat \<bar>i\<bar>); s = (if i < 0 then ''-'' else '''')
     in s @ replicate (k - length s - length ds) CHR ''0'' @ ds)"

text \<open>\<^verbatim>\<open>%kd\<close>: at least \<open>k\<close> columns, filled with blanks on the left.\<close>

definition pad_blank :: "nat \<Rightarrow> int \<Rightarrow> string" where
  "pad_blank k i = replicate (k - length (show_int i)) CHR '' '' @ show_int i"

text \<open>Reading a decimal back, the reference for what a printed number means.\<close>

definition digit_val :: "char \<Rightarrow> nat" where
  "digit_val c = of_char c - 48"

definition read_nat :: "string \<Rightarrow> nat" where
  "read_nat s = foldl (\<lambda>a c. 10 * a + digit_val c) 0 s"

text \<open>\<^verbatim>\<open>snprintf(buf, n, ...)\<close> keeps at most \<open>n - 1\<close> characters.\<close>

definition snprintf :: "nat \<Rightarrow> string \<Rightarrow> string" where
  "snprintf n s = take (n - 1) s"

section \<open>Lemmas on ranges\<close>

lemma std_find_le [simp]: "std_find x xs \<le> length xs"
  by (simp add: std_find_def length_takeWhile_le)

lemma std_find_notin [simp]: "x \<notin> set xs \<Longrightarrow> std_find x xs = length xs"
  by (induction xs) (auto simp: std_find_def)

lemma std_find_append [std_simps]: "x \<notin> set xs \<Longrightarrow> std_find x (xs @ x # ys) = length xs"
  by (induction xs) (auto simp: std_find_def)

lemma std_find_less_iff: "std_find x xs < length xs \<longleftrightarrow> x \<in> set xs"
  by (induction xs) (auto simp: std_find_def)

lemma std_find_eq_length_iff: "std_find x xs = length xs \<longleftrightarrow> x \<notin> set xs"
  using std_find_less_iff [of x xs] std_find_le [of x xs] by linarith

lemma std_find_nth: "x \<in> set xs \<Longrightarrow> xs ! std_find x xs = x"
  by (induction xs) (auto simp: std_find_def)

lemma std_search_le [simp]: "std_search pat xs \<le> length xs"
  by (induction xs) auto

lemma std_search_prefix:
  "std_search pat xs < length xs \<Longrightarrow> prefix pat (drop (std_search pat xs) xs)"
  by (induction xs) auto

lemma std_search_first:
  "i < std_search pat xs \<Longrightarrow> \<not> prefix pat (drop i xs)"
proof (induction xs arbitrary: i)
  case Nil
  then show ?case by simp
next
  case (Cons x xs)
  then show ?case by (cases i) (auto split: if_splits)
qed

text \<open>The first occurrence is the only index with an occurrence there and none before.\<close>

lemma std_search_unique:
  assumes "prefix pat (drop i xs)" "i < length xs" "\<And>j. j < i \<Longrightarrow> \<not> prefix pat (drop j xs)"
  shows "std_search pat xs = i"
  using assms
proof (induction xs arbitrary: i)
  case Nil
  then show ?case by simp
next
  case (Cons x xs)
  show ?case
  proof (cases i)
    case 0
    with Cons.prems show ?thesis by simp
  next
    case (Suc k)
    have "\<not> prefix pat (x # xs)" using Cons.prems(3) [of 0] Suc by simp
    moreover have "std_search pat xs = k"
    proof (rule Cons.IH)
      show "\<not> prefix pat (drop j xs)" if "j < k" for j
        using Cons.prems(3) [of "Suc j"] that Suc by simp
    qed (use Cons.prems Suc in auto)
    ultimately show ?thesis using Suc by simp
  qed
qed

lemma std_search_append:
  assumes "std_search pat xs < length xs"
  shows "std_search pat (xs @ ys) = std_search pat xs"
proof (rule std_search_unique)
  let ?i = "std_search pat xs"
  have p: "prefix pat (drop ?i xs)" using assms by (rule std_search_prefix)
  then show "prefix pat (drop ?i (xs @ ys))" using assms by (simp add: prefix_def) auto
  show "\<not> prefix pat (drop j (xs @ ys))" if "j < ?i" for j
  proof
    assume "prefix pat (drop j (xs @ ys))"
    then have "prefix pat (drop j xs @ ys)" using that assms by simp
    moreover have "length pat \<le> length (drop j xs)"
      using prefix_length_le [OF p] that by simp
    ultimately have "prefix pat (drop j xs)" by (meson prefix_length_prefix prefixI)
    with std_search_first [OF that] show False by blast
  qed
qed (use assms in simp)

lemma std_search_none:
  "pat \<noteq> [] \<Longrightarrow> std_search pat xs = length xs \<longleftrightarrow> \<not> sublist pat xs"
  by (induction xs) (auto simp: sublist_Cons_right split: if_splits)

lemma length_std_copy [simp]:
  "i + length src \<le> length dst \<Longrightarrow> length (std_copy src i dst) = length dst"
  by (simp add: std_copy_def)

lemma take_std_copy [std_simps]:
  "i + length src \<le> length dst \<Longrightarrow> take (i + length src) (std_copy src i dst) = take i dst @ src"
  by (simp add: std_copy_def)

lemma drop_std_copy [std_simps]:
  "i + length src \<le> length dst \<Longrightarrow> drop i (std_copy src i dst) = src @ drop (i + length src) dst"
  by (simp add: std_copy_def)

lemma length_vec_resize [simp]: "length (vec_resize n z xs) = n"
  by (simp add: vec_resize_def)

lemma take_vec_resize [std_simps]: "k \<le> length xs \<Longrightarrow> k \<le> n \<Longrightarrow> take k (vec_resize n z xs) = take k xs"
  by (simp add: vec_resize_def min_def)

lemma length_subrange [simp]: "j \<le> length xs \<Longrightarrow> length (subrange i j xs) = j - i"
  by (simp add: subrange_def)

lemma subrange_0 [simp]: "subrange 0 j xs = take j xs"
  by (simp add: subrange_def)

lemma subrange_same [simp]: "subrange i i xs = []"
  by (simp add: subrange_def)

lemma subrange_take_cong: "take j xs = take j ys \<Longrightarrow> subrange i j xs = subrange i j ys"
  by (metis drop_take subrange_def)

lemma subrange_append_split: "i \<le> j \<Longrightarrow> j \<le> k \<Longrightarrow> subrange i j xs @ subrange j k xs = subrange i k xs"
  using take_add [of "j - i" "k - j" "drop i xs"] by (simp add: subrange_def)

lemma drop_subrange: "drop n (subrange i j xs) = subrange (i + n) j xs"
  by (simp add: subrange_def drop_take add.commute)

lemma subrange_std_copy_end:
  "i \<le> j \<Longrightarrow> j + length src \<le> length dst \<Longrightarrow>
   subrange i (j + length src) (std_copy src j dst) = subrange i j dst @ src"
  by (simp add: subrange_def std_copy_def drop_take)

section \<open>Lemmas on decimals\<close>

lemma digit_val_char [simp]: "d < 10 \<Longrightarrow> digit_val (digit_char d) = d"
  by (simp add: digit_val_def digit_char_def)

lemma digit_char_not_special [simp]:
  assumes "d < 10"
  shows "digit_char d \<noteq> CHR ''.''" "digit_char d \<noteq> CHR 0x0D" "digit_char d \<noteq> CHR 0x0A"
    "digit_char d \<noteq> CHR '':''" "digit_char d \<noteq> CHR ''-''"
proof -
  have "of_char (digit_char d) = 48 + d" using assms by (simp add: digit_char_def)
  then show "digit_char d \<noteq> CHR ''.''" "digit_char d \<noteq> CHR 0x0D" "digit_char d \<noteq> CHR 0x0A"
    "digit_char d \<noteq> CHR '':''" "digit_char d \<noteq> CHR ''-''"
    using assms by auto
qed

lemma read_nat_snoc [simp]: "read_nat (s @ [c]) = 10 * read_nat s + digit_val c"
  by (simp add: read_nat_def)

lemma read_nat_show_nat [simp]: "read_nat (show_nat n) = n"
proof (induction n rule: show_nat.induct)
  case (1 n)
  then show ?case
    by (cases "n < 10") (simp_all add: show_nat.simps [of n] read_nat_def [of "[_]"])
qed

lemma set_show_nat: "set (show_nat n) \<subseteq> digit_char ` {..<10}"
proof (induction n rule: show_nat.induct)
  case (1 n)
  then show ?case by (cases "n < 10") (auto simp: show_nat.simps [of n])
qed

lemma show_nat_not_Nil [simp]: "show_nat n \<noteq> []"
  by (subst show_nat.simps) simp

lemma length_show_nat: "0 < k \<Longrightarrow> n < 10 ^ k \<Longrightarrow> length (show_nat n) \<le> k"
proof (induction k arbitrary: n)
  case (Suc k)
  show ?case
  proof (cases "n < 10")
    case True
    then show ?thesis by (simp add: show_nat.simps [of n])
  next
    case False
    then have "0 < k" using Suc.prems by (cases k) auto
    moreover have "n div 10 < 10 ^ k" using Suc.prems by (simp add: div_less_iff_less_mult mult.commute)
    ultimately have "length (show_nat (n div 10)) \<le> k" by (rule Suc.IH)
    with False show ?thesis by (simp add: show_nat.simps [of n])
  qed
qed simp

lemma read_nat_replicate0 [simp]: "read_nat (replicate k (CHR ''0'') @ s) = read_nat s"
  by (induction k) (simp_all add: read_nat_def digit_val_def)

lemma pad0_nonneg:
  assumes "0 \<le> i"
  shows "read_nat (pad0 k i) = nat i" "length (show_nat (nat i)) \<le> k \<Longrightarrow> length (pad0 k i) = k"
  using assms by (simp_all add: pad0_def Let_def)

lemma snprintf_short [simp]: "length s < n \<Longrightarrow> snprintf n s = s"
  by (simp add: snprintf_def)

section \<open>Ordered containers: laws\<close>

lemma set_set_insert [simp]: "set (set_insert x ys) = insert x (set ys)"
  by (induction ys) auto

lemma sorted_set_insert [simp]: "sorted_wrt (<) ys \<Longrightarrow> sorted_wrt (<) (set_insert x ys)"
  by (induction ys) auto

lemma set_erase_insert [simp]: "x \<notin> set ys \<Longrightarrow> set_erase x (set_insert x ys) = ys"
  by (induction ys) (auto simp: set_erase_def intro!: filter_True)

lemma set_set_erase [simp]: "set (set_erase x ys) = set ys - {x}"
  by (auto simp: set_erase_def)

lemma sorted_set_erase [simp]: "sorted_wrt (<) ys \<Longrightarrow> sorted_wrt (<) (set_erase x ys)"
  by (simp add: set_erase_def sorted_wrt_filter)

lemma map_of_map_assign [simp]: "map_of (map_assign k v m) = (map_of m)(k \<mapsto> v)"
  by (induction k v m rule: map_assign.induct) auto

lemma keys_map_assign [simp]: "set (map fst (map_assign k v m)) = insert k (set (map fst m))"
  by (induction k v m rule: map_assign.induct) auto

lemma sorted_map_assign [simp]:
  "sorted_wrt (<) (map fst m) \<Longrightarrow> sorted_wrt (<) (map fst (map_assign k v m))"
proof (induction k v m rule: map_assign.induct)
  case (2 k v a b m)
  have "\<forall>x \<in> set (map fst (map_assign k v m)). a < x" if "a < k"
    using 2(2) that unfolding keys_map_assign by simp
  then show ?case using 2 by auto
qed simp

lemma lower_bound_split:
  assumes "sorted_wrt (<) ys"
  shows "set (take (lower_bound ys x) ys) = {y \<in> set ys. y < x}"
    and "set (drop (lower_bound ys x) ys) = {y \<in> set ys. \<not> y < x}"
proof -
  have tk: "take (lower_bound ys x) ys = takeWhile (\<lambda>y. y < x) ys"
    unfolding lower_bound_def by (rule takeWhile_eq_take [symmetric])
  have dr: "drop (lower_bound ys x) ys = dropWhile (\<lambda>y. y < x) ys"
    unfolding lower_bound_def by (rule dropWhile_eq_drop [symmetric])
  have "takeWhile (\<lambda>y. y < x) ys = filter (\<lambda>y. y < x) ys
      \<and> dropWhile (\<lambda>y. y < x) ys = filter (\<lambda>y. \<not> y < x) ys"
    using assms
  proof (induction ys)
    case (Cons a ys)
    have "filter (\<lambda>y. y < x) ys = [] \<and> filter (\<lambda>y. \<not> y < x) ys = ys" if "\<not> a < x"
      using Cons.prems that by (auto simp: filter_empty_conv filter_id_conv)
    with Cons show ?case by auto
  qed simp
  then show "set (take (lower_bound ys x) ys) = {y \<in> set ys. y < x}"
    and "set (drop (lower_bound ys x) ys) = {y \<in> set ys. \<not> y < x}"
    by (simp_all add: tk dr)
qed

end
