(* ===== verification/Ymuduo_Buffer.thy ===== *)
theory Ymuduo_Buffer
  imports Ymuduo_Prelude "HOL-Library.Word"
begin

text \<open>
  The network buffer (\<^verbatim>\<open>src/include/Buffer.h\<close>, \<^verbatim>\<open>src/src/Buffer.cc\<close>): a byte vector with a
  reader and a writer index. A pointer into the vector is its offset from \<^verbatim>\<open>begin()\<close>. The
  abstraction \<open>readable\<close> is the sequence of unread bytes; every operation is shown to implement
  the corresponding operation on that sequence.

  Sizes are natural numbers; \<open>makeSpace_guard_word\<close> is the guard of \<^verbatim>\<open>makeSpace\<close> in 64-bit
  arithmetic, and the two agree on every size a \<^verbatim>\<open>vector<char>\<close> can have.
\<close>

section \<open>State and operations\<close>

record Buffer =
  buffer :: "char list"
  readerIndex :: nat
  writerIndex :: nat

definition kCheapPrepend :: nat where "kCheapPrepend = 8"
definition kInitialSize :: nat where "kInitialSize = 1024"

definition kCRLF :: "char list" where "kCRLF = [CHR 0x0D, CHR 0x0A]"

definition new_Buffer :: "nat \<Rightarrow> Buffer" where
  "new_Buffer initialSize =
     \<lparr>buffer = replicate (kCheapPrepend + initialSize) (CHR 0x00),
      readerIndex = kCheapPrepend, writerIndex = kCheapPrepend\<rparr>"

definition readableBytes :: "Buffer \<Rightarrow> nat" where
  "readableBytes b = writerIndex b - readerIndex b"

definition writableBytes :: "Buffer \<Rightarrow> nat" where
  "writableBytes b = length (buffer b) - writerIndex b"

definition prependableByte :: "Buffer \<Rightarrow> nat" where
  "prependableByte b = readerIndex b"

definition peek :: "Buffer \<Rightarrow> nat" where
  "peek b = readerIndex b"

definition beginWrite :: "Buffer \<Rightarrow> nat" where
  "beginWrite b = writerIndex b"

definition retrieveAll :: "Buffer \<Rightarrow> Buffer" where
  "retrieveAll b = b\<lparr>readerIndex := kCheapPrepend, writerIndex := kCheapPrepend\<rparr>"

definition retrieve :: "Buffer \<Rightarrow> nat \<Rightarrow> Buffer" where
  "retrieve b len =
     (if len \<le> readableBytes b then b\<lparr>readerIndex := readerIndex b + len\<rparr> else retrieveAll b)"

text \<open>\<^verbatim>\<open>std::string(peek(), len)\<close> reads \<open>len\<close> bytes whatever the writer index is; beyond the
  vector the read is out of bounds.\<close>

datatype buffer_error = OutOfBounds

definition retrieveAsString :: "Buffer \<Rightarrow> nat \<Rightarrow> buffer_error + (string \<times> Buffer)" where
  "retrieveAsString b len =
     (if peek b + len \<le> length (buffer b)
      then Inr (take len (drop (peek b) (buffer b)), retrieve b len)
      else Inl OutOfBounds)"

definition retrieveAllAsString :: "Buffer \<Rightarrow> buffer_error + (string \<times> Buffer)" where
  "retrieveAllAsString b = retrieveAsString b (readableBytes b)"

definition makeSpace :: "Buffer \<Rightarrow> nat \<Rightarrow> Buffer" where
  "makeSpace b len =
     (if writableBytes b + prependableByte b < len + kCheapPrepend
      then b\<lparr>buffer := vec_resize (writerIndex b + len) (CHR 0x00) (buffer b)\<rparr>
      else let readable = readableBytes b
           in b\<lparr>buffer := std_copy (subrange (readerIndex b) (writerIndex b) (buffer b))
                            kCheapPrepend (buffer b),
                readerIndex := kCheapPrepend, writerIndex := kCheapPrepend + readable\<rparr>)"

definition ensureWritableBytes :: "Buffer \<Rightarrow> nat \<Rightarrow> Buffer" where
  "ensureWritableBytes b len = (if writableBytes b < len then makeSpace b len else b)"

definition append_buf :: "Buffer \<Rightarrow> char list \<Rightarrow> Buffer" where
  "append_buf b data =
     (let b1 = ensureWritableBytes b (length data)
      in b1\<lparr>buffer := std_copy data (beginWrite b1) (buffer b1),
            writerIndex := writerIndex b1 + length data\<rparr>)"

definition findCRLF_from :: "Buffer \<Rightarrow> nat \<Rightarrow> nat option" where
  "findCRLF_from b start =
     (let crlf = start + std_search kCRLF (subrange start (beginWrite b) (buffer b))
      in if crlf = beginWrite b then None else Some crlf)"

definition findCRLF :: "Buffer \<Rightarrow> nat option" where
  "findCRLF b =
     (let crlf = peek b + std_search kCRLF (subrange (peek b) (beginWrite b) (buffer b))
      in if crlf = beginWrite b then None else Some crlf)"

text \<open>The pointer difference is converted to \<^verbatim>\<open>size_t\<close>.\<close>

definition retrieveUntil :: "Buffer \<Rightarrow> nat \<Rightarrow> Buffer" where
  "retrieveUntil b end_ptr = retrieve b (nat ((int end_ptr - int (peek b)) mod 2 ^ 64))"

text \<open>The outcome of \<^verbatim>\<open>readv\<close>: the bytes it delivered, spread over the two regions in order,
  or an errno. \<open>readv_room\<close> is the total length of the regions passed to it.\<close>

datatype read_result = ReadErr int | ReadOk "char list"

definition extrabuf_size :: nat where "extrabuf_size = 65536"

definition readv_room :: "Buffer \<Rightarrow> nat" where
  "readv_room b =
     (let writable = writableBytes b
      in if writable < extrabuf_size then writable + extrabuf_size else writable)"

definition readFd :: "Buffer \<Rightarrow> read_result \<Rightarrow> int \<times> int option \<times> Buffer" where
  "readFd b r =
     (let writable = writableBytes b
      in case r of
           ReadErr e \<Rightarrow> (-1, Some e, b)
         | ReadOk data \<Rightarrow>
             (let n = length data;
                  b1 = b\<lparr>buffer := std_copy (take writable data) (writerIndex b) (buffer b)\<rparr>
              in (int n, None,
                  if n \<le> writable then b1\<lparr>writerIndex := writerIndex b1 + n\<rparr>
                  else append_buf (b1\<lparr>writerIndex := length (buffer b1)\<rparr>) (drop writable data))))"

text \<open>The outcome of \<^verbatim>\<open>write\<close>: how many of the offered bytes it took, or an errno. The first
  component is what \<open>writeFd\<close> offers to the descriptor.\<close>

datatype write_result = WriteErr int | WriteOk nat

definition writeFd :: "Buffer \<Rightarrow> write_result \<Rightarrow> char list \<times> int \<times> int option" where
  "writeFd b r =
     (take (readableBytes b) (drop (peek b) (buffer b)),
      case r of WriteErr e \<Rightarrow> (-1, Some e) | WriteOk n \<Rightarrow> (int n, None))"

text \<open>The guard of \<^verbatim>\<open>makeSpace\<close> on \<^verbatim>\<open>size_t\<close>.\<close>

definition makeSpace_guard_word :: "64 word \<Rightarrow> 64 word \<Rightarrow> 64 word \<Rightarrow> 64 word \<Rightarrow> bool" where
  "makeSpace_guard_word sz wr rd len \<longleftrightarrow> (sz - wr) + rd < len + 8"

section \<open>Abstraction and invariant\<close>

definition readable :: "Buffer \<Rightarrow> char list" where
  "readable b = subrange (readerIndex b) (writerIndex b) (buffer b)"

definition buffer_inv :: "Buffer \<Rightarrow> bool" where
  "buffer_inv b \<longleftrightarrow> kCheapPrepend \<le> readerIndex b \<and> readerIndex b \<le> writerIndex b
     \<and> writerIndex b \<le> length (buffer b)"

section \<open>The interface: a queue of bytes\<close>

datatype byte_op = Push "char list" | Pop nat

fun run_bytes :: "('b \<Rightarrow> char list \<Rightarrow> 'b) \<Rightarrow> ('b \<Rightarrow> nat \<Rightarrow> 'b) \<Rightarrow> 'b \<Rightarrow> byte_op list \<Rightarrow> 'b" where
  "run_bytes push pop b [] = b"
| "run_bytes push pop b (Push s # ops) = run_bytes push pop (push b s) ops"
| "run_bytes push pop b (Pop n # ops) = run_bytes push pop (pop b n) ops"

locale byte_queue =
  fixes invar :: "'b \<Rightarrow> bool"
    and contents :: "'b \<Rightarrow> char list"
    and push :: "'b \<Rightarrow> char list \<Rightarrow> 'b"
    and pop :: "'b \<Rightarrow> nat \<Rightarrow> 'b"
  assumes invar_push: "invar b \<Longrightarrow> invar (push b s)"
    and invar_pop: "invar b \<Longrightarrow> invar (pop b n)"
    and contents_push: "invar b \<Longrightarrow> contents (push b s) = contents b @ s"
    and contents_pop: "invar b \<Longrightarrow> contents (pop b n) = drop n (contents b)"
begin

lemma run_simulates:
  assumes "invar b"
  shows "invar (run_bytes push pop b ops)
    \<and> contents (run_bytes push pop b ops) = run_bytes (@) (\<lambda>xs n. drop n xs) (contents b) ops"
  using assms
proof (induction ops arbitrary: b)
  case Nil
  then show ?case by simp
next
  case (Cons op ops)
  then show ?case by (cases op) (simp_all add: invar_push invar_pop contents_push contents_pop)
qed

lemma pop_all: "invar b \<Longrightarrow> length (contents b) \<le> n \<Longrightarrow> contents (pop b n) = []"
  by (simp add: contents_pop)

lemma pop_push_exact: "invar b \<Longrightarrow> contents b = s \<Longrightarrow> contents (pop (push b t) (length s)) = t"
  by (simp add: contents_pop contents_push invar_push)

end

section \<open>The invariant is kept and the abstraction respected\<close>

lemmas buffer_sizes = readableBytes_def writableBytes_def prependableByte_def peek_def
  beginWrite_def kCheapPrepend_def

lemma length_readable [simp]: "buffer_inv b \<Longrightarrow> length (readable b) = readableBytes b"
  by (simp add: buffer_inv_def readable_def readableBytes_def)

lemma new_Buffer_inv [simp]: "buffer_inv (new_Buffer n)"
  by (simp add: buffer_inv_def new_Buffer_def)

lemma readable_new [simp]: "readable (new_Buffer n) = []"
  by (simp add: readable_def new_Buffer_def)

lemma retrieveAll_inv [simp]: "buffer_inv b \<Longrightarrow> buffer_inv (retrieveAll b)"
  by (simp add: buffer_inv_def retrieveAll_def)

lemma readable_retrieveAll [simp]: "readable (retrieveAll b) = []"
  by (simp add: readable_def retrieveAll_def)

lemma retrieve_inv [simp]: "buffer_inv b \<Longrightarrow> buffer_inv (retrieve b n)"
  by (auto simp: retrieve_def buffer_inv_def readableBytes_def retrieveAll_def)

lemma readable_retrieve [buf_simps]: "buffer_inv b \<Longrightarrow> readable (retrieve b n) = drop n (readable b)"
proof (cases "n \<le> readableBytes b")
  case True
  then show "readable (retrieve b n) = drop n (readable b)"
    by (simp add: retrieve_def readable_def drop_subrange)
next
  case False
  moreover assume "buffer_inv b"
  ultimately show "readable (retrieve b n) = drop n (readable b)"
    by (simp add: retrieve_def)
qed

lemma makeSpace_inv: "buffer_inv b \<Longrightarrow> buffer_inv (makeSpace b n)"
  by (auto simp: makeSpace_def buffer_inv_def Let_def buffer_sizes)

lemma readable_makeSpace: "buffer_inv b \<Longrightarrow> writableBytes b < n \<Longrightarrow> readable (makeSpace b n) = readable b"
proof -
  assume inv: "buffer_inv b" and small: "writableBytes b < n"
  show "readable (makeSpace b n) = readable b"
  proof (cases "writableBytes b + prependableByte b < n + kCheapPrepend")
    case True
    have "take (writerIndex b) (vec_resize (writerIndex b + n) (CHR 0x00) (buffer b))
        = take (writerIndex b) (buffer b)"
      using inv by (intro take_vec_resize) (simp_all add: buffer_inv_def)
    from subrange_take_cong [OF this] True show ?thesis
      by (simp add: makeSpace_def readable_def)
  next
    case False
    let ?s = "subrange (readerIndex b) (writerIndex b) (buffer b)"
    have "subrange kCheapPrepend (kCheapPrepend + length ?s) (std_copy ?s kCheapPrepend (buffer b))
        = subrange kCheapPrepend kCheapPrepend (buffer b) @ ?s"
      using inv by (intro subrange_std_copy_end) (auto simp: buffer_inv_def)
    with False inv show ?thesis
      by (simp add: makeSpace_def readable_def Let_def readableBytes_def buffer_inv_def)
  qed
qed

lemma ensureWritableBytes_inv [simp]: "buffer_inv b \<Longrightarrow> buffer_inv (ensureWritableBytes b n)"
  by (simp add: ensureWritableBytes_def makeSpace_inv)

lemma readable_ensureWritableBytes [simp]: "buffer_inv b \<Longrightarrow> readable (ensureWritableBytes b n) = readable b"
  by (simp add: ensureWritableBytes_def readable_makeSpace)

lemma ensureWritableBytes_room: "buffer_inv b \<Longrightarrow> n \<le> writableBytes (ensureWritableBytes b n)"
  by (auto simp: ensureWritableBytes_def makeSpace_def Let_def buffer_inv_def buffer_sizes)

lemma append_buf_inv [simp]: "buffer_inv b \<Longrightarrow> buffer_inv (append_buf b s)"
proof -
  assume inv: "buffer_inv b"
  let ?b = "ensureWritableBytes b (length s)"
  have "buffer_inv ?b" using inv by simp
  moreover have "length s \<le> writableBytes ?b" using inv by (rule ensureWritableBytes_room)
  ultimately show ?thesis
    by (auto simp: append_buf_def buffer_inv_def Let_def writableBytes_def beginWrite_def)
qed

lemma readable_append_buf [buf_simps]: "buffer_inv b \<Longrightarrow> readable (append_buf b s) = readable b @ s"
proof -
  assume inv: "buffer_inv b"
  let ?b = "ensureWritableBytes b (length s)"
  have inv': "buffer_inv ?b" using inv by simp
  have room: "length s \<le> writableBytes ?b" using inv by (rule ensureWritableBytes_room)
  have "readable (append_buf b s) = readable ?b @ s"
    using subrange_std_copy_end [of "readerIndex ?b" "writerIndex ?b" s "buffer ?b"] inv' room
    by (auto simp: append_buf_def readable_def Let_def beginWrite_def buffer_inv_def writableBytes_def)
  then show ?thesis using inv by simp
qed

interpretation buf: byte_queue buffer_inv readable append_buf retrieve
  by unfold_locales (simp_all add: buf_simps)

section \<open>Reading from and writing to a descriptor\<close>

lemma length_append_buf:
  assumes "buffer_inv b"
  shows "length (buffer (append_buf b s)) \<le> length (buffer b) + length s"
proof -
  have "length (buffer (ensureWritableBytes b n)) \<le> length (buffer b) + n" for n
    using assms by (auto simp: ensureWritableBytes_def makeSpace_def Let_def buffer_inv_def buffer_sizes)
  moreover have "length (buffer (append_buf b s)) = length (buffer (ensureWritableBytes b (length s)))"
    using ensureWritableBytes_room [OF assms, of "length s"] ensureWritableBytes_inv [OF assms, of "length s"]
    by (auto simp: append_buf_def Let_def writableBytes_def beginWrite_def buffer_inv_def)
  ultimately show ?thesis by simp
qed

lemma readFd_Ok_inv: "buffer_inv b \<Longrightarrow> buffer_inv (snd (snd (readFd b (ReadOk data))))"
proof -
  assume inv: "buffer_inv b"
  let ?b1 = "b\<lparr>buffer := std_copy (take (writableBytes b) data) (writerIndex b) (buffer b)\<rparr>"
  have "buffer_inv (?b1\<lparr>writerIndex := length (buffer ?b1)\<rparr>)"
    using inv by (auto simp: buffer_inv_def std_copy_def)
  moreover have "length data \<le> writableBytes b \<Longrightarrow> buffer_inv (?b1\<lparr>writerIndex := writerIndex b + length data\<rparr>)"
    using inv by (auto simp: buffer_inv_def writableBytes_def std_copy_def)
  ultimately show ?thesis by (simp add: readFd_def Let_def)
qed

lemma readable_readFd_Ok:
  assumes inv: "buffer_inv b"
  shows "readable (snd (snd (readFd b (ReadOk data)))) = readable b @ data"
proof -
  let ?w = "writableBytes b"
  let ?b1 = "b\<lparr>buffer := std_copy (take ?w data) (writerIndex b) (buffer b)\<rparr>"
  have fits: "writerIndex b + length (take ?w data) \<le> length (buffer b)"
    using inv by (auto simp: buffer_inv_def writableBytes_def)
  then have slc: "subrange (readerIndex b) (writerIndex b + length (take ?w data)) (buffer ?b1)
      = readable b @ take ?w data"
    using inv subrange_std_copy_end [of "readerIndex b" "writerIndex b" "take ?w data" "buffer b"]
    by (simp add: readable_def buffer_inv_def)
  show ?thesis
  proof (cases "length data \<le> ?w")
    case True
    with slc show ?thesis by (simp add: readFd_def Let_def readable_def)
  next
    case False
    let ?b2 = "?b1\<lparr>writerIndex := length (buffer ?b1)\<rparr>"
    have "buffer_inv ?b2" using inv by (auto simp: buffer_inv_def std_copy_def)
    moreover have "length (buffer ?b1) = writerIndex b + length (take ?w data)"
      using fits inv False by (simp add: buffer_inv_def writableBytes_def)
    then have "readable ?b2 = readable b @ take ?w data"
      using slc by (simp add: readable_def)
    ultimately show ?thesis using False by (simp add: readFd_def Let_def buf_simps)
  qed
qed

section \<open>Searching the unread bytes\<close>

lemma findCRLF_readable [buf_simps]:
  "buffer_inv b \<Longrightarrow> findCRLF b =
     (let i = std_search kCRLF (readable b)
      in if i = length (readable b) then None else Some (readerIndex b + i))"
  by (auto simp: findCRLF_def readable_def Let_def peek_def beginWrite_def buffer_inv_def)

lemma findCRLF_from_peek: "findCRLF_from b (peek b) = findCRLF b"
  by (simp add: findCRLF_from_def findCRLF_def)

lemma retrieveUntil_offset [buf_simps]:
  "k < 2 ^ 64 \<Longrightarrow> retrieveUntil b (readerIndex b + k) = retrieve b k"
  by (simp add: retrieveUntil_def peek_def)

lemma retrieveUntil_inv [simp]: "buffer_inv b \<Longrightarrow> buffer_inv (retrieveUntil b p)"
  by (simp add: retrieveUntil_def)

lemma retrieveAllAsString_eq [buf_simps]:
  "buffer_inv b \<Longrightarrow> retrieveAllAsString b = Inr (readable b, retrieve b (readableBytes b))"
  by (simp add: retrieveAllAsString_def retrieveAsString_def buffer_inv_def buffer_sizes
      readable_def subrange_def)

lemma writeFd_offers [buf_simps]: "fst (writeFd b r) = readable b"
  by (simp add: writeFd_def readable_def subrange_def buffer_sizes)

lemma kCRLF_not_Nil [simp]: "kCRLF \<noteq> []"
  by (simp add: kCRLF_def)

lemma kCRLF_length [simp]: "length kCRLF = 2"
  by (simp add: kCRLF_def)

section \<open>Properties\<close>

text \<open>C1: whatever sequence of appends and retrieves is applied to a fresh buffer, its invariant
  holds afterwards and its unread bytes are those of the plain byte sequence on which the same
  operations append and drop: no byte is lost, duplicated or reordered by growing, compacting or
  resetting the vector.\<close>

theorem buffer_fifo:
  "buffer_inv (run_bytes append_buf retrieve (new_Buffer n) ops)
   \<and> readable (run_bytes append_buf retrieve (new_Buffer n) ops)
     = run_bytes (@) (\<lambda>xs k. drop k xs) [] ops"
  using buf.run_simulates [of "new_Buffer n" ops] by simp

text \<open>\<^verbatim>\<open>readFd\<close> returns the byte count of \<^verbatim>\<open>readv\<close> and appends exactly the delivered bytes
  to the unread ones, whether they fit in the vector or spill into the stack buffer, and on an
  error it saves the errno and leaves the buffer alone.\<close>

theorem readFd_refines_append:
  assumes "buffer_inv b"
  shows "fst (readFd b (ReadOk data)) = int (length data)
    \<and> fst (snd (readFd b (ReadOk data))) = None
    \<and> buffer_inv (snd (snd (readFd b (ReadOk data))))
    \<and> readable (snd (snd (readFd b (ReadOk data)))) = readable b @ data
    \<and> readFd b (ReadErr e) = (-1, Some e, b)"
  using readFd_Ok_inv [OF assms] readable_readFd_Ok [OF assms]
  by (simp add: readFd_def Let_def)

theorem readFd_refines_append_witness:
  "buffer_inv (new_Buffer 2)
   \<and> readable (snd (snd (readFd (new_Buffer 2) (ReadOk ''hello'')))) = ''hello''"
  using readFd_refines_append [of "new_Buffer 2" "''hello''" 0] by simp

text \<open>\<^verbatim>\<open>findCRLF\<close> returns the first position of a CRLF pair inside the unread bytes, and
  \<^verbatim>\<open>NULL\<close> exactly when they contain none; bytes beyond the writer index are never looked at.\<close>

theorem findCRLF_correct:
  assumes "buffer_inv b"
  shows "(findCRLF b = None \<longleftrightarrow> \<not> sublist kCRLF (readable b))
    \<and> (\<forall>p. findCRLF b = Some p \<longleftrightarrow>
         (\<exists>i. p = readerIndex b + i \<and> i < readableBytes b \<and> prefix kCRLF (drop i (readable b))
           \<and> (\<forall>j<i. \<not> prefix kCRLF (drop j (readable b)))))"
proof (intro conjI allI)
  let ?i = "std_search kCRLF (readable b)"
  note fc = findCRLF_readable [OF assms] and len = length_readable [OF assms]
  have le: "?i \<le> readableBytes b" using std_search_le [of kCRLF "readable b"] len by simp
  show "findCRLF b = None \<longleftrightarrow> \<not> sublist kCRLF (readable b)"
    using std_search_none [of kCRLF "readable b"] by (simp add: fc Let_def)
  show "findCRLF b = Some p \<longleftrightarrow>
      (\<exists>i. p = readerIndex b + i \<and> i < readableBytes b \<and> prefix kCRLF (drop i (readable b))
        \<and> (\<forall>j<i. \<not> prefix kCRLF (drop j (readable b))))" (is "?L \<longleftrightarrow> ?R") for p
  proof
    assume ?L
    then have "?i < length (readable b)" "p = readerIndex b + ?i"
      using le len by (auto simp: fc Let_def split: if_splits)
    then show ?R using std_search_prefix [of kCRLF "readable b"] std_search_first [of _ kCRLF] len
      by auto
  next
    assume ?R
    then obtain i where i: "p = readerIndex b + i" "i < length (readable b)"
      "prefix kCRLF (drop i (readable b))" "\<And>j. j < i \<Longrightarrow> \<not> prefix kCRLF (drop j (readable b))"
      using len by auto
    then have "?i = i" by (intro std_search_unique) auto
    with i show ?L by (simp add: fc Let_def)
  qed
qed

theorem findCRLF_correct_witness:
  "buffer_inv (new_Buffer 4) \<and> (findCRLF (new_Buffer 4) = None)"
  using findCRLF_correct [of "new_Buffer 4"] by (simp add: kCRLF_def)

text \<open>When \<^verbatim>\<open>ensureWritableBytes\<close> compacts instead of growing, the destination of its
  \<^verbatim>\<open>std::copy\<close> lies strictly before the source, as \<^verbatim>\<open>std::copy\<close> requires; when it grows, the
  vector really gets longer; in both cases the requested room is there afterwards.\<close>

theorem ensureWritableBytes_safe:
  assumes "buffer_inv b" "writableBytes b < len"
  shows "(\<not> writableBytes b + prependableByte b < len + kCheapPrepend \<longrightarrow> kCheapPrepend < readerIndex b)
    \<and> (writableBytes b + prependableByte b < len + kCheapPrepend \<longrightarrow>
         length (buffer b) < length (buffer (makeSpace b len)))
    \<and> len \<le> writableBytes (ensureWritableBytes b len)"
proof -
  have "kCheapPrepend < readerIndex b" if "\<not> writableBytes b + prependableByte b < len + kCheapPrepend"
    using that assms(2) by (simp add: prependableByte_def)
  moreover have "length (buffer b) < length (buffer (makeSpace b len))"
    if "writableBytes b + prependableByte b < len + kCheapPrepend"
    using that assms by (simp add: makeSpace_def writableBytes_def buffer_inv_def)
  ultimately show ?thesis using ensureWritableBytes_room [OF assms(1)] by blast
qed

theorem ensureWritableBytes_safe_witness:
  "buffer_inv (new_Buffer 4) \<and> writableBytes (new_Buffer 4) < 9
   \<and> 9 \<le> writableBytes (ensureWritableBytes (new_Buffer 4) 9)"
proof -
  have h: "writableBytes (new_Buffer 4) < 9" by (simp add: writableBytes_def new_Buffer_def)
  show ?thesis using h ensureWritableBytes_safe [OF new_Buffer_inv h] by simp
qed

text \<open>For every vector and request shorter than \<open>2 ^ 63\<close> bytes, the 64-bit arithmetic of
  \<^verbatim>\<open>makeSpace\<close> does not wrap: its guard decides as it does on unbounded numbers, and the new size it
  asks for is the exact sum.\<close>

theorem makeSpace_no_wrap:
  assumes "buffer_inv b" "length (buffer b) < 2 ^ 63" "len < 2 ^ 63"
  shows "(makeSpace_guard_word (of_nat (length (buffer b))) (of_nat (writerIndex b))
            (of_nat (readerIndex b)) (of_nat len)
          \<longleftrightarrow> writableBytes b + prependableByte b < len + kCheapPrepend)
    \<and> unat (of_nat (writerIndex b) + of_nat len :: 64 word) = writerIndex b + len"
proof -
  let ?l = "length (buffer b) - writerIndex b + readerIndex b"
  have le: "readerIndex b \<le> writerIndex b" "writerIndex b \<le> length (buffer b)"
    using assms(1) by (simp_all add: buffer_inv_def)
  have lhs: "of_nat (length (buffer b)) - of_nat (writerIndex b) + of_nat (readerIndex b) = (of_nat ?l :: 64 word)"
    using le by (simp add: of_nat_diff)
  have rhs: "of_nat len + 8 = (of_nat (len + 8) :: 64 word)" by simp
  have sum: "of_nat (writerIndex b) + of_nat len = (of_nat (writerIndex b + len) :: 64 word)" by simp
  have un: "unat (of_nat k :: 64 word) = k" if "k < 2 ^ 64" for k
    using that by (simp add: unat_of_nat take_bit_nat_eq_self)
  have "?l < 2 ^ 64" "len + 8 < 2 ^ 64" "writerIndex b + len < 2 ^ 64"
    using le assms(2,3) by simp_all
  then show ?thesis
    unfolding makeSpace_guard_word_def lhs rhs sum word_less_nat_alt
    by (simp only: un writableBytes_def prependableByte_def kCheapPrepend_def simp_thms)
qed

theorem makeSpace_no_wrap_witness:
  "buffer_inv (new_Buffer 4) \<and> unat (of_nat (writerIndex (new_Buffer 4)) + of_nat 9 :: 64 word) = 17"
proof -
  have h: "length (buffer (new_Buffer 4)) < 2 ^ 63" "writerIndex (new_Buffer 4) = 8"
    by (simp_all add: new_Buffer_def kCheapPrepend_def)
  show ?thesis using makeSpace_no_wrap [OF new_Buffer_inv h(1), of 9] h(2) by simp
qed

text \<open>Appending a string to a buffer and then calling \<^verbatim>\<open>retrieveAllAsString\<close> reads inside the
  vector, returns the earlier unread bytes followed by the string, and leaves nothing unread.\<close>

theorem append_retrieveAllAsString:
  assumes "buffer_inv b"
  shows "\<exists>b'. retrieveAllAsString (append_buf b s) = Inr (readable b @ s, b')
    \<and> buffer_inv b' \<and> readable b' = []"
proof -
  have "readableBytes (append_buf b s) = length (readable (append_buf b s))"
    using assms by simp
  then show ?thesis using assms by (simp add: buf_simps)
qed

theorem append_retrieveAllAsString_witness:
  "buffer_inv (new_Buffer 1) \<and> (\<exists>b'. retrieveAllAsString (append_buf (new_Buffer 1) ''GET'') = Inr (''GET'', b')
    \<and> buffer_inv b' \<and> readable b' = [])"
  using append_retrieveAllAsString [of "new_Buffer 1" "''GET''"] by simp

end
