(* ===== verification/Ymuduo_Timestamp.thy ===== *)
theory Ymuduo_Timestamp
  imports Ymuduo_Prelude Complex_Main "HOL-Library.Log_Nat" "HOL-Library.Signed_Division"
begin

text \<open>
  Time stamps (\<^verbatim>\<open>src/include/Timestamp.h\<close>, \<^verbatim>\<open>src/src/Timestamp.cc\<close>): microseconds since the
  epoch. The count is an \<^verbatim>\<open>int64_t\<close>, whose overflow is undefined in C++; the model's integers are
  exact on every execution that stays inside that range. A finite \<^verbatim>\<open>double\<close> is the rational number
  it denotes, and \<open>fl\<close> rounds to the nearest double, ties to even, as IEEE 754 multiplication and
  division do (overflow to infinity is not modelled). \<^verbatim>\<open>gettimeofday\<close> and \<^verbatim>\<open>localtime_r\<close> are
  arguments.
\<close>

section \<open>Doubles\<close>

type_synonym double = rat

definition ilog2 :: "rat \<Rightarrow> int" where
  "ilog2 x = (case quotient_of x of (n, d) \<Rightarrow>
     if d \<le> n then int (floorlog 2 (nat (n div d))) - 1
     else - int (floorlog 2 (nat ((d - 1) div n))))"

definition pow2 :: "int \<Rightarrow> rat" where
  "pow2 e = (if 0 \<le> e then 2 ^ nat e else 1 / 2 ^ nat (- e))"

definition round_half_even :: "rat \<Rightarrow> int" where
  "round_half_even x = (let f = \<lfloor>x\<rfloor>; r = x - of_int f
     in if r < 1 / 2 then f else if 1 / 2 < r then f + 1 else if even f then f else f + 1)"

definition fl :: "rat \<Rightarrow> double" where
  "fl x = (if x = 0 then 0
     else let e = max (ilog2 \<bar>x\<bar> - 52) (- 1074)
          in sgn x * of_int (round_half_even (\<bar>x\<bar> / pow2 e)) * pow2 e)"

text \<open>\<^verbatim>\<open>static_cast<int64_t>\<close> of a double drops the fraction.\<close>

definition trunc :: "double \<Rightarrow> int" where
  "trunc x = (if 0 \<le> x then \<lfloor>x\<rfloor> else \<lceil>x\<rceil>)"

section \<open>The class\<close>

datatype Timestamp = Timestamp (microSecondsSinceEpoch: int)

text \<open>\<^verbatim>\<open>operator<\<close> and \<^verbatim>\<open>operator==\<close>; the order of the library is the former.\<close>

definition lt_Timestamp :: "Timestamp \<Rightarrow> Timestamp \<Rightarrow> bool" where
  "lt_Timestamp lhs rhs \<longleftrightarrow> microSecondsSinceEpoch lhs < microSecondsSinceEpoch rhs"

definition eq_Timestamp :: "Timestamp \<Rightarrow> Timestamp \<Rightarrow> bool" where
  "eq_Timestamp t rhs \<longleftrightarrow> microSecondsSinceEpoch t = microSecondsSinceEpoch rhs"

lemma eq_Timestamp_iff [simp]: "eq_Timestamp t rhs \<longleftrightarrow> t = rhs"
  by (auto simp: eq_Timestamp_def Timestamp.expand)

instantiation Timestamp :: linorder
begin

definition less_Timestamp :: "Timestamp \<Rightarrow> Timestamp \<Rightarrow> bool" where
  "less_Timestamp lhs rhs \<longleftrightarrow> lt_Timestamp lhs rhs"

definition less_eq_Timestamp :: "Timestamp \<Rightarrow> Timestamp \<Rightarrow> bool" where
  "less_eq_Timestamp lhs rhs \<longleftrightarrow> microSecondsSinceEpoch lhs \<le> microSecondsSinceEpoch rhs"

instance
  by standard (auto simp: less_Timestamp_def lt_Timestamp_def less_eq_Timestamp_def Timestamp.expand)

end

definition kMicroSecondsPerSecond :: int where "kMicroSecondsPerSecond = 1000 * 1000"

definition new_Timestamp :: Timestamp where "new_Timestamp = Timestamp 0"

definition invalid :: Timestamp where "invalid = new_Timestamp"

definition valid :: "Timestamp \<Rightarrow> bool" where
  "valid t \<longleftrightarrow> microSecondsSinceEpoch t > 0"

text \<open>\<^verbatim>\<open>now()\<close> from the \<^verbatim>\<open>tv_sec\<close> and \<^verbatim>\<open>tv_usec\<close> that \<^verbatim>\<open>gettimeofday\<close> delivers.\<close>

definition now_of :: "int \<Rightarrow> int \<Rightarrow> Timestamp" where
  "now_of tv_sec tv_usec = Timestamp (tv_sec * kMicroSecondsPerSecond + tv_usec)"

definition plus_micros :: "Timestamp \<Rightarrow> int \<Rightarrow> Timestamp" where
  "plus_micros t us = Timestamp (microSecondsSinceEpoch t + us)"

definition plus_Timestamp :: "Timestamp \<Rightarrow> Timestamp \<Rightarrow> Timestamp" where
  "plus_Timestamp lhs rhs = Timestamp (microSecondsSinceEpoch lhs + microSecondsSinceEpoch rhs)"

definition ge_Timestamp :: "Timestamp \<Rightarrow> Timestamp \<Rightarrow> bool" where
  "ge_Timestamp t rhs \<longleftrightarrow> microSecondsSinceEpoch t \<ge> microSecondsSinceEpoch rhs"

definition swap_Timestamp :: "Timestamp \<Rightarrow> Timestamp \<Rightarrow> Timestamp \<times> Timestamp" where
  "swap_Timestamp t that = (that, t)"

definition addTime :: "Timestamp \<Rightarrow> double \<Rightarrow> Timestamp" where
  "addTime timestamp seconds =
     (let delta = trunc (fl (seconds * of_int kMicroSecondsPerSecond))
      in Timestamp (microSecondsSinceEpoch timestamp + delta))"

definition timeDifference :: "Timestamp \<Rightarrow> Timestamp \<Rightarrow> double" where
  "timeDifference high low =
     (let diff = microSecondsSinceEpoch high - microSecondsSinceEpoch low
      in fl (fl (of_int diff) / of_int kMicroSecondsPerSecond))"

section \<open>Printing\<close>

definition toString :: "Timestamp \<Rightarrow> string" where
  "toString t =
     (let seconds = microSecondsSinceEpoch t sdiv kMicroSecondsPerSecond;
          microseconds = microSecondsSinceEpoch t smod kMicroSecondsPerSecond
      in snprintf 32 (show_int seconds @ ''.'' @ pad0 6 microseconds))"

record tm =
  tm_year :: int
  tm_mon :: int
  tm_mday :: int
  tm_hour :: int
  tm_min :: int
  tm_sec :: int

definition toFormattedString :: "(int \<Rightarrow> tm) \<Rightarrow> Timestamp \<Rightarrow> bool \<Rightarrow> string" where
  "toFormattedString localtime_r t showMicroseconds =
     (let seconds = microSecondsSinceEpoch t sdiv kMicroSecondsPerSecond;
          tm_time = localtime_r seconds;
          stamp = pad_blank 4 (tm_year tm_time + 1900) @ pad0 2 (tm_mon tm_time + 1) @
            pad0 2 (tm_mday tm_time) @ '' '' @ pad0 2 (tm_hour tm_time) @ '':'' @
            pad0 2 (tm_min tm_time) @ '':'' @ pad0 2 (tm_sec tm_time)
      in if showMicroseconds
         then snprintf 64 (stamp @ ''.'' @ pad0 6 (microSecondsSinceEpoch t smod kMicroSecondsPerSecond))
         else snprintf 64 stamp)"

definition toFormattedStringWithoutSeconds :: "(int \<Rightarrow> tm) \<Rightarrow> Timestamp \<Rightarrow> string" where
  "toFormattedStringWithoutSeconds localtime_r t =
     (let seconds = microSecondsSinceEpoch t sdiv kMicroSecondsPerSecond;
          tm_time = localtime_r seconds
      in snprintf 64 (pad_blank 4 (tm_year tm_time + 1900) @ ''-'' @ pad0 2 (tm_mon tm_time + 1) @ ''-'' @
           pad0 2 (tm_mday tm_time) @ ''_'' @ pad0 2 (tm_hour tm_time) @ ''-'' @ pad0 2 (tm_min tm_time)))"

section \<open>Lemmas\<close>

lemma ge_Timestamp_iff [simp]: "ge_Timestamp t r \<longleftrightarrow> r \<le> t"
  by (simp add: ge_Timestamp_def less_eq_Timestamp_def)

lemma Timestamp_less [simp]: "Timestamp a < Timestamp b \<longleftrightarrow> a < b"
  by (simp add: less_Timestamp_def lt_Timestamp_def)

lemma Timestamp_le [simp]: "Timestamp a \<le> Timestamp b \<longleftrightarrow> a \<le> b"
  by (simp add: less_eq_Timestamp_def)

lemma not_valid_invalid [simp]: "\<not> valid invalid"
  by (simp add: valid_def invalid_def new_Timestamp_def)

lemma pow2_pos [simp]: "0 < pow2 e"
  by (simp add: pow2_def)

lemma round_half_even_int [simp]: "round_half_even (of_int k) = k"
  by (simp add: round_half_even_def)

lemma round_half_even_nonneg: "0 \<le> x \<Longrightarrow> 0 \<le> round_half_even x"
  by (auto simp: round_half_even_def Let_def intro: add_nonneg_nonneg)

lemma fl_nonneg: "0 \<le> x \<Longrightarrow> 0 \<le> fl x"
  by (auto simp: fl_def Let_def sgn_if intro!: mult_nonneg_nonneg round_half_even_nonneg
      divide_nonneg_pos less_imp_le [OF pow2_pos])

lemma trunc_nonneg: "0 \<le> x \<Longrightarrow> 0 \<le> trunc x"
  by (simp add: trunc_def)

text \<open>Integers of less than 54 bits are doubles, so they are not rounded.\<close>

lemma ilog2_int:
  assumes "0 < k" "k < 2 ^ 53"
  shows "ilog2 (of_int k) \<le> 52"
proof -
  have "nat k < 2 ^ 53" using assms by (simp add: nat_less_iff)
  then have "floorlog 2 (nat k) \<le> 53" by (intro floorlog_leI) auto
  with assms show ?thesis by (simp add: ilog2_def)
qed

lemma fl_int:
  assumes "\<bar>k\<bar> < 2 ^ 53"
  shows "fl (of_int k) = of_int k"
proof (cases "k = 0")
  case True
  then show ?thesis by (simp add: fl_def)
next
  case False
  let ?e = "max (ilog2 \<bar>of_int k\<bar> - 52) (- 1074)"
  have "ilog2 (of_int \<bar>k\<bar>) \<le> 52" using assms False by (intro ilog2_int) auto
  then have e: "?e \<le> 0" by simp
  define m where "m = nat (- ?e)"
  have p: "pow2 ?e = 1 / 2 ^ m" using e by (auto simp: pow2_def m_def)
  have "\<bar>of_int k\<bar> / pow2 ?e = rat_of_int (\<bar>k\<bar> * 2 ^ m)" by (simp add: p)
  then have "round_half_even (\<bar>of_int k\<bar> / pow2 ?e) = \<bar>k\<bar> * 2 ^ m"
    by (simp only: round_half_even_int)
  then have "fl (of_int k) = sgn (of_int k) * of_int (\<bar>k\<bar> * 2 ^ m) * (1 / 2 ^ m)"
    using False p by (simp add: fl_def Let_def)
  also have "\<dots> = of_int (sgn k * \<bar>k\<bar>)" by (simp add: sgn_if)
  finally show ?thesis by (simp add: sgn_mult_abs)
qed

lemma trunc_int [simp]: "trunc (of_int k) = k"
  by (simp add: trunc_def)

section \<open>Properties\<close>



text \<open>\<^verbatim>\<open>toString\<close> of a time stamp that is not negative fits its 32-byte buffer and prints it
  without loss: the text is the seconds, a dot and six digits, and reading the two numbers back gives
  the microseconds.\<close>

theorem toString_roundtrip:
  assumes "0 \<le> us" "us < 2 ^ 63"
  shows "\<exists>s f. toString (Timestamp us) = s @ ''.'' @ f \<and> length f = 6
    \<and> int (read_nat s) * 1000000 + int (read_nat f) = us"
proof -
  let ?q = "us div 1000000" and ?r = "us mod 1000000"
  let ?s = "show_int ?q" and ?f = "pad0 6 ?r"
  have qr: "us sdiv kMicroSecondsPerSecond = ?q" "us smod kMicroSecondsPerSecond = ?r"
    using assms(1) by (auto simp: kMicroSecondsPerSecond_def signed_divide_int_eq_divide_int
        signed_modulo_int_eq_modulo_int sgn_if)
  have q: "0 \<le> ?q" "nat ?q < 10 ^ 19" using assms by auto
  have s: "?s = show_nat (nat ?q)" using q by (simp add: show_int_def)
  have f: "length ?f = 6" "read_nat ?f = nat ?r"
    using length_show_nat [of 6 "nat ?r"] by (auto intro: pad0_nonneg)
  have "length ?s \<le> 19" using length_show_nat [OF _ q(2)] s by simp
  then have "toString (Timestamp us) = ?s @ ''.'' @ ?f" by (simp add: toString_def qr f)
  moreover have "int (read_nat ?s) * 1000000 + int (read_nat ?f) = us"
    using q(1) by (simp add: s f)
  ultimately show ?thesis using f(1) by blast
qed

theorem toString_roundtrip_witness:
  "(0::int) \<le> 1500000 \<and> (\<exists>s f. toString (Timestamp 1500000) = s @ ''.'' @ f \<and> length f = 6
    \<and> int (read_nat s) * 1000000 + int (read_nat f) = 1500000)"
  using toString_roundtrip [of 1500000] by simp

end
