(* ===== verification/Ymuduo_Channel.thy ===== *)
theory Ymuduo_Channel
  imports Ymuduo_Timestamp "HOL-Library.Word"
begin

text \<open>
  Channels and the poller interface (\<^verbatim>\<open>src/include/Channel.h\<close>, \<^verbatim>\<open>src/src/Channel.cc\<close>,
  \<^verbatim>\<open>src/include/Poller.h\<close>, \<^verbatim>\<open>src/src/Poller.cc\<close>, and the forwarding functions of
  \<^verbatim>\<open>src/src/EventLoop.cc\<close>). A channel is a value with the address that identifies it; an operation
  that mutates it returns it. The two virtual functions of \<^verbatim>\<open>Poller\<close> that take a channel are a
  record of functions, so that a channel operation is written once for every poller. What stops the
  process (\<^verbatim>\<open>LOG_FATAL\<close>, a failed \<^verbatim>\<open>assert\<close>, an access out of bounds, a failed allocation) or keeps a call from ever
  returning is a value of \<open>abort\<close>.
\<close>

unbundle bit_operations_syntax

section \<open>Aborts\<close>

datatype abort = Exit_fatal int | Assert_fail | Bad_access | No_return | Bad_alloc

definition bind_abort :: "abort + 'a \<Rightarrow> ('a \<Rightarrow> abort + 'b) \<Rightarrow> abort + 'b" where
  "bind_abort r f = (case r of Inl e \<Rightarrow> Inl e | Inr x \<Rightarrow> f x)"

lemma bind_abort_simps [simp]: "bind_abort (Inl e) f = Inl e" "bind_abort (Inr x) f = f x"
  by (simp_all add: bind_abort_def)

lemma bind_abort_Inr: "bind_abort r f = Inr y \<longleftrightarrow> (\<exists>x. r = Inr x \<and> f x = Inr y)"
  by (cases r) auto

lemma bind_abort_rule:
  assumes "case r of Inl a \<Rightarrow> E a | Inr x \<Rightarrow> P x"
    and "\<And>x. P x \<Longrightarrow> case f x of Inl a \<Rightarrow> E a | Inr y \<Rightarrow> Q y"
  shows "case bind_abort r f of Inl a \<Rightarrow> E a | Inr y \<Rightarrow> Q y"
  using assms by (cases r) simp_all

section \<open>State\<close>

definition EPOLLIN :: "32 word" where "EPOLLIN = 1"
definition EPOLLPRI :: "32 word" where "EPOLLPRI = 2"
definition EPOLLOUT :: "32 word" where "EPOLLOUT = 4"
definition EPOLLERR :: "32 word" where "EPOLLERR = 8"
definition EPOLLHUP :: "32 word" where "EPOLLHUP = 16"

definition kNoneEvent :: "32 word" where "kNoneEvent = 0"
definition kReadEvent :: "32 word" where "kReadEvent = EPOLLIN OR EPOLLPRI"
definition kWriteEvent :: "32 word" where "kWriteEvent = EPOLLOUT"

definition kNew :: int where "kNew = -1"
definition kAdded :: int where "kAdded = 1"
definition kDeleted :: int where "kDeleted = 2"

record Channel =
  chan_addr :: nat
  ownerLoop :: nat
  fd :: int
  events :: "32 word"
  revents :: "32 word"
  index :: int
  eventHandling :: bool
  addedToLoop :: bool
  tied :: bool

definition new_Channel :: "nat \<Rightarrow> nat \<Rightarrow> int \<Rightarrow> Channel" where
  "new_Channel addr loop f = \<lparr>chan_addr = addr, ownerLoop = loop, fd = f, events = 0, revents = 0,
     index = -1, eventHandling = False, addedToLoop = False, tied = False\<rparr>"

definition isNoneEvent :: "Channel \<Rightarrow> bool" where
  "isNoneEvent ch \<longleftrightarrow> events ch = kNoneEvent"

definition isReading :: "Channel \<Rightarrow> bool" where
  "isReading ch \<longleftrightarrow> events ch AND kReadEvent \<noteq> 0"

definition isWriting :: "Channel \<Rightarrow> bool" where
  "isWriting ch \<longleftrightarrow> events ch AND kWriteEvent \<noteq> 0"

definition set_revents :: "Channel \<Rightarrow> 32 word \<Rightarrow> Channel" where
  "set_revents ch revt = ch\<lparr>revents := revt\<rparr>"

definition set_index :: "Channel \<Rightarrow> int \<Rightarrow> Channel" where
  "set_index ch idx = ch\<lparr>index := idx\<rparr>"

definition tie :: "Channel \<Rightarrow> Channel" where
  "tie ch = ch\<lparr>tied := True\<rparr>"

section \<open>Operations\<close>

type_synonym 'p chan_fun = "'p \<Rightarrow> Channel \<Rightarrow> abort + ('p \<times> Channel)"

record 'p Poller =
  vt_updateChannel :: "'p chan_fun"
  vt_removeChannel :: "'p chan_fun"

type_synonym ChannelMap = "int \<Rightarrow> nat option"

definition hasChannel :: "ChannelMap \<Rightarrow> Channel \<Rightarrow> bool" where
  "hasChannel channels ch \<longleftrightarrow> (case channels (fd ch) of None \<Rightarrow> False | Some a \<Rightarrow> a = chan_addr ch)"

text \<open>\<^verbatim>\<open>EventLoop::updateChannel\<close> and \<^verbatim>\<open>removeChannel\<close>, \<open>this\<close> being the loop's address.\<close>

definition loop_updateChannel :: "nat \<Rightarrow> 'p Poller \<Rightarrow> 'p chan_fun" where
  "loop_updateChannel this V p ch =
     (if ownerLoop ch = this then vt_updateChannel V p ch else Inl Assert_fail)"

definition loop_removeChannel :: "nat \<Rightarrow> 'p Poller \<Rightarrow> 'p chan_fun" where
  "loop_removeChannel this V p ch =
     (if ownerLoop ch = this then vt_removeChannel V p ch else Inl Assert_fail)"

definition loop_hasChannel :: "nat \<Rightarrow> ('p \<Rightarrow> ChannelMap) \<Rightarrow> 'p \<Rightarrow> Channel \<Rightarrow> abort + bool" where
  "loop_hasChannel this chans p ch =
     (if ownerLoop ch = this then Inr (hasChannel (chans p) ch) else Inl Assert_fail)"

definition chan_update :: "'p Poller \<Rightarrow> 'p chan_fun" where
  "chan_update V p ch = loop_updateChannel (ownerLoop ch) V p (ch\<lparr>addedToLoop := True\<rparr>)"

definition chan_remove :: "'p Poller \<Rightarrow> 'p chan_fun" where
  "chan_remove V p ch =
     (if isNoneEvent ch then loop_removeChannel (ownerLoop ch) V p (ch\<lparr>addedToLoop := False\<rparr>)
      else Inl Assert_fail)"

definition enableReading :: "'p Poller \<Rightarrow> 'p chan_fun" where
  "enableReading V p ch = chan_update V p (ch\<lparr>events := events ch OR kReadEvent\<rparr>)"

definition disableReading :: "'p Poller \<Rightarrow> 'p chan_fun" where
  "disableReading V p ch = chan_update V p (ch\<lparr>events := events ch AND NOT kReadEvent\<rparr>)"

definition enableWriting :: "'p Poller \<Rightarrow> 'p chan_fun" where
  "enableWriting V p ch = chan_update V p (ch\<lparr>events := events ch OR kWriteEvent\<rparr>)"

definition disableWriting :: "'p Poller \<Rightarrow> 'p chan_fun" where
  "disableWriting V p ch = chan_update V p (ch\<lparr>events := events ch AND NOT kWriteEvent\<rparr>)"

definition disableAll :: "'p Poller \<Rightarrow> 'p chan_fun" where
  "disableAll V p ch = chan_update V p (ch\<lparr>events := kNoneEvent\<rparr>)"

text \<open>The assertions of \<^verbatim>\<open>~Channel\<close>; \<open>inLoop\<close> is \<^verbatim>\<open>loop_->isInLoopThread()\<close>.\<close>

definition delete_Channel :: "bool \<Rightarrow> ChannelMap \<Rightarrow> Channel \<Rightarrow> abort + unit" where
  "delete_Channel inLoop channels ch =
     (if eventHandling ch \<or> addedToLoop ch then Inl Assert_fail
      else if inLoop \<and> hasChannel channels ch then Inl Assert_fail
      else Inr ())"

text \<open>Callbacks act on the state \<open>'s\<close> that the channel is part of. An empty \<^verbatim>\<open>std::function\<close> is
  \<open>None\<close>; \<open>on_channel\<close> updates the channel inside the state and \<open>chan\<close> reads it.\<close>

record 's ChannelCallbacks =
  readCallback :: "(Timestamp \<Rightarrow> 's \<Rightarrow> abort + 's) option"
  writeCallback :: "('s \<Rightarrow> abort + 's) option"
  closeCallback :: "('s \<Rightarrow> abort + 's) option"
  errorCallback :: "('s \<Rightarrow> abort + 's) option"

definition call_if :: "bool \<Rightarrow> ('s \<Rightarrow> abort + 's) option \<Rightarrow> 's \<Rightarrow> abort + 's" where
  "call_if c f s = (if c then (case f of None \<Rightarrow> Inr s | Some g \<Rightarrow> g s) else Inr s)"

definition handleEventWithGuard ::
  "('s \<Rightarrow> Channel) \<Rightarrow> ((Channel \<Rightarrow> Channel) \<Rightarrow> 's \<Rightarrow> 's) \<Rightarrow> 's ChannelCallbacks \<Rightarrow> Timestamp \<Rightarrow> 's \<Rightarrow> abort + 's" where
  "handleEventWithGuard chan on_channel cb receiveTime s =
     (let s0 = on_channel (\<lambda>ch. ch\<lparr>eventHandling := True\<rparr>) s;
          has = (\<lambda>s m. revents (chan s) AND m \<noteq> 0)
      in bind_abort (call_if (has s0 EPOLLHUP \<and> \<not> has s0 EPOLLIN) (closeCallback cb) s0) (\<lambda>s1.
         bind_abort (call_if (has s1 EPOLLERR) (errorCallback cb) s1) (\<lambda>s2.
         bind_abort (call_if (has s2 (EPOLLIN OR EPOLLPRI))
                       (map_option (\<lambda>f. f receiveTime) (readCallback cb)) s2) (\<lambda>s3.
         bind_abort (call_if (has s3 EPOLLOUT) (writeCallback cb) s3) (\<lambda>s4.
         Inr (on_channel (\<lambda>ch. ch\<lparr>eventHandling := False\<rparr>) s4))))))"

text \<open>\<open>alive\<close> tells whether \<^verbatim>\<open>tie_.lock()\<close> finds the owner still alive.\<close>

definition handleEvent ::
  "('s \<Rightarrow> Channel) \<Rightarrow> ((Channel \<Rightarrow> Channel) \<Rightarrow> 's \<Rightarrow> 's) \<Rightarrow> 's ChannelCallbacks \<Rightarrow> bool \<Rightarrow> Timestamp \<Rightarrow> 's \<Rightarrow> abort + 's" where
  "handleEvent chan on_channel cb alive receiveTime s =
     (if tied (chan s)
      then if alive then handleEventWithGuard chan on_channel cb receiveTime s else Inr s
      else handleEventWithGuard chan on_channel cb receiveTime s)"

section \<open>Event masks\<close>

lemmas event_masks = EPOLLIN_def EPOLLPRI_def EPOLLOUT_def EPOLLERR_def EPOLLHUP_def kNoneEvent_def
  kReadEvent_def kWriteEvent_def

lemma writing_enabled [simp]: "(e OR kWriteEvent) AND kWriteEvent \<noteq> 0"
  by (simp add: word_bw_comms word_ao_absorbs event_masks)

lemma event_nonzero [simp]: "kWriteEvent \<noteq> 0" "kReadEvent \<noteq> 0"
  by (simp_all add: event_masks)

lemma reading_enabled [simp]: "(e OR kReadEvent) AND kReadEvent \<noteq> 0"
  by (simp add: word_bw_comms word_ao_absorbs event_masks)

lemma writing_disabled [simp]: "(e AND NOT kWriteEvent) AND kWriteEvent = 0"
  by (simp add: word_bw_assocs)

lemma reading_disabled [simp]: "(e AND NOT kReadEvent) AND kReadEvent = 0"
  by (simp add: word_bw_assocs)

lemma reading_keeps_writing [simp]: "(e OR kReadEvent) AND kWriteEvent = e AND kWriteEvent"
  by (simp add: word_ao_dist event_masks)

lemma writing_keeps_reading [simp]: "(e OR kWriteEvent) AND kReadEvent = e AND kReadEvent"
  by (simp add: word_ao_dist event_masks)

lemma none_event_masks [simp]: "kNoneEvent AND m = 0"
  by (simp add: kNoneEvent_def)

section \<open>Sequences of channel operations\<close>

datatype chan_op = EnableReading | DisableReading | EnableWriting | DisableWriting | DisableAll

fun new_events :: "chan_op \<Rightarrow> 32 word \<Rightarrow> 32 word" where
  "new_events EnableReading e = e OR kReadEvent"
| "new_events DisableReading e = e AND NOT kReadEvent"
| "new_events EnableWriting e = e OR kWriteEvent"
| "new_events DisableWriting e = e AND NOT kWriteEvent"
| "new_events DisableAll e = kNoneEvent"

fun chan_step :: "'p Poller \<Rightarrow> chan_op \<Rightarrow> 'p chan_fun" where
  "chan_step V EnableReading = enableReading V"
| "chan_step V DisableReading = disableReading V"
| "chan_step V EnableWriting = enableWriting V"
| "chan_step V DisableWriting = disableWriting V"
| "chan_step V DisableAll = disableAll V"

fun chan_run :: "'p Poller \<Rightarrow> chan_op list \<Rightarrow> 'p chan_fun" where
  "chan_run V [] p ch = Inr (p, ch)"
| "chan_run V (x # xs) p ch = bind_abort (chan_step V x p ch) (\<lambda>(p', ch'). chan_run V xs p' ch')"

lemma chan_step_eq:
  "chan_step V x p ch = vt_updateChannel V p (ch\<lparr>events := new_events x (events ch), addedToLoop := True\<rparr>)"
  by (cases x) (simp_all add: enableReading_def disableReading_def enableWriting_def
      disableWriting_def disableAll_def chan_update_def loop_updateChannel_def)

section \<open>The interface of a poller\<close>

text \<open>The poller aborts in an update of a consistently registered channel.\<close>

definition refused :: "'p Poller \<Rightarrow> ('p \<Rightarrow> Channel \<Rightarrow> bool) \<Rightarrow> abort \<Rightarrow> bool" where
  "refused V ok a \<longleftrightarrow> (\<exists>p ch. ok p ch \<and> vt_updateChannel V p ch = Inl a)"

text \<open>\<open>chans\<close> is the poller's map from descriptors to channels; \<open>ok p ch\<close> says that the registration
  of \<open>ch\<close> in \<open>p\<close> agrees with the state recorded in the channel. Whether \<open>ok\<close> holds does not depend
  on the events the channel asks for, which change just before an update.\<close>

locale poller =
  fixes V :: "'p Poller"
    and chans :: "'p \<Rightarrow> ChannelMap"
    and ok :: "'p \<Rightarrow> Channel \<Rightarrow> bool"
  assumes ok_request: "ok p ch \<Longrightarrow> ok p (ch\<lparr>events := e, addedToLoop := l\<rparr>)"
    and ok_other: "ok p ch \<Longrightarrow> ok p (ch\<lparr>revents := r, eventHandling := h, tied := t\<rparr>)"
    and upd_ok: "ok p ch \<Longrightarrow> vt_updateChannel V p ch = Inr (p', ch') \<Longrightarrow>
      ok p' ch' \<and> chans p' = (chans p)(fd ch \<mapsto> chan_addr ch) \<and> index ch' \<noteq> kNew
      \<and> ch' = ch\<lparr>index := index ch'\<rparr>"
    and rem_ok: "ok p ch \<Longrightarrow> vt_removeChannel V p ch = Inr (p', ch') \<Longrightarrow>
      ok p' ch' \<and> chans p' = (chans p)(fd ch := None) \<and> ch' = ch\<lparr>index := kNew\<rparr>"
    and upd_frame: "ok p ch \<Longrightarrow> ok p d \<Longrightarrow> fd d \<noteq> fd ch \<Longrightarrow>
      vt_updateChannel V p ch = Inr (p', ch') \<Longrightarrow> ok p' d"
    and rem_frame: "ok p ch \<Longrightarrow> ok p d \<Longrightarrow> fd d \<noteq> fd ch \<Longrightarrow>
      vt_removeChannel V p ch = Inr (p', ch') \<Longrightarrow> ok p' d"
    and rem_progress: "ok p ch \<Longrightarrow> index ch \<noteq> kNew \<Longrightarrow> \<exists>r. vt_removeChannel V p ch = Inr r"
    and ok_new: "ok p ch \<Longrightarrow> index ch = kNew \<Longrightarrow> ok p (new_Channel addr loop (fd ch))"
begin

lemma step_ok:
  assumes "ok p ch" "chan_step V x p ch = Inr (p', ch')"
  shows "ok p' ch' \<and> chans p' = (chans p)(fd ch \<mapsto> chan_addr ch) \<and> index ch' \<noteq> kNew
    \<and> ch' = ch\<lparr>events := new_events x (events ch), addedToLoop := True, index := index ch'\<rparr>"
  using upd_ok [OF ok_request [OF assms(1)], of True "new_events x (events ch)" p' ch'] assms(2)
  by (simp add: chan_step_eq)

lemma run_ok:
  assumes "ok p ch" "chan_run V xs p ch = Inr (p', ch')"
  shows "ok p' ch' \<and> chan_addr ch' = chan_addr ch \<and> fd ch' = fd ch \<and> eventHandling ch' = eventHandling ch
    \<and> ownerLoop ch' = ownerLoop ch \<and> events ch' = fold new_events xs (events ch)
    \<and> (xs \<noteq> [] \<longrightarrow> hasChannel (chans p') ch' \<and> index ch' \<noteq> kNew)"
  using assms
proof (induction xs arbitrary: p ch)
  case Nil
  then show ?case by simp
next
  case (Cons x xs)
  then obtain p1 ch1 where s: "chan_step V x p ch = Inr (p1, ch1)" "chan_run V xs p1 ch1 = Inr (p', ch')"
    by (auto simp: bind_abort_Inr)
  note st = step_ok [OF Cons.prems(1) s(1)]
  have eq: "chan_addr ch1 = chan_addr ch" "fd ch1 = fd ch" "eventHandling ch1 = eventHandling ch"
    "ownerLoop ch1 = ownerLoop ch" "events ch1 = new_events x (events ch)"
    by (subst st [THEN conjunct2, THEN conjunct2, THEN conjunct2], simp)+

  show ?case
  proof (cases "xs = []")
    case True
    with s(2) st eq show ?thesis by (simp add: hasChannel_def)
  next
    case False
    with Cons.IH [OF _ s(2)] st eq show ?thesis by simp
  qed
qed

lemma step_cases:
  assumes "ok p ch"
  obtains (refused) a where "chan_step V x p ch = Inl a" "refused V ok a"
    | (ok) p' ch' where "chan_step V x p ch = Inr (p', ch')" "ok p' ch'"
        "ch' = ch\<lparr>events := new_events x (events ch), addedToLoop := True, index := index ch'\<rparr>" "index ch' \<noteq> kNew"
        "\<And>d. ok p d \<Longrightarrow> fd d \<noteq> fd ch \<Longrightarrow> ok p' d" "chans p' = (chans p)(fd ch \<mapsto> chan_addr ch)"
proof (cases "chan_step V x p ch")
  case (Inl a)
  then have "refused V ok a"
    using ok_request [OF assms] unfolding chan_step_eq refused_def by blast
  then show ?thesis using Inl that(1) by blast
next
  case (Inr r)
  then obtain p' ch' where r: "chan_step V x p ch = Inr (p', ch')" by (cases r) simp
  have "ok p' d" if "ok p d" "fd d \<noteq> fd ch" for d
    using upd_frame [OF ok_request [OF assms] that(1)] that(2) r unfolding chan_step_eq by simp
  then show ?thesis using that(2) [OF r] step_ok [OF assms r] by blast
qed

text \<open>A channel without events can be removed and then deleted.\<close>

lemma remove_delete_frame:
  assumes "ok p1 ch1" "\<not> eventHandling ch1" "isNoneEvent ch1" "index ch1 \<noteq> kNew"
  obtains p2 ch2 where "chan_remove V p1 ch1 = Inr (p2, ch2)" "ok p2 ch2" "index ch2 = kNew"
    "chans p2 = (chans p1)(fd ch1 := None)" "\<And>inLoop. delete_Channel inLoop (chans p2) ch2 = Inr ()"
    "\<And>d. ok p1 d \<Longrightarrow> fd d \<noteq> fd ch1 \<Longrightarrow> ok p2 d"
proof -
  have ok1: "ok p1 (ch1\<lparr>addedToLoop := False\<rparr>)"
    using ok_request [OF assms(1), of False "events ch1"] by simp
  then obtain p2 ch2 where rm: "vt_removeChannel V p1 (ch1\<lparr>addedToLoop := False\<rparr>) = Inr (p2, ch2)"
    using rem_progress assms(4) by fastforce
  have ch2: "ok p2 ch2" "chans p2 = (chans p1)(fd ch1 := None)"
    "ch2 = ch1\<lparr>addedToLoop := False, index := kNew\<rparr>"
    using rem_ok [OF ok1 rm] by auto
  have "delete_Channel inLoop (chans p2) ch2 = Inr ()" for inLoop
    using ch2 assms(2) by (simp add: delete_Channel_def hasChannel_def)
  moreover have "ok p2 d" if "ok p1 d" "fd d \<noteq> fd ch1" for d
    using rem_frame [OF ok1 that(1) _ rm] that(2) by simp
  ultimately show thesis using that rm ch2 assms(3) by (simp add: chan_remove_def loop_removeChannel_def)
qed

lemma remove_delete:
  assumes "ok p1 ch1" "\<not> eventHandling ch1" "isNoneEvent ch1" "index ch1 \<noteq> kNew"
  shows "\<exists>p2 ch2. chan_remove V p1 ch1 = Inr (p2, ch2) \<and> ok p2 ch2 \<and> index ch2 = kNew
    \<and> delete_Channel inLoop (chans p2) ch2 = Inr ()"
  using remove_delete_frame [OF assms] by metis

text \<open>After any operations, disabling all events and removing the channel lets it be deleted.\<close>

lemma run_remove_delete:
  assumes "ok p ch" "\<not> eventHandling ch"
    and "chan_run V (xs @ [DisableAll]) p ch = Inr (p1, ch1)"
  shows "\<exists>p2 ch2. chan_remove V p1 ch1 = Inr (p2, ch2) \<and> ok p2 ch2 \<and> index ch2 = kNew
    \<and> delete_Channel inLoop (chans p2) ch2 = Inr ()"
proof -
  note r = run_ok [OF assms(1,3)]
  then show ?thesis using assms(2) by (intro remove_delete) (simp_all add: isNoneEvent_def)
qed

end

text \<open>A poller that never refuses an update of a consistently registered channel.\<close>

locale reliable_poller = poller +
  assumes upd_progress: "ok p ch \<Longrightarrow> \<exists>r. vt_updateChannel V p ch = Inr r"

end
