(* ===== verification/Ymuduo_EPollPoller.thy ===== *)
theory Ymuduo_EPollPoller
  imports Ymuduo_Channel
begin

text \<open>
  The epoll back end (\<^verbatim>\<open>src/include/EPollPoller.h\<close>, \<^verbatim>\<open>src/src/EPollPoller.cc\<close>). The kernel is a
  parameter: \<open>ctl\<close> is \<^verbatim>\<open>epoll_ctl\<close> on the state of the epoll instance, returning 0 or an errno, and the outcome of
  \<^verbatim>\<open>epoll_wait\<close> is an argument of \<open>epoll_poll\<close>. What the manual page promises of \<^verbatim>\<open>epoll_ctl\<close> is the
  locale \<open>epoll_kernel\<close>.
\<close>

section \<open>State and operations\<close>

datatype ctl_op = EPOLL_CTL_ADD | EPOLL_CTL_DEL | EPOLL_CTL_MOD

type_synonym epoll_event = "32 word \<times> nat"

type_synonym 'k epoll_ctl = "'k \<Rightarrow> ctl_op \<Rightarrow> int \<Rightarrow> epoll_event \<Rightarrow> 'k \<times> int"

definition EEXIST :: int where "EEXIST = 17"
definition ENOENT :: int where "ENOENT = 2"
definition EINTR :: int where "EINTR = 4"

record 'k EPollPoller =
  epoll_state :: 'k
  channels :: ChannelMap
  events_size :: nat

definition kInitEventListSize :: nat where "kInitEventListSize = 16"

definition new_EPollPoller :: "'k \<Rightarrow> 'k EPollPoller" where
  "new_EPollPoller k = \<lparr>epoll_state = k, channels = (\<lambda>_. None), events_size = kInitEventListSize\<rparr>"

text \<open>The constructor: \<open>epollfd\<close> and \<open>err\<close> are the result of \<^verbatim>\<open>epoll_create1\<close> and its errno.\<close>

definition create_EPollPoller :: "int \<Rightarrow> int \<Rightarrow> 'k \<Rightarrow> abort + 'k EPollPoller" where
  "create_EPollPoller epollfd err k = (if epollfd < 0 then Inl (Exit_fatal err) else Inr (new_EPollPoller k))"

text \<open>\<^verbatim>\<open>Poller::newDefaultPoller\<close>: a null pointer when \<^verbatim>\<open>MUDUO_USE_POLL\<close> is set.\<close>

definition newDefaultPoller :: "bool \<Rightarrow> int \<Rightarrow> int \<Rightarrow> 'k \<Rightarrow> abort + 'k EPollPoller option" where
  "newDefaultPoller use_poll epollfd err k =
     (if use_poll then Inr None else bind_abort (create_EPollPoller epollfd err k) (\<lambda>p. Inr (Some p)))"

definition epoll_update :: "'k epoll_ctl \<Rightarrow> ctl_op \<Rightarrow> 'k EPollPoller \<Rightarrow> Channel \<Rightarrow> abort + 'k EPollPoller" where
  "epoll_update ctl operation p ch =
     (case ctl (epoll_state p) operation (fd ch) (events ch, chan_addr ch) of
        (k', e) \<Rightarrow>
          if e \<noteq> 0 \<and> operation \<noteq> EPOLL_CTL_DEL then Inl (Exit_fatal e)
          else Inr (p\<lparr>epoll_state := k'\<rparr>))"

definition epoll_updateChannel :: "'k epoll_ctl \<Rightarrow> 'k EPollPoller chan_fun" where
  "epoll_updateChannel ctl p ch =
     (if index ch = kNew \<or> index ch = kDeleted
      then let p1 = (if index ch = kNew then p\<lparr>channels := (channels p)(fd ch \<mapsto> chan_addr ch)\<rparr> else p);
               ch1 = set_index ch kAdded
           in bind_abort (epoll_update ctl EPOLL_CTL_ADD p1 ch1) (\<lambda>p2. Inr (p2, ch1))
      else if isNoneEvent ch
      then bind_abort (epoll_update ctl EPOLL_CTL_DEL p ch) (\<lambda>p1. Inr (p1, set_index ch kDeleted))
      else bind_abort (epoll_update ctl EPOLL_CTL_MOD p ch) (\<lambda>p1. Inr (p1, ch)))"

definition epoll_removeChannel :: "'k epoll_ctl \<Rightarrow> 'k EPollPoller chan_fun" where
  "epoll_removeChannel ctl p ch =
     (let p1 = p\<lparr>channels := (channels p)(fd ch := None)\<rparr>
      in if index ch \<noteq> kAdded \<and> index ch \<noteq> kDeleted then Inl Assert_fail
         else if index ch = kAdded
         then bind_abort (epoll_update ctl EPOLL_CTL_DEL p1 ch) (\<lambda>p2. Inr (p2, set_index ch kNew))
         else Inr (p1, set_index ch kNew))"

definition epoll_vtable :: "'k epoll_ctl \<Rightarrow> 'k EPollPoller Poller" where
  "epoll_vtable ctl = \<lparr>vt_updateChannel = epoll_updateChannel ctl, vt_removeChannel = epoll_removeChannel ctl\<rparr>"

text \<open>The channels live in a store indexed by address; an event carries the pointer it was
  registered with.\<close>

type_synonym chan_store = "nat \<Rightarrow> Channel option"

fun fillActiveChannels :: "epoll_event list \<Rightarrow> chan_store \<Rightarrow> nat list \<Rightarrow> abort + (chan_store \<times> nat list)" where
  "fillActiveChannels [] st active = Inr (st, active)"
| "fillActiveChannels ((ev, a) # evs) st active =
     (case st a of
        None \<Rightarrow> Inl Bad_access
      | Some ch \<Rightarrow> fillActiveChannels evs (st(a \<mapsto> set_revents ch ev)) (active @ [a]))"

datatype wait_result = WaitErr int | WaitOk "epoll_event list"

definition epoll_poll ::
  "wait_result \<Rightarrow> 'k EPollPoller \<Rightarrow> chan_store \<Rightarrow> nat list \<Rightarrow> abort + ('k EPollPoller \<times> chan_store \<times> nat list)" where
  "epoll_poll w p st active =
     (case w of
        WaitErr e \<Rightarrow> Inr (p, st, active)
      | WaitOk evs \<Rightarrow>
          if evs = [] then Inr (p, st, active)
          else bind_abort (fillActiveChannels evs st active) (\<lambda>(st', active').
                 Inr (if length evs = events_size p then p\<lparr>events_size := events_size p * 2\<rparr> else p,
                      st', active')))"

section \<open>The kernel's promises\<close>

locale epoll_kernel =
  fixes ctl :: "'k epoll_ctl"
    and interest :: "'k \<Rightarrow> int \<Rightarrow> epoll_event option"
  assumes ctl_success: "ctl k op f e = (k', 0) \<Longrightarrow>
      interest k' = (if op = EPOLL_CTL_DEL then (interest k)(f := None) else (interest k)(f \<mapsto> e))"
    and ctl_failure: "ctl k op f e = (k', err) \<Longrightarrow> err \<noteq> 0 \<Longrightarrow> interest k' = interest k"
    and add_exists: "ctl k EPOLL_CTL_ADD f e = (k', EEXIST) \<Longrightarrow> interest k f \<noteq> None"
    and add_no_noent: "snd (ctl k EPOLL_CTL_ADD f e) \<noteq> ENOENT"
    and mod_noent: "ctl k EPOLL_CTL_MOD f e = (k', ENOENT) \<Longrightarrow> interest k f = None"
    and mod_no_exist: "snd (ctl k EPOLL_CTL_MOD f e) \<noteq> EEXIST"
    and del_registered: "interest k f \<noteq> None \<Longrightarrow> snd (ctl k EPOLL_CTL_DEL f e) = 0"

text \<open>The registration of a channel agrees with its index: \<^verbatim>\<open>kNew\<close> is unknown to poller and kernel,
  \<^verbatim>\<open>kAdded\<close> is known to both, \<^verbatim>\<open>kDeleted\<close> only to the poller.\<close>

definition epoll_ok :: "('k \<Rightarrow> int \<Rightarrow> epoll_event option) \<Rightarrow> 'k EPollPoller \<Rightarrow> Channel \<Rightarrow> bool" where
  "epoll_ok interest p ch \<longleftrightarrow>
     (if index ch = kNew then channels p (fd ch) = None \<and> interest (epoll_state p) (fd ch) = None
      else if index ch = kAdded
      then channels p (fd ch) = Some (chan_addr ch) \<and> (\<exists>e. interest (epoll_state p) (fd ch) = Some (e, chan_addr ch))
      else if index ch = kDeleted
      then channels p (fd ch) = Some (chan_addr ch) \<and> interest (epoll_state p) (fd ch) = None
      else False)"

lemmas index_defs = kNew_def kAdded_def kDeleted_def

lemma index_distinct [simp]:
  "kNew \<noteq> kAdded" "kAdded \<noteq> kNew" "kNew \<noteq> kDeleted" "kDeleted \<noteq> kNew" "kAdded \<noteq> kDeleted" "kDeleted \<noteq> kAdded"
  by (simp_all add: index_defs)

lemma set_index_sel [simp]:
  "index (set_index ch i) = i" "fd (set_index ch i) = fd ch" "chan_addr (set_index ch i) = chan_addr ch"
  "events (set_index ch i) = events ch"
  by (simp_all add: set_index_def)

context epoll_kernel
begin

lemma update_cases:
  assumes "epoll_update ctl op p ch = Inr p'"
  shows "channels p' = channels p \<and>
    (interest (epoll_state p') = (if op = EPOLL_CTL_DEL then (interest (epoll_state p))(fd ch := None)
        else (interest (epoll_state p))(fd ch \<mapsto> (events ch, chan_addr ch)))
     \<or> op = EPOLL_CTL_DEL \<and> interest (epoll_state p) (fd ch) = None \<and> interest (epoll_state p') = interest (epoll_state p))"
proof -
  obtain k' e where c: "ctl (epoll_state p) op (fd ch) (events ch, chan_addr ch) = (k', e)" by force
  have p': "p' = p\<lparr>epoll_state := k'\<rparr>" "e = 0 \<or> op = EPOLL_CTL_DEL"
    using assms by (auto simp: epoll_update_def c split: if_splits)
  show ?thesis
  proof (cases "e = 0")
    case True
    then show ?thesis using ctl_success [of "epoll_state p" op] c p' by simp
  next
    case False
    then have "op = EPOLL_CTL_DEL" using p'(2) by simp
    moreover have "interest (epoll_state p) (fd ch) = None"
      using del_registered [of "epoll_state p" "fd ch" "(events ch, chan_addr ch)"] c False calculation
      by (metis snd_conv)
    ultimately show ?thesis using ctl_failure [OF c False] p' by simp
  qed
qed

lemma update_add_errno:
  assumes "epoll_update ctl EPOLL_CTL_ADD p ch = Inl a" "interest (epoll_state p) (fd ch) = None"
  shows "\<exists>e. a = Exit_fatal e \<and> e \<noteq> EEXIST \<and> e \<noteq> ENOENT"
  using assms add_exists [of "epoll_state p" "fd ch"] add_no_noent [of "epoll_state p" "fd ch" "(events ch, chan_addr ch)"]
  by (auto simp: epoll_update_def split: prod.splits if_splits)

lemma update_mod_errno:
  assumes "epoll_update ctl EPOLL_CTL_MOD p ch = Inl a" "interest (epoll_state p) (fd ch) \<noteq> None"
  shows "\<exists>e. a = Exit_fatal e \<and> e \<noteq> EEXIST \<and> e \<noteq> ENOENT"
  using assms mod_noent [of "epoll_state p" "fd ch"] mod_no_exist [of "epoll_state p" "fd ch" "(events ch, chan_addr ch)"]
  by (auto simp: epoll_update_def split: prod.splits if_splits)

lemma updateChannel_interest:
  assumes "epoll_ok interest p ch" "epoll_updateChannel ctl p ch = Inr (p', ch')"
  shows "epoll_ok interest p' ch' \<and> channels p' = (channels p)(fd ch \<mapsto> chan_addr ch) \<and> index ch' \<noteq> kNew
    \<and> ch' = ch\<lparr>index := index ch'\<rparr>
    \<and> interest (epoll_state p') = (if index ch = kAdded \<and> isNoneEvent ch then (interest (epoll_state p))(fd ch := None)
        else (interest (epoll_state p))(fd ch \<mapsto> (events ch, chan_addr ch)))"
proof -
  consider (add) "index ch = kNew \<or> index ch = kDeleted" | (del) "index ch = kAdded" "isNoneEvent ch"
    | (upd) "index ch = kAdded" "\<not> isNoneEvent ch"
    using assms(1) by (auto simp: epoll_ok_def split: if_splits)
  then show ?thesis
  proof cases
    case add
    let ?p1 = "if index ch = kNew then p\<lparr>channels := (channels p)(fd ch \<mapsto> chan_addr ch)\<rparr> else p"
    have "bind_abort (epoll_update ctl EPOLL_CTL_ADD ?p1 (set_index ch kAdded))
        (\<lambda>p2. Inr (p2, set_index ch kAdded)) = Inr (p', ch')"
      using add assms(2) by (simp only: epoll_updateChannel_def Let_def if_True simp_thms)
    then obtain p2 where u: "epoll_update ctl EPOLL_CTL_ADD ?p1 (set_index ch kAdded) = Inr p2"
        and r: "p' = p2" "ch' = set_index ch kAdded"
      unfolding bind_abort_Inr by blast
    show ?thesis
    proof (cases "index ch = kNew")
      case True
      with update_cases [OF u] assms(1) r show ?thesis by (simp add: epoll_ok_def set_index_def)
    next
      case False
      with update_cases [OF u] add assms(1) r show ?thesis
        by (simp add: epoll_ok_def set_index_def fun_upd_idem)
    qed
  next
    case del
    then obtain p1 where u: "epoll_update ctl EPOLL_CTL_DEL p ch = Inr p1" "p' = p1" "ch' = set_index ch kDeleted"
      using assms(2) by (auto simp: epoll_updateChannel_def bind_abort_Inr)
    show ?thesis using update_cases [OF u(1)] del assms(1) u(2,3)
      by (auto simp: epoll_ok_def set_index_def fun_upd_idem)
  next
    case upd
    then have "bind_abort (epoll_update ctl EPOLL_CTL_MOD p ch) (\<lambda>p1. Inr (p1, ch)) = Inr (p', ch')"
      using assms(2) by (simp add: epoll_updateChannel_def)
    then obtain p1 where u: "epoll_update ctl EPOLL_CTL_MOD p ch = Inr p1" "p' = p1" "ch' = ch"
      unfolding bind_abort_Inr by blast
    have "channels p' = channels p"
        "interest (epoll_state p') = (interest (epoll_state p))(fd ch \<mapsto> (events ch, chan_addr ch))"
      using update_cases [OF u(1)] u(2) by auto
    then show ?thesis unfolding u(3) using upd assms(1)
      by (intro conjI) (simp_all add: epoll_ok_def fun_upd_idem)
  qed
qed

lemma updateChannel_errno:
  assumes "epoll_ok interest p ch" "epoll_updateChannel ctl p ch = Inl a"
  shows "\<exists>e. a = Exit_fatal e \<and> e \<noteq> EEXIST \<and> e \<noteq> ENOENT"
proof -
  have inr: "epoll_update ctl EPOLL_CTL_DEL q c \<noteq> Inl x" for q c x
    by (auto simp: epoll_update_def split: prod.splits)
  consider "index ch = kNew \<or> index ch = kDeleted" | "index ch = kAdded" "isNoneEvent ch"
    | "index ch = kAdded" "\<not> isNoneEvent ch"
    using assms(1) by (auto simp: epoll_ok_def split: if_splits)
  then show ?thesis
  proof cases
    case 1
    let ?p1 = "if index ch = kNew then p\<lparr>channels := (channels p)(fd ch \<mapsto> chan_addr ch)\<rparr> else p"
    have "epoll_update ctl EPOLL_CTL_ADD ?p1 (set_index ch kAdded) = Inl a"
      using 1 assms(2) by (auto simp: epoll_updateChannel_def Let_def bind_abort_def split: sum.splits)
    then show ?thesis using 1 assms(1) by (intro update_add_errno) (auto simp: epoll_ok_def)
  next
    case 2
    then show ?thesis using assms(2) inr by (auto simp: epoll_updateChannel_def bind_abort_def split: sum.splits)
  next
    case 3
    then have "epoll_update ctl EPOLL_CTL_MOD p ch = Inl a"
      using assms(2) by (auto simp: epoll_updateChannel_def bind_abort_def split: sum.splits)
    then show ?thesis using 3 assms(1) by (intro update_mod_errno) (auto simp: epoll_ok_def)
  qed
qed

lemma removeChannel_result:
  assumes "epoll_ok interest p ch" "epoll_removeChannel ctl p ch = Inr (p', ch')"
  shows "epoll_ok interest p' ch' \<and> channels p' = (channels p)(fd ch := None) \<and> ch' = ch\<lparr>index := kNew\<rparr>
    \<and> interest (epoll_state p') = (interest (epoll_state p))(fd ch := None)"
proof (cases "index ch = kAdded")
  case True
  then obtain p2 where u: "epoll_update ctl EPOLL_CTL_DEL (p\<lparr>channels := (channels p)(fd ch := None)\<rparr>) ch = Inr p2"
      "p' = p2" "ch' = set_index ch kNew"
    using assms(2) by (auto simp: epoll_removeChannel_def bind_abort_Inr)
  show ?thesis using update_cases [OF u(1)] True assms(1) u(2,3)
    by (auto simp: epoll_ok_def set_index_def)
next
  case False
  then show ?thesis using assms
    by (auto simp: epoll_removeChannel_def epoll_ok_def set_index_def fun_upd_idem split: if_splits)
qed

lemma removeChannel_progress:
  "epoll_ok interest p ch \<Longrightarrow> index ch \<noteq> kNew \<Longrightarrow> \<exists>r. epoll_removeChannel ctl p ch = Inr r"
  by (auto simp: epoll_removeChannel_def epoll_ok_def epoll_update_def Let_def split: if_splits prod.splits)

lemma epoll_ok_frame:
  assumes "channels p' (fd d) = channels p (fd d)" "interest (epoll_state p') (fd d) = interest (epoll_state p) (fd d)"
  shows "epoll_ok interest p' d = epoll_ok interest p d"
  using assms by (simp add: epoll_ok_def)

lemma poller_epoll: "poller (epoll_vtable ctl) channels (epoll_ok interest)"
proof unfold_locales
  show "epoll_ok interest p' d"
    if "epoll_ok interest p ch" "epoll_ok interest p d" "fd d \<noteq> fd ch"
      "vt_updateChannel (epoll_vtable ctl) p ch = Inr (p', ch')" for p ch d p' ch'
    using that updateChannel_interest [OF that(1), of p' ch'] epoll_ok_frame [of p' d p]
    by (simp add: epoll_vtable_def)
  show "epoll_ok interest p' d"
    if "epoll_ok interest p ch" "epoll_ok interest p d" "fd d \<noteq> fd ch"
      "vt_removeChannel (epoll_vtable ctl) p ch = Inr (p', ch')" for p ch d p' ch'
    using that removeChannel_result [OF that(1), of p' ch'] epoll_ok_frame [of p' d p]
    by (simp add: epoll_vtable_def)
  show "epoll_ok interest p' ch' \<and> channels p' = (channels p)(fd ch \<mapsto> chan_addr ch) \<and> index ch' \<noteq> kNew
      \<and> ch' = ch\<lparr>index := index ch'\<rparr>"
    if "epoll_ok interest p ch" "vt_updateChannel (epoll_vtable ctl) p ch = Inr (p', ch')" for p ch p' ch'
    using updateChannel_interest [OF that(1), of p' ch'] that(2) by (simp add: epoll_vtable_def)
  show "epoll_ok interest p' ch' \<and> channels p' = (channels p)(fd ch := None) \<and> ch' = ch\<lparr>index := kNew\<rparr>"
    if "epoll_ok interest p ch" "vt_removeChannel (epoll_vtable ctl) p ch = Inr (p', ch')" for p ch p' ch'
    using removeChannel_result [OF that(1), of p' ch'] that(2) unfolding epoll_vtable_def Poller.select_convs
    by blast
  show "\<exists>r. vt_removeChannel (epoll_vtable ctl) p ch = Inr r"
    if "epoll_ok interest p ch" "index ch \<noteq> kNew" for p ch
    using removeChannel_progress [OF that] by (simp add: epoll_vtable_def)
  show "epoll_ok interest p (new_Channel a l (fd ch))" if "epoll_ok interest p ch" "index ch = kNew" for p ch a l
    using that by (simp add: epoll_ok_def new_Channel_def kNew_def)
qed (simp_all add: epoll_ok_def split: if_splits)

end

sublocale epoll_kernel \<subseteq> ep: poller "epoll_vtable ctl" channels "epoll_ok interest"
  by (rule poller_epoll)

section \<open>Runs of channel operations under epoll\<close>

definition epoll_synced :: "('k \<Rightarrow> int \<Rightarrow> epoll_event option) \<Rightarrow> 'k EPollPoller \<Rightarrow> Channel \<Rightarrow> bool" where
  "epoll_synced interest p ch \<longleftrightarrow>
     (index ch = kAdded \<longrightarrow> interest (epoll_state p) (fd ch) = Some (events ch, chan_addr ch))"

context epoll_kernel
begin

lemma epoll_step_synced:
  assumes "epoll_ok interest p ch" "chan_step (epoll_vtable ctl) x p ch = Inr (p', ch')"
  shows "epoll_synced interest p' ch'"
proof -
  let ?ch = "ch\<lparr>events := new_events x (events ch), addedToLoop := True\<rparr>"
  have ok: "epoll_ok interest p ?ch" using assms(1) by (rule ep.ok_request)
  have u: "epoll_updateChannel ctl p ?ch = Inr (p', ch')"
    using assms(2) by (simp add: chan_step_eq epoll_vtable_def)
  note r = updateChannel_interest [OF ok u]
  have sel: "fd ch' = fd ?ch" "events ch' = events ?ch" "chan_addr ch' = chan_addr ?ch"
    by (subst r [THEN conjunct2, THEN conjunct2, THEN conjunct2, THEN conjunct1], simp)+
  show ?thesis
  proof (cases "index ?ch = kAdded \<and> isNoneEvent ?ch")
    case True
    then have "interest (epoll_state p') (fd ch') = None" using r sel by simp
    then have "index ch' \<noteq> kAdded" using r by (auto simp: epoll_ok_def)
    then show ?thesis by (simp add: epoll_synced_def)
  next
    case False
    then have "interest (epoll_state p') = (interest (epoll_state p))(fd ?ch \<mapsto> (events ?ch, chan_addr ?ch))"
      using r by (simp only: if_False)
    then show ?thesis using sel by (simp add: epoll_synced_def)
  qed
qed

lemma epoll_run_synced:
  assumes "epoll_ok interest p ch" "chan_run (epoll_vtable ctl) xs p ch = Inr (p', ch')"
    "xs \<noteq> [] \<or> epoll_synced interest p ch"
  shows "epoll_synced interest p' ch'"
  using assms
proof (induction xs arbitrary: p ch)
  case Nil
  then show ?case by simp
next
  case (Cons x xs)
  then obtain p1 ch1 where s: "chan_step (epoll_vtable ctl) x p ch = Inr (p1, ch1)"
      "chan_run (epoll_vtable ctl) xs p1 ch1 = Inr (p', ch')"
    by (auto simp: bind_abort_Inr)
  have "epoll_ok interest p1 ch1" using ep.step_ok [OF Cons.prems(1) s(1)] by blast
  then show ?case using Cons.IH s(2) epoll_step_synced [OF Cons.prems(1) s(1)] by blast
qed

lemma epoll_run_errno:
  assumes "epoll_ok interest p ch" "chan_run (epoll_vtable ctl) xs p ch = Inl a"
  shows "\<exists>e. a = Exit_fatal e \<and> e \<noteq> EEXIST \<and> e \<noteq> ENOENT"
  using assms
proof (induction xs arbitrary: p ch)
  case Nil
  then show ?case by simp
next
  case (Cons x xs)
  show ?case
  proof (cases "chan_step (epoll_vtable ctl) x p ch")
    case (Inl b)
    moreover have "epoll_ok interest p (ch\<lparr>events := new_events x (events ch), addedToLoop := True\<rparr>)"
      using Cons.prems(1) by (rule ep.ok_request)
    ultimately show ?thesis
      using Cons.prems(2) updateChannel_errno by (auto simp: chan_step_eq epoll_vtable_def)
  next
    case (Inr r)
    obtain p1 ch1 where r: "r = (p1, ch1)" by force
    with Inr ep.step_ok [OF Cons.prems(1)] have "epoll_ok interest p1 ch1" by blast
    with Cons.IH Cons.prems(2) Inr r show ?thesis by simp
  qed
qed

end

lemma fillActiveChannels_spec:
  assumes "\<forall>(ev, a) \<in> set evs. st a \<noteq> None"
  shows "\<exists>st'. fillActiveChannels evs st active = Inr (st', active @ map snd evs)
    \<and> dom st' = dom st
    \<and> (\<forall>a ch. st a = Some ch \<longrightarrow> a \<notin> snd ` set evs \<longrightarrow> st' a = Some ch)
    \<and> (\<forall>(ev, a) \<in> set evs. distinct (map snd evs) \<longrightarrow> st' a = map_option (\<lambda>ch. set_revents ch ev) (st a))"
  using assms
proof (induction evs arbitrary: st active)
  case Nil
  then show ?case by simp
next
  case (Cons x evs)
  obtain ev a where x: "x = (ev, a)" by force
  obtain ch where ch: "st a = Some ch" using Cons.prems x by auto
  let ?st = "st(a \<mapsto> set_revents ch ev)"
  have "\<forall>(ev', a') \<in> set evs. ?st a' \<noteq> None" using Cons.prems by auto
  from Cons.IH [OF this, of "active @ [a]"] obtain st' where st':
    "fillActiveChannels evs ?st (active @ [a]) = Inr (st', (active @ [a]) @ map snd evs)"
    "dom st' = dom ?st" "\<forall>b c. ?st b = Some c \<longrightarrow> b \<notin> snd ` set evs \<longrightarrow> st' b = Some c"
    "\<forall>(e, b) \<in> set evs. distinct (map snd evs) \<longrightarrow> st' b = map_option (\<lambda>c. set_revents c e) (?st b)"
    by blast
  show ?case
  proof (intro exI conjI)
    show "fillActiveChannels (x # evs) st active = Inr (st', active @ map snd (x # evs))"
      using st'(1) ch x by simp
    show "dom st' = dom st" using st'(2) ch by auto
    show "\<forall>b c. st b = Some c \<longrightarrow> b \<notin> snd ` set (x # evs) \<longrightarrow> st' b = Some c"
      using st'(3) x by auto
    show "\<forall>(e, b) \<in> set (x # evs). distinct (map snd (x # evs)) \<longrightarrow>
        st' b = map_option (\<lambda>c. set_revents c e) (st b)"
      using st'(3,4) x ch by (fastforce simp: image_iff)
  qed
qed

section \<open>The man page's epoll as an instance\<close>

text \<open>An interest list that behaves as \<^verbatim>\<open>epoll_ctl(2)\<close> describes, without resource limits.\<close>

fun list_ctl :: "(int \<Rightarrow> epoll_event option) epoll_ctl" where
  "list_ctl k EPOLL_CTL_ADD f e = (if k f = None then (k(f \<mapsto> e), 0) else (k, EEXIST))"
| "list_ctl k EPOLL_CTL_MOD f e = (if k f = None then (k, ENOENT) else (k(f \<mapsto> e), 0))"
| "list_ctl k EPOLL_CTL_DEL f e = (if k f = None then (k, ENOENT) else (k(f := None), 0))"

interpretation list_epoll: epoll_kernel list_ctl "\<lambda>k. k"
proof
  fix k k' :: "int \<Rightarrow> epoll_event option" and op f e err
  show "list_ctl k op f e = (k', 0) \<Longrightarrow> k' = (if op = EPOLL_CTL_DEL then k(f := None) else k(f \<mapsto> e))"
    by (cases op) (auto simp: EEXIST_def ENOENT_def split: if_splits)
  show "list_ctl k op f e = (k', err) \<Longrightarrow> err \<noteq> 0 \<Longrightarrow> k' = k"
    by (cases op) (auto split: if_splits)
qed (auto simp: EEXIST_def ENOENT_def split: if_splits)

lemma list_ctl_total: "epoll_ok (\<lambda>k. k) p ch \<Longrightarrow> \<exists>r. epoll_updateChannel list_ctl p ch = Inr r"
  by (auto simp: epoll_updateChannel_def epoll_update_def epoll_ok_def Let_def ENOENT_def EEXIST_def split: if_splits)

interpretation list_reliable: reliable_poller "epoll_vtable list_ctl" channels "epoll_ok (\<lambda>k. k)"
  by unfold_locales (use list_ctl_total in \<open>simp add: epoll_vtable_def\<close>)

section \<open>Properties\<close>

text \<open>C18: for every kernel that keeps the promises of \<^verbatim>\<open>epoll_ctl\<close>, any sequence of enable and disable
  operations on a consistently registered channel keeps poller, kernel and channel consistent: no call
  ever fails because the descriptor was already there or not there (the process exits only when the
  kernel refuses for another reason), the channel's events are those the sequence asks for, and a
  channel in state \<^verbatim>\<open>kAdded\<close> is registered in the kernel with exactly those events and its own
  pointer.\<close>

theorem epoll_registration_consistent:
  assumes "epoll_kernel ctl interest" "epoll_ok interest p ch"
  shows "case chan_run (epoll_vtable ctl) xs p ch of
      Inl a \<Rightarrow> \<exists>e. a = Exit_fatal e \<and> e \<noteq> EEXIST \<and> e \<noteq> ENOENT
    | Inr (p', ch') \<Rightarrow> epoll_ok interest p' ch' \<and> events ch' = fold new_events xs (events ch)
        \<and> (xs \<noteq> [] \<longrightarrow> hasChannel (channels p') ch' \<and> epoll_synced interest p' ch')"
proof (cases "chan_run (epoll_vtable ctl) xs p ch")
  case (Inl a)
  then show ?thesis using epoll_kernel.epoll_run_errno [OF assms] by simp
next
  case (Inr r)
  obtain p' ch' where r: "r = (p', ch')" by force
  note run = Inr [unfolded r]
  have "poller (epoll_vtable ctl) channels (epoll_ok interest)"
    using assms(1) by (rule epoll_kernel.poller_epoll)
  from poller.run_ok [OF this assms(2) run] epoll_kernel.epoll_run_synced [OF assms run]
  show ?thesis by (auto simp: run)
qed

theorem epoll_registration_consistent_witness:
  "epoll_ok (\<lambda>k. k) (new_EPollPoller (\<lambda>_. None)) (new_Channel 100 1 7)
   \<and> (case chan_run (epoll_vtable list_ctl) [EnableReading, EnableWriting, DisableWriting]
        (new_EPollPoller (\<lambda>_. None)) (new_Channel 100 1 7) of
       Inl a \<Rightarrow> \<exists>e. a = Exit_fatal e \<and> e \<noteq> EEXIST \<and> e \<noteq> ENOENT
     | Inr (p', ch') \<Rightarrow> epoll_ok (\<lambda>k. k) p' ch'
         \<and> events ch' = fold new_events [EnableReading, EnableWriting, DisableWriting] 0)"
proof -
  have h: "epoll_ok (\<lambda>k. k) (new_EPollPoller (\<lambda>_. None)) (new_Channel 100 1 7)"
    by (simp add: epoll_ok_def new_EPollPoller_def new_Channel_def kNew_def)
  have e: "events (new_Channel 100 1 7) = 0" by (simp add: new_Channel_def)
  show ?thesis
    using h epoll_registration_consistent [OF list_epoll.epoll_kernel_axioms h,
      of "[EnableReading, EnableWriting, DisableWriting]"]
    unfolding e by (auto split: sum.splits)
qed

text \<open>When a channel has disabled all its events after any sequence of operations, \<^verbatim>\<open>remove\<close> succeeds
  (the assertion on its index holds), poller and kernel have forgotten it, and all assertions of
  \<^verbatim>\<open>~Channel\<close> hold.\<close>

theorem epoll_remove_then_delete:
  assumes "epoll_kernel ctl interest" "epoll_ok interest p ch" "\<not> eventHandling ch"
    "chan_run (epoll_vtable ctl) (xs @ [DisableAll]) p ch = Inr (p1, ch1)"
  shows "\<exists>p2 ch2. chan_remove (epoll_vtable ctl) p1 ch1 = Inr (p2, ch2) \<and> epoll_ok interest p2 ch2
    \<and> index ch2 = kNew \<and> delete_Channel inLoop (channels p2) ch2 = Inr ()"
  using poller.run_remove_delete [OF epoll_kernel.poller_epoll [OF assms(1)] assms(2-4)] .

theorem epoll_remove_then_delete_witness:
  "\<exists>p1 ch1 p2 ch2. chan_run (epoll_vtable list_ctl) ([EnableReading] @ [DisableAll])
        (new_EPollPoller (\<lambda>_. None)) (new_Channel 100 1 7) = Inr (p1, ch1)
     \<and> chan_remove (epoll_vtable list_ctl) p1 ch1 = Inr (p2, ch2)
     \<and> delete_Channel True (channels p2) ch2 = Inr ()"
proof -
  have h: "epoll_ok (\<lambda>k. k) (new_EPollPoller (\<lambda>_. None)) (new_Channel 100 1 7)"
    "\<not> eventHandling (new_Channel 100 1 7)"
    by (simp_all add: epoll_ok_def new_EPollPoller_def new_Channel_def kNew_def)
  have "\<exists>r. chan_run (epoll_vtable list_ctl) ([EnableReading] @ [DisableAll])
      (new_EPollPoller (\<lambda>_. None)) (new_Channel 100 1 7) = Inr r"
    by (simp add: chan_step_eq epoll_vtable_def epoll_updateChannel_def epoll_update_def new_Channel_def
        new_EPollPoller_def index_defs set_index_def isNoneEvent_def del: chan_step.simps)
  then obtain p1 ch1 where r: "chan_run (epoll_vtable list_ctl) ([EnableReading] @ [DisableAll])
      (new_EPollPoller (\<lambda>_. None)) (new_Channel 100 1 7) = Inr (p1, ch1)"
    by fast
  show ?thesis
    using r epoll_remove_then_delete [OF list_epoll.epoll_kernel_axioms h r, of True] by blast
qed

text \<open>C25: if every pointer the kernel reports belongs to a live channel, \<^verbatim>\<open>poll\<close> dereferences nothing
  else: it appends the reported channels in the kernel's order, gives each the events reported for
  it, leaves every other channel alone, and doubles the event array exactly when it was full, so that
  it stays as large as any batch seen. A timeout or an error changes nothing.\<close>

theorem epoll_poll_correct:
  assumes "\<forall>(ev, a) \<in> set evs. st a \<noteq> None" "length evs \<le> events_size p" "0 < events_size p"
  shows "(\<exists>p' st'. epoll_poll (WaitOk evs) p st active = Inr (p', st', active @ map snd evs)
      \<and> dom st' = dom st \<and> channels p' = channels p \<and> epoll_state p' = epoll_state p
      \<and> events_size p' = (if length evs = events_size p then 2 * events_size p else events_size p)
      \<and> (\<forall>a ch. st a = Some ch \<longrightarrow> a \<notin> snd ` set evs \<longrightarrow> st' a = Some ch)
      \<and> (\<forall>(ev, a) \<in> set evs. distinct (map snd evs) \<longrightarrow> st' a = map_option (\<lambda>ch. set_revents ch ev) (st a)))
    \<and> epoll_poll (WaitErr e) p st active = Inr (p, st, active)
    \<and> epoll_poll (WaitOk []) p st active = Inr (p, st, active)"
proof (cases "evs = []")
  case True
  then show ?thesis using assms(3) by (simp add: epoll_poll_def)
next
  case False
  obtain st' where st': "fillActiveChannels evs st active = Inr (st', active @ map snd evs)" "dom st' = dom st"
      "\<forall>a ch. st a = Some ch \<longrightarrow> a \<notin> snd ` set evs \<longrightarrow> st' a = Some ch"
      "\<forall>(ev, a) \<in> set evs. distinct (map snd evs) \<longrightarrow> st' a = map_option (\<lambda>ch. set_revents ch ev) (st a)"
    using fillActiveChannels_spec [OF assms(1), of active] by blast
  define p' where "p' = (if length evs = events_size p then p\<lparr>events_size := events_size p * 2\<rparr> else p)"
  have "epoll_poll (WaitOk evs) p st active = Inr (p', st', active @ map snd evs)"
    using False st'(1) by (simp add: epoll_poll_def p'_def)
  moreover have "channels p' = channels p" "epoll_state p' = epoll_state p"
      "events_size p' = (if length evs = events_size p then 2 * events_size p else events_size p)"
    by (simp_all add: p'_def)
  moreover have "epoll_poll (WaitErr e) p st active = Inr (p, st, active)"
      "epoll_poll (WaitOk []) p st active = Inr (p, st, active)"
    by (simp_all add: epoll_poll_def)
  ultimately show ?thesis using st'(2-4) by (intro conjI exI [of _ p'] exI [of _ st']) assumption+
qed

theorem epoll_poll_correct_witness:
  "\<exists>p' st'. epoll_poll (WaitOk [(1, 100)]) (new_EPollPoller ()) [100 \<mapsto> new_Channel 100 1 7] []
     = Inr (p', st', [100]) \<and> st' 100 = Some (set_revents (new_Channel 100 1 7) 1)"
proof -
  have h: "\<forall>(ev, a) \<in> set [(1 :: 32 word, 100 :: nat)]. [100 \<mapsto> new_Channel 100 1 7] a \<noteq> None"
    "length [(1 :: 32 word, 100 :: nat)] \<le> events_size (new_EPollPoller ())" "0 < events_size (new_EPollPoller ())"
    by (simp_all add: new_EPollPoller_def kInitEventListSize_def)
  show ?thesis using epoll_poll_correct [OF h, of "[]" 0, THEN conjunct1]
    unfolding list.map append_Nil snd_conv by (elim exE conjE) (intro exI conjI, assumption, simp)
qed

end
