(* ===== verification/Ymuduo_Socket.thy ===== *)
theory Ymuduo_Socket
  imports Ymuduo_EPollPoller
begin

text \<open>
  Internet addresses (\<^verbatim>\<open>src/include/InetAddress.h\<close>, \<^verbatim>\<open>src/src/InetAddress.cc\<close>, the address helpers of
  \<^verbatim>\<open>src/include/util.h\<close>), sockets (\<^verbatim>\<open>src/include/Socket.h\<close>, \<^verbatim>\<open>src/src/Socket.cc\<close>) and the acceptor
  (\<^verbatim>\<open>src/include/Acceptor.h\<close>, \<^verbatim>\<open>src/src/Acceptor.cc\<close>). Addresses and ports are words in network byte order
  as they lie in the memory of a little-endian machine; \<^verbatim>\<open>inet_pton\<close> and \<^verbatim>\<open>inet_ntop\<close> are modelled for
  IPv4 as the C library implements them. Results of system calls are arguments.
\<close>

section \<open>Byte order\<close>

definition bytes_of :: "nat \<Rightarrow> 'a::len word \<Rightarrow> nat list" where
  "bytes_of n w = map (\<lambda>k. unat w div 256 ^ k mod 256) [0..<n]"

fun of_bytes :: "nat list \<Rightarrow> nat" where
  "of_bytes [] = 0"
| "of_bytes (b # bs) = b + 256 * of_bytes bs"

definition htons :: "16 word \<Rightarrow> 16 word" where
  "htons x = word_of_nat (of_bytes (rev (bytes_of 2 x)))"

definition ntohs :: "16 word \<Rightarrow> 16 word" where
  "ntohs x = htons x"

definition htonl :: "32 word \<Rightarrow> 32 word" where
  "htonl x = word_of_nat (of_bytes (rev (bytes_of 4 x)))"

lemma of_bytes_bound: "\<forall>b \<in> set bs. b < 256 \<Longrightarrow> of_bytes bs < 256 ^ length bs"
proof (induction bs)
  case (Cons b bs)
  then have "b < 256" "of_bytes bs < 256 ^ length bs" by simp_all
  then have "of_bytes bs + 1 \<le> 256 ^ length bs" by simp
  then have "256 * (of_bytes bs + 1) \<le> 256 * 256 ^ length bs" by (rule mult_le_mono2)
  then show ?case using \<open>b < 256\<close> by simp
qed simp

lemma of_bytes_digit: "\<forall>b \<in> set bs. b < 256 \<Longrightarrow> k < length bs \<Longrightarrow> of_bytes bs div 256 ^ k mod 256 = bs ! k"
proof (induction bs arbitrary: k)
  case (Cons b bs)
  then have b: "b < 256" by simp
  show ?case
  proof (cases k)
    case (Suc j)
    have "(b + 256 * of_bytes bs) div 256 ^ Suc j = (b + 256 * of_bytes bs) div 256 div 256 ^ j"
      by (simp add: div_mult2_eq)
    also have "(b + 256 * of_bytes bs) div 256 = of_bytes bs" using b by simp
    finally show ?thesis using Cons Suc by simp
  qed (use b in simp)
qed simp

lemma bytes_of_lt: "\<forall>b \<in> set (bytes_of n w). b < 256"
  by (auto simp: bytes_of_def)

lemma length_bytes_of [simp]: "length (bytes_of n w) = n"
  by (simp add: bytes_of_def)

lemma bytes_of_of_bytes:
  assumes "\<forall>b \<in> set bs. b < 256" "256 ^ length bs \<le> (2 :: nat) ^ LENGTH('a::len)"
  shows "bytes_of (length bs) (word_of_nat (of_bytes bs) :: 'a word) = bs"
proof -
  have "of_bytes bs < 2 ^ LENGTH('a)" using of_bytes_bound [OF assms(1)] assms(2) by linarith
  then have u: "unat (word_of_nat (of_bytes bs) :: 'a word) = of_bytes bs"
    by (simp add: unat_of_nat take_bit_nat_eq_self)
  show ?thesis unfolding bytes_of_def u
    using of_bytes_digit [OF assms(1)] by (intro nth_equalityI) simp_all
qed

lemma of_bytes_bytes_of:
  "of_bytes (bytes_of n w) = unat w mod 256 ^ n"
proof -
  have "of_bytes (map (\<lambda>k. x div 256 ^ k mod 256) [0..<n]) = x mod 256 ^ n" for x :: nat
  proof (induction n arbitrary: x)
    case (Suc n)
    have "map (\<lambda>k. x div 256 ^ k mod 256) [0..<Suc n] = x mod 256 # map (\<lambda>k. x div 256 div 256 ^ k mod 256) [0..<n]"
      by (simp add: upt_conv_Cons map_Suc_upt [symmetric] div_mult2_eq comp_def del: upt_Suc)
    then show ?case using Suc [of "x div 256"] by (simp add: mod_mult2_eq del: upt_Suc)
  qed simp
  then show ?thesis by (simp add: bytes_of_def)
qed

text \<open>Converting to network order and back.\<close>

lemma ntohs_htons [simp]: "ntohs (htons x) = x"
proof -
  have b: "bytes_of 2 (htons x) = rev (bytes_of 2 x)"
    using bytes_of_of_bytes [of "rev (bytes_of 2 x)", where ?'a = 16] bytes_of_lt [of 2 x] by (simp add: htons_def)
  have "unat x < 2 ^ LENGTH(16)" by (rule unsigned_less)
  then show ?thesis unfolding ntohs_def htons_def [of "htons x"] b by (simp add: of_bytes_bytes_of)
qed

lemma bytes_of_htonl: "bytes_of 4 (htonl x) = rev (bytes_of 4 x)"
  using bytes_of_of_bytes [of "rev (bytes_of 4 x)", where ?'a = 32] bytes_of_lt [of 4 x] by (simp add: htonl_def)


section \<open>Addresses in text\<close>

text \<open>\<^verbatim>\<open>inet_ntop\<close> of the four bytes in memory order; \<open>None\<close> is a null pointer.\<close>

definition dotted :: "nat list \<Rightarrow> string" where
  "dotted bs = concat (map (\<lambda>b. show_nat b @ ''.'') (butlast bs)) @ show_nat (last bs)"

definition inet_ntop :: "32 word \<Rightarrow> nat \<Rightarrow> string option" where
  "inet_ntop a sz = (let s = dotted (bytes_of 4 a) in if length s + 1 > sz then None else Some s)"

definition is_digit :: "char \<Rightarrow> bool" where
  "is_digit c \<longleftrightarrow> of_char c \<ge> (48 :: nat) \<and> of_char c \<le> (57 :: nat)"

text \<open>The scanner of \<^verbatim>\<open>inet_pton\<close>: the completed octets, the value of the octet being read if a digit of it was
  seen, and the rest of the text.\<close>

fun pton_scan :: "nat list \<Rightarrow> nat option \<Rightarrow> string \<Rightarrow> nat list option" where
  "pton_scan os cur [] = (case cur of None \<Rightarrow> None | Some v \<Rightarrow> if length os = 3 then Some (os @ [v]) else None)"
| "pton_scan os cur (c # cs) =
     (if is_digit c
      then let new = (case cur of None \<Rightarrow> 0 | Some v \<Rightarrow> v) * 10 + digit_val c
           in if cur = Some 0 \<or> new > 255 then None else pton_scan os (Some new) cs
      else case cur of
             Some v \<Rightarrow> if c = CHR ''.'' then if length os = 3 then None else pton_scan (os @ [v]) None cs else None
           | None \<Rightarrow> None)"

definition inet_pton :: "string \<Rightarrow> 32 word option" where
  "inet_pton s = map_option (\<lambda>bs. word_of_nat (of_bytes bs)) (pton_scan [] None s)"

section \<open>The address class\<close>

text \<open>A \<^verbatim>\<open>struct sockaddr_in\<close>.\<close>

record InetAddress =
  sin_family :: int
  sin_addr :: "32 word"
  sin_port :: "16 word"

definition AF_INET :: int where "AF_INET = 2"
definition INADDR_ANY :: "32 word" where "INADDR_ANY = 0"
definition INADDR_LOOPBACK :: "32 word" where "INADDR_LOOPBACK = 0x7f000001"

definition InetAddress_port :: "16 word \<Rightarrow> bool \<Rightarrow> InetAddress" where
  "InetAddress_port port loopbackOnly =
     \<lparr>sin_family = AF_INET, sin_addr = htonl (if loopbackOnly then INADDR_LOOPBACK else INADDR_ANY), sin_port = htons port\<rparr>"

text \<open>\<^verbatim>\<open>c_str()\<close> of a string ends at its first null character.\<close>

definition c_str :: "string \<Rightarrow> string" where
  "c_str s = takeWhile (\<lambda>c. c \<noteq> CHR 0x00) s"

definition InetAddress_ip :: "string \<Rightarrow> 16 word \<Rightarrow> abort + InetAddress" where
  "InetAddress_ip ip port =
     (case inet_pton (c_str ip) of
        None \<Rightarrow> Inl (Exit_fatal 0)
      | Some a \<Rightarrow> Inr \<lparr>sin_family = AF_INET, sin_addr = a, sin_port = htons port\<rparr>)"

definition toIp :: "InetAddress \<Rightarrow> string" where
  "toIp a = (case inet_ntop (sin_addr a) 64 of None \<Rightarrow> '''' | Some s \<Rightarrow> s)"

definition toPort :: "InetAddress \<Rightarrow> 16 word" where
  "toPort a = ntohs (sin_port a)"

definition toIpPort :: "InetAddress \<Rightarrow> string" where
  "toIpPort a = toIp a @ '':'' @ show_nat (unat (toPort a))"

definition setSockAddr :: "InetAddress \<Rightarrow> InetAddress \<Rightarrow> InetAddress" where
  "setSockAddr this addr = addr"

text \<open>\<^verbatim>\<open>getLocalAddr\<close> and \<^verbatim>\<open>getPeerAddr\<close>: a zeroed structure when the system call fails.\<close>

definition zero_addr :: InetAddress where
  "zero_addr = \<lparr>sin_family = 0, sin_addr = 0, sin_port = 0\<rparr>"

definition getLocalAddr :: "InetAddress option \<Rightarrow> InetAddress" where
  "getLocalAddr getsockname = (case getsockname of None \<Rightarrow> zero_addr | Some a \<Rightarrow> a)"

definition getPeerAddr :: "InetAddress option \<Rightarrow> InetAddress" where
  "getPeerAddr getpeername = (case getpeername of None \<Rightarrow> zero_addr | Some a \<Rightarrow> a)"

section \<open>Parsing and printing\<close>

text \<open>What the scanner has read so far, as text.\<close>

definition scanned :: "nat list \<Rightarrow> nat option \<Rightarrow> string" where
  "scanned os cur = concat (map (\<lambda>b. show_nat b @ ''.'') os) @ (case cur of None \<Rightarrow> '''' | Some v \<Rightarrow> show_nat v)"

lemma digit_char_val: "is_digit c \<Longrightarrow> digit_char (digit_val c) = c \<and> digit_val c < 10"
  by (auto simp: is_digit_def digit_char_def digit_val_def)

lemma is_digit_char [simp]: "d < 10 \<Longrightarrow> is_digit (digit_char d)"
  by (simp add: is_digit_def digit_char_def)

lemma show_nat_snoc: "0 < v \<Longrightarrow> d < 10 \<Longrightarrow> show_nat (v * 10 + d) = show_nat v @ [digit_char d]"
  by (subst show_nat.simps) simp

lemma show_nat_digit: "d < 10 \<Longrightarrow> show_nat d = [digit_char d]"
  by (simp add: show_nat.simps)

text \<open>An accepted text is the printed form of the octets it is read as.\<close>

lemma pton_scan_print:
  assumes "pton_scan os cur s = Some bs" "\<forall>b \<in> set os. b < 256" "\<And>v. cur = Some v \<Longrightarrow> v < 256"
  shows "length bs = 4 \<and> (\<forall>b \<in> set bs. b < 256) \<and> dotted bs = scanned os cur @ s"
  using assms
proof (induction os cur s rule: pton_scan.induct)
  case (1 os cur)
  then show ?case by (auto simp: dotted_def scanned_def butlast_append split: option.splits if_splits)
next
  case (2 os cur c cs)
  show ?case
  proof (cases "is_digit c")
    case True
    define new where "new = (case cur of None \<Rightarrow> 0 | Some v \<Rightarrow> v) * 10 + digit_val c"
    have c: "digit_char (digit_val c) = c" "digit_val c < 10" using digit_char_val [OF True] by auto
    have ok: "cur \<noteq> Some 0" "new \<le> 255" "pton_scan os (Some new) cs = Some bs"
      using 2(3) True by (auto simp: new_def Let_def split: if_splits)
    have "scanned os (Some new) = scanned os cur @ [c]"
    proof (cases cur)
      case None
      then show ?thesis using c by (simp add: scanned_def new_def show_nat_digit)
    next
      case (Some v)
      then show ?thesis using c ok(1) show_nat_snoc [of v "digit_val c"] by (simp add: scanned_def new_def)
    qed
    then show ?thesis using 2(1) [OF True new_def _ ok(3) 2(4)] ok(1,2) by auto
  next
    case False
    then obtain v where v: "cur = Some v" "c = CHR ''.''" "length os \<noteq> 3" "pton_scan (os @ [v]) None cs = Some bs"
      using 2(3) by (auto split: option.splits if_splits)
    have "scanned (os @ [v]) None = scanned os cur @ [c]" using v(1,2) by (simp add: scanned_def)
    then show ?thesis using 2(2) [OF False v(1,2,3,4)] 2(4,5) v(1) by auto
  qed
qed


text \<open>A printed address is accepted and read as its octets.\<close>

lemma pton_scan_octet:
  assumes "b < 256"
  shows "pton_scan os None (show_nat b @ r) = pton_scan os (Some b) r"
  using assms
proof (induction b arbitrary: r rule: show_nat.induct)
  case (1 b)
  show ?case
  proof (cases "b < 10")
    case True
    then show ?thesis using 1(2) by (simp add: show_nat_digit)
  next
    case False
    then have "show_nat b = show_nat (b div 10) @ [digit_char (b mod 10)]" by (subst show_nat.simps) simp
    then have "pton_scan os None (show_nat b @ r) = pton_scan os (Some (b div 10)) (digit_char (b mod 10) # r)"
      using 1 False by simp
    also have "\<dots> = pton_scan os (Some b) r"
    proof -
      have "b div 10 * 10 + b mod 10 = b" "b div 10 \<noteq> 0" using False by simp_all
      then show ?thesis using 1(2) by simp
    qed
    finally show ?thesis .
  qed
qed

lemma pton_scan_dot: "length os \<noteq> 3 \<Longrightarrow> pton_scan os (Some b) (CHR ''.'' # r) = pton_scan (os @ [b]) None r"
  by (simp add: is_digit_def)

lemma pton_scan_dotted:
  assumes "length bs = 4" "\<forall>b \<in> set bs. b < 256"
  shows "pton_scan [] None (dotted bs) = Some bs"
proof -
  from assms(1) obtain a b c d where bs: "bs = [a, b, c, d]"
    by (auto simp: numeral_eq_Suc length_Suc_conv)
  have "pton_scan [a, b, c] None (show_nat d) = Some bs"
    using assms(2) pton_scan_octet [of d "[a, b, c]" "[]"] by (simp add: bs)
  then show ?thesis using assms(2) by (simp add: bs dotted_def pton_scan_octet pton_scan_dot del: pton_scan.simps)
qed

lemma word_of_bytes_of_32: "word_of_nat (of_bytes (bytes_of 4 a)) = (a :: 32 word)"
proof -
  have "unat a < 2 ^ LENGTH(32)" by (rule unsigned_less)
  then show ?thesis by (simp add: of_bytes_bytes_of)
qed

lemma dotted_chars: "c \<in> set (dotted bs) \<Longrightarrow> c \<noteq> CHR 0x00"
proof -
  have "CHR 0x00 \<notin> set (show_nat b)" for b
  proof
    assume "CHR 0x00 \<in> set (show_nat b)"
    then obtain d where "d < 10" "CHR 0x00 = digit_char d" using set_show_nat [of b] by auto
    then have "of_char (CHR 0x00) = (48 + d :: nat)" by (simp add: digit_char_def)
    then show False by simp
  qed
  then show "c \<in> set (dotted bs) \<Longrightarrow> c \<noteq> CHR 0x00" by (auto simp: dotted_def split: if_splits)
qed

lemma length_dotted:
  assumes "length bs = 4" "\<forall>b \<in> set bs. b < 256"
  shows "length (dotted bs) \<le> 15"
proof -
  from assms(1) obtain a b c d where bs: "bs = [a, b, c, d]"
    by (auto simp: numeral_eq_Suc length_Suc_conv)
  have "length (show_nat x) \<le> 3" if "x < 256" for x using that by (intro length_show_nat) simp_all
  then have "length (show_nat a) \<le> 3" "length (show_nat b) \<le> 3" "length (show_nat c) \<le> 3" "length (show_nat d) \<le> 3"
    using assms(2) by (simp_all add: bs)
  then show ?thesis by (simp add: bs dotted_def)
qed

lemma toIp_dotted: "toIp a = dotted (bytes_of 4 (sin_addr a))"
proof -
  have "length (dotted (bytes_of 4 (sin_addr a))) \<le> 15" by (intro length_dotted length_bytes_of bytes_of_lt)
  then show ?thesis by (simp add: toIp_def inet_ntop_def Let_def)
qed

lemma toIpPort_length: "length (toIpPort a) \<le> 21"
proof -
  have "length (toIp a) \<le> 15" unfolding toIp_dotted by (intro length_dotted length_bytes_of bytes_of_lt)
  moreover have "unat (toPort a) < 2 ^ LENGTH(16)" by (rule unsigned_less)
  then have "length (show_nat (unat (toPort a))) \<le> 5" by (intro length_show_nat) simp_all
  ultimately show ?thesis by (simp add: toIpPort_def)
qed

lemma htons_ntohs: "htons (ntohs x) = x"
  using ntohs_htons [of x] by (simp add: ntohs_def)

text \<open>C36: Addresses survive the trip through text: an address constructed from a text and a port prints that text and
  that port; what any address prints, the constructor accepts, and gives back the same address bytes and
  port; the printed form has at most 21 characters and \<^verbatim>\<open>inet_ntop\<close>'s buffer is never too small.\<close>

theorem address_roundtrip:
  "(\<forall>a. InetAddress_ip ip port = Inr a \<longrightarrow> toIp a = c_str ip \<and> toPort a = port
      \<and> toIpPort a = c_str ip @ '':'' @ show_nat (unat port))
   \<and> InetAddress_ip (toIp b) (toPort b) = Inr (b\<lparr>sin_family := AF_INET\<rparr>)
   \<and> length (toIpPort b) \<le> 21"
proof (intro conjI)
  show "\<forall>a. InetAddress_ip ip port = Inr a \<longrightarrow> toIp a = c_str ip \<and> toPort a = port
      \<and> toIpPort a = c_str ip @ '':'' @ show_nat (unat port)"
  proof (intro allI impI)
    fix a assume "InetAddress_ip ip port = Inr a"
    then obtain bs where bs: "pton_scan [] None (c_str ip) = Some bs" "sin_addr a = word_of_nat (of_bytes bs)" "sin_port a = htons port"
      by (auto simp: InetAddress_ip_def inet_pton_def split: option.splits)
    from pton_scan_print [OF bs(1)] have d: "length bs = 4" "\<forall>b \<in> set bs. b < 256" "dotted bs = c_str ip"
      by (auto simp: scanned_def)
    have "bytes_of 4 (sin_addr a) = bs" using bytes_of_of_bytes [of bs, where ?'a = 32] d(1,2) bs(2) by simp
    then show "toIp a = c_str ip \<and> toPort a = port \<and> toIpPort a = c_str ip @ '':'' @ show_nat (unat port)"
      using d(3) bs(3) by (simp add: toIp_dotted toPort_def toIpPort_def)
  qed
  have "c_str (toIp b) = toIp b" using dotted_chars by (auto simp: c_str_def toIp_dotted)
  moreover have "pton_scan [] None (toIp b) = Some (bytes_of 4 (sin_addr b))"
    unfolding toIp_dotted by (intro pton_scan_dotted length_bytes_of bytes_of_lt)
  ultimately show "InetAddress_ip (toIp b) (toPort b) = Inr (b\<lparr>sin_family := AF_INET\<rparr>)"
    by (simp add: InetAddress_ip_def inet_pton_def word_of_bytes_of_32 toPort_def htons_ntohs)
qed (rule toIpPort_length)

theorem address_roundtrip_witness:
  "\<exists>a. InetAddress_ip ''10.0.0.255'' 8080 = Inr a \<and> toIpPort a = ''10.0.0.255:'' @ show_nat 8080"
proof -
  have v: "digit_val CHR ''1'' = 1" "digit_val CHR ''0'' = 0" "digit_val CHR ''2'' = 2" "digit_val CHR ''5'' = 5"
    by (simp_all add: digit_val_def)
  have "\<exists>a. InetAddress_ip ''10.0.0.255'' 8080 = Inr a"
    by (simp add: InetAddress_ip_def inet_pton_def c_str_def is_digit_def v)
  then obtain a where a: "InetAddress_ip ''10.0.0.255'' 8080 = Inr a" by blast
  then show ?thesis using address_roundtrip [of "''10.0.0.255''" 8080 a] by (simp add: c_str_def)
qed


section \<open>Sockets\<close>

text \<open>The descriptor, the options that \<^verbatim>\<open>setsockopt\<close> has set, and the number of lines logged as errors.
  The argument \<open>rc\<close> is the result of the system call, whose value \<^verbatim>\<open>setsockopt\<close>'s callers ignore.\<close>

record Socket =
  sockfd :: int
  tcp_nodelay :: bool
  reuse_addr :: bool
  reuse_port :: bool
  keep_alive :: bool
  sock_errors :: nat

definition new_Socket :: "int \<Rightarrow> Socket" where
  "new_Socket f = \<lparr>sockfd = f, tcp_nodelay = False, reuse_addr = False, reuse_port = False, keep_alive = False, sock_errors = 0\<rparr>"

text \<open>The destructor closes this descriptor.\<close>

definition delete_Socket :: "Socket \<Rightarrow> int" where
  "delete_Socket s = sockfd s"

definition bindAddress :: "int \<Rightarrow> int \<Rightarrow> Socket \<Rightarrow> abort + Socket" where
  "bindAddress rc err s = (if rc \<noteq> 0 then Inl (Exit_fatal err) else Inr s)"

definition socket_listen :: "int \<Rightarrow> int \<Rightarrow> Socket \<Rightarrow> abort + Socket" where
  "socket_listen rc err s = (if rc \<noteq> 0 then Inl (Exit_fatal err) else Inr s)"

datatype accept_result = Accepted int InetAddress | AcceptErr int

definition socket_accept :: "accept_result \<Rightarrow> InetAddress \<Rightarrow> abort + (int \<times> InetAddress)" where
  "socket_accept r peerAddr =
     (case r of
        Accepted connfd addr \<Rightarrow> if connfd \<ge> 0 then Inr (connfd, setSockAddr peerAddr addr) else Inl (Exit_fatal 0)
      | AcceptErr err \<Rightarrow> Inl (Exit_fatal err))"

definition shutdownWrite :: "int \<Rightarrow> Socket \<Rightarrow> Socket" where
  "shutdownWrite rc s = (if rc < 0 then s\<lparr>sock_errors := Suc (sock_errors s)\<rparr> else s)"

definition setTcpNoDelay :: "int \<Rightarrow> bool \<Rightarrow> Socket \<Rightarrow> Socket" where
  "setTcpNoDelay rc on s = (if rc = 0 then s\<lparr>tcp_nodelay := on\<rparr> else s)"

definition setReuseAddr :: "int \<Rightarrow> bool \<Rightarrow> Socket \<Rightarrow> Socket" where
  "setReuseAddr rc on s = (if rc = 0 then s\<lparr>reuse_addr := on\<rparr> else s)"

definition setReusePort :: "int \<Rightarrow> bool \<Rightarrow> Socket \<Rightarrow> Socket" where
  "setReusePort rc on s = (if rc = 0 then s\<lparr>reuse_port := on\<rparr> else s)"

definition setKeepAlive :: "int \<Rightarrow> bool \<Rightarrow> Socket \<Rightarrow> Socket" where
  "setKeepAlive rc on s = (if rc = 0 then s\<lparr>keep_alive := on\<rparr> else s)"

section \<open>The acceptor\<close>

definition EMFILE :: int where "EMFILE = 24"

text \<open>\<open>open_fds\<close> are the descriptors the acceptor has opened and not closed or handed on; \<open>opened\<close> is what a successful
  \<^verbatim>\<open>open\<close> adds to them.\<close>

definition opened :: "int \<Rightarrow> int set" where
  "opened f = (if f \<ge> 0 then {f} else {})"

record 'p Acceptor =
  acceptSocket :: Socket
  acceptChannel :: Channel
  listenning :: bool
  idleFd :: int
  acc_poller :: 'p
  open_fds :: "int set"
  acc_errors :: nat

definition createNonblocking :: "int \<Rightarrow> int \<Rightarrow> abort + int" where
  "createNonblocking r err = (if r < 0 then Inl (Exit_fatal err) else Inr r)"

text \<open>The constructor; \<open>sr\<close>, \<open>br\<close> are the results of \<^verbatim>\<open>socket\<close> and \<^verbatim>\<open>bind\<close> with their errno, \<open>o1\<close>, \<open>o2\<close> those of the
  two \<^verbatim>\<open>setsockopt\<close> calls and \<open>idle\<close> that of \<^verbatim>\<open>open\<close>. The argument \<^verbatim>\<open>reusePort\<close> is not used.\<close>

definition create_Acceptor ::
  "nat \<Rightarrow> nat \<Rightarrow> bool \<Rightarrow> int \<times> int \<Rightarrow> int \<Rightarrow> int \<Rightarrow> int \<times> int \<Rightarrow> int \<Rightarrow> 'p \<Rightarrow> abort + 'p Acceptor" where
  "create_Acceptor loop addr reusePort sr o1 o2 br idle p =
     bind_abort (createNonblocking (fst sr) (snd sr)) (\<lambda>f.
     bind_abort (bindAddress (fst br) (snd br) (setReusePort o2 True (setReuseAddr o1 True (new_Socket f)))) (\<lambda>sock.
     Inr \<lparr>acceptSocket = sock, acceptChannel = new_Channel addr loop (sockfd sock), listenning = False, idleFd = idle,
          acc_poller = p, open_fds = insert f (opened idle), acc_errors = 0\<rparr>))"

definition acceptor_listen :: "'p Poller \<Rightarrow> int \<times> int \<Rightarrow> 'p Acceptor \<Rightarrow> abort + 'p Acceptor" where
  "acceptor_listen V lr s =
     (let s1 = s\<lparr>listenning := True\<rparr>
      in bind_abort (socket_listen (fst lr) (snd lr) (acceptSocket s1)) (\<lambda>sock.
         bind_abort (enableReading V (acc_poller s1) (acceptChannel s1)) (\<lambda>(p, ch).
         Inr (s1\<lparr>acceptSocket := sock, acc_poller := p, acceptChannel := ch\<rparr>))))"

definition close_fd :: "int \<Rightarrow> 'p Acceptor \<Rightarrow> 'p Acceptor" where
  "close_fd f s = s\<lparr>open_fds := open_fds s - {f}\<rparr>"

text \<open>\<open>cb\<close> is the new-connection callback, \<open>err\<close> the errno after a failed \<^verbatim>\<open>accept\<close> and \<open>reopened\<close> the result of
  opening the placeholder again.\<close>

definition acceptor_handleRead ::
  "(int \<Rightarrow> InetAddress \<Rightarrow> 'p Acceptor \<Rightarrow> abort + 'p Acceptor) option \<Rightarrow> accept_result \<Rightarrow> int \<Rightarrow> int \<Rightarrow> 'p Acceptor
     \<Rightarrow> abort + 'p Acceptor" where
  "acceptor_handleRead cb r err reopened s =
     bind_abort (socket_accept r (InetAddress_port 0 False)) (\<lambda>(connfd, peerAddr).
     if connfd \<ge> 0
     then let s1 = s\<lparr>open_fds := insert connfd (open_fds s)\<rparr>
          in (case cb of Some f \<Rightarrow> f connfd peerAddr (s1\<lparr>open_fds := open_fds s1 - {connfd}\<rparr>) | None \<Rightarrow> Inr (close_fd connfd s1))
     else let s1 = s\<lparr>acc_errors := Suc (acc_errors s)\<rparr>
          in Inr (if err = EMFILE
                  then let s2 = close_fd (idleFd s1) (close_fd (idleFd s1) s1)
                       in s2\<lparr>idleFd := reopened, open_fds := open_fds s2 \<union> opened reopened\<rparr>
                  else s1))"

definition delete_Acceptor ::
  "'p Poller \<Rightarrow> ('p \<Rightarrow> ChannelMap) \<Rightarrow> bool \<Rightarrow> 'p Acceptor \<Rightarrow> abort + ('p \<times> int set)" where
  "delete_Acceptor V chans inLoop s =
     bind_abort (disableAll V (acc_poller s) (acceptChannel s)) (\<lambda>(p1, ch1).
     bind_abort (chan_remove V p1 ch1) (\<lambda>(p2, ch2).
     let s1 = close_fd (idleFd s) s
     in bind_abort (delete_Channel inLoop (chans p2) ch2) (\<lambda>_.
        Inr (p2, open_fds (close_fd (delete_Socket (acceptSocket s1)) s1)))))"

text \<open>Accepting: a connection is handed to the callback exactly once with the peer's address, or closed when there is
  none.\<close>

lemma acceptor_handleRead_accepted:
  assumes "connfd \<ge> 0" "connfd \<notin> open_fds s"
  shows "acceptor_handleRead (Some f) (Accepted connfd addr) err r s = f connfd addr s"
    and "acceptor_handleRead None (Accepted connfd addr) err r s = Inr s"
proof -
  have "open_fds s - {connfd} = open_fds s" using assms(2) by blast
  then show "acceptor_handleRead (Some f) (Accepted connfd addr) err r s = f connfd addr s"
    "acceptor_handleRead None (Accepted connfd addr) err r s = Inr s"
    using assms(1) by (simp_all add: acceptor_handleRead_def socket_accept_def setSockAddr_def close_fd_def Let_def)
qed

text \<open>Any failure of \<^verbatim>\<open>accept\<close> ends the server: a connection that was reset before it was accepted, an interrupted
  call, or a full descriptor table stop the whole process, because \<^verbatim>\<open>Socket::accept\<close> ends in \<^verbatim>\<open>LOG_FATAL\<close>. The
  branch of \<^verbatim>\<open>Acceptor::handleRead\<close> that gives up the placeholder descriptor for \<^verbatim>\<open>EMFILE\<close> is never reached:
  no call changes the placeholder unless the callback does.\<close>

theorem accept_failure_exits:
  "acceptor_handleRead cb (AcceptErr e) err r s = Inl (Exit_fatal e)
   \<and> (acceptor_handleRead None res err r s = Inr s' \<longrightarrow> idleFd s' = idleFd s \<and> acc_errors s' = acc_errors s)"
  by (auto simp: acceptor_handleRead_def socket_accept_def close_fd_def Let_def bind_abort_Inr
      split: accept_result.splits if_splits)

theorem accept_failure_exits_witness:
  "\<exists>s :: unit Acceptor. acceptor_handleRead None (AcceptErr EMFILE) EMFILE 9 s = Inl (Exit_fatal EMFILE)
     \<and> (\<exists>s'. acceptor_handleRead None (Accepted 5 zero_addr) 0 9 s = Inr s' \<and> idleFd s' = idleFd s)"
proof -
  obtain s :: "unit Acceptor" where s: "create_Acceptor 1 100 False (3, 0) 0 0 (0, 0) 8 () = Inr s" "open_fds s = {3, 8}"
    by (simp add: opened_def create_Acceptor_def createNonblocking_def bindAddress_def)
  obtain s' where "acceptor_handleRead None (Accepted 5 zero_addr) 0 9 s = Inr s'"
    using acceptor_handleRead_accepted(2) [of 5 s zero_addr 0 9] s(2) by (simp add: opened_def)
  then show ?thesis using accept_failure_exits [of None EMFILE EMFILE 9 s] accept_failure_exits [of None 0 0 9 s _ s'] by blast
qed


section \<open>The life of an acceptor\<close>

context poller
begin

lemma acceptor_listen_spec:
  assumes "ok (acc_poller s) (acceptChannel s)"
  shows "case acceptor_listen V lr s of Inl a \<Rightarrow> refused V ok a \<or> (\<exists>e. a = Exit_fatal e)
    | Inr s' \<Rightarrow> ok (acc_poller s') (acceptChannel s') \<and> isReading (acceptChannel s') \<and> listenning s'
        \<and> eventHandling (acceptChannel s') = eventHandling (acceptChannel s) \<and> fd (acceptChannel s') = fd (acceptChannel s)
        \<and> acceptSocket s' = acceptSocket s \<and> idleFd s' = idleFd s \<and> open_fds s' = open_fds s"
  using assms
proof (cases rule: step_cases [where x = EnableReading])
  case (ok p ch)
  have "isReading ch" "eventHandling ch = eventHandling (acceptChannel s)" "fd ch = fd (acceptChannel s)"
    by (subst ok(3), simp add: isReading_def)+
  then show ?thesis using ok(1,2) by (simp add: acceptor_listen_def socket_listen_def Let_def)
qed (simp add: acceptor_listen_def socket_listen_def Let_def)

lemma delete_Acceptor_spec:
  assumes "ok (acc_poller s) (acceptChannel s)" "\<not> eventHandling (acceptChannel s)"
  shows "case delete_Acceptor V chans inLoop s of Inl a \<Rightarrow> refused V ok a
    | Inr (p', fds) \<Rightarrow> chans p' = (chans (acc_poller s))(fd (acceptChannel s) := None)
        \<and> fds = open_fds s - {idleFd s, sockfd (acceptSocket s)}"
  using assms(1)
proof (cases rule: step_cases [where x = DisableAll])
  case (refused a)
  then show ?thesis by (simp add: delete_Acceptor_def)
next
  case (ok p1 ch1)
  have c: "fd ch1 = fd (acceptChannel s)" "eventHandling ch1 = eventHandling (acceptChannel s)" "isNoneEvent ch1"
    by (subst ok(3), simp add: isNoneEvent_def)+
  have nh: "\<not> eventHandling ch1" using c(2) assms(2) by simp
  obtain p2 ch2 where r: "chan_remove V p1 ch1 = Inr (p2, ch2)" "chans p2 = (chans p1)(fd ch1 := None)"
      "\<And>inLoop. delete_Channel inLoop (chans p2) ch2 = Inr ()"
    by (rule remove_delete_frame [OF ok(2) nh c(3) ok(4)]) blast
  then show ?thesis using ok(1,6) c(1) by (auto simp: delete_Acceptor_def close_fd_def delete_Socket_def)
qed

end

text \<open>An acceptor is created, listens or not, and is destroyed, unless a system call fails; its channel is
  then unknown to the poller and every descriptor it opened is closed. The port is always shared with other
  processes, whatever was asked for.\<close>

lemma acceptor_lifecycle:
  assumes "poller V chans ok" "\<And>f. ok p (new_Channel addr loop f)" "o2 = 0"
    "create_Acceptor loop addr reusePort sr o1 o2 br idle p = Inr s"
  shows "reuse_port (acceptSocket s)
    \<and> (case bind_abort (if listens then acceptor_listen V lr s else Inr s) (delete_Acceptor V chans inLoop) of
        Inl a \<Rightarrow> refused V ok a \<or> (\<exists>e. a = Exit_fatal e)
      | Inr (p', fds) \<Rightarrow> chans p' (fd (acceptChannel s)) = None \<and> fds = {})"
proof -
  have s: "reuse_port (acceptSocket s)" "ok (acc_poller s) (acceptChannel s)" "\<not> eventHandling (acceptChannel s)"
      "open_fds s \<subseteq> {idleFd s, sockfd (acceptSocket s)}"
    using assms(2,3,4) by (auto simp: create_Acceptor_def createNonblocking_def bindAddress_def setReusePort_def setReuseAddr_def
        new_Socket_def new_Channel_def opened_def split: if_splits)
  have "case (if listens then acceptor_listen V lr s else Inr s) of Inl a \<Rightarrow> refused V ok a \<or> (\<exists>e. a = Exit_fatal e)
      | Inr s' \<Rightarrow> ok (acc_poller s') (acceptChannel s') \<and> \<not> eventHandling (acceptChannel s')
          \<and> fd (acceptChannel s') = fd (acceptChannel s)
          \<and> acceptSocket s' = acceptSocket s \<and> idleFd s' = idleFd s \<and> open_fds s' = open_fds s"
    using poller.acceptor_listen_spec [OF assms(1) s(2), of lr] s(2,3)
    by (cases listens; cases "acceptor_listen V lr s") simp_all
  then have "case bind_abort (if listens then acceptor_listen V lr s else Inr s) (delete_Acceptor V chans inLoop) of
        Inl a \<Rightarrow> refused V ok a \<or> (\<exists>e. a = Exit_fatal e)
      | Inr (p', fds) \<Rightarrow> chans p' (fd (acceptChannel s)) = None \<and> fds = {}"
  proof (rule bind_abort_rule, goal_cases)
    case (1 s1)
    then show ?case using poller.delete_Acceptor_spec [OF assms(1), of s1 inLoop] s(4)
      by (cases "delete_Acceptor V chans inLoop s1") auto
  qed
  then show ?thesis using s(1) by simp
qed

end
