(* ===== verification/Ymuduo_SelectPoller.thy ===== *)
theory Ymuduo_SelectPoller
  imports Ymuduo_Channel
begin

text \<open>
  The select back end (\<^verbatim>\<open>src/include/SelectPoller.h\<close>, \<^verbatim>\<open>src/src/SelectPoller.cc\<close>). A \<^verbatim>\<open>fd_set\<close> is
  the set of its members; setting, clearing or testing a descriptor outside \<^verbatim>\<open>0 .. FD_SETSIZE - 1\<close> is
  an access out of bounds. The order in which a \<^verbatim>\<open>std::unordered_map\<close> is traversed is unspecified:
  it is the parameter \<open>iter\<close>, restricted by the locale \<open>map_iteration\<close> to list every entry once.
\<close>

section \<open>State and operations\<close>

type_synonym map_iter = "ChannelMap \<Rightarrow> (int \<times> nat) list"

type_synonym fd_set = "int set"

definition FD_SETSIZE :: int where "FD_SETSIZE = 1024"

definition FD_SET :: "int \<Rightarrow> fd_set \<Rightarrow> abort + fd_set" where
  "FD_SET f s = (if 0 \<le> f \<and> f < FD_SETSIZE then Inr (insert f s) else Inl Bad_access)"

definition FD_CLR :: "int \<Rightarrow> fd_set \<Rightarrow> abort + fd_set" where
  "FD_CLR f s = (if 0 \<le> f \<and> f < FD_SETSIZE then Inr (s - {f}) else Inl Bad_access)"

definition FD_ISSET :: "int \<Rightarrow> fd_set \<Rightarrow> abort + bool" where
  "FD_ISSET f s = (if 0 \<le> f \<and> f < FD_SETSIZE then Inr (f \<in> s) else Inl Bad_access)"

record SelectPoller =
  select_channels :: ChannelMap
  readfds :: fd_set
  writefds :: fd_set
  exceptfds :: fd_set
  maxfd :: int

definition new_SelectPoller :: SelectPoller where
  "new_SelectPoller = \<lparr>select_channels = (\<lambda>_. None), readfds = {}, writefds = {}, exceptfds = {}, maxfd = -1\<rparr>"

definition select_updateChannel :: "SelectPoller chan_fun" where
  "select_updateChannel p ch =
     (let f = fd ch;
          p1 = (if index ch = kNew then p\<lparr>select_channels := (select_channels p)(f \<mapsto> chan_addr ch)\<rparr> else p);
          ch1 = (if index ch = kNew \<or> index ch = kDeleted then set_index ch kAdded else ch)
      in bind_abort (if events ch1 AND kReadEvent \<noteq> 0 then FD_SET f (readfds p1) else FD_CLR f (readfds p1)) (\<lambda>r.
         bind_abort (if events ch1 AND kWriteEvent \<noteq> 0 then FD_SET f (writefds p1) else FD_CLR f (writefds p1)) (\<lambda>w.
         bind_abort (FD_SET f (exceptfds p1)) (\<lambda>e.
         let p2 = p1\<lparr>readfds := r, writefds := w, exceptfds := e\<rparr>
         in Inr (if f > maxfd p2 then p2\<lparr>maxfd := f\<rparr> else p2, ch1)))))"

fun recompute_maxfd :: "(int \<times> nat) list \<Rightarrow> int \<Rightarrow> int" where
  "recompute_maxfd [] acc = acc"
| "recompute_maxfd (kv # kvs) acc = recompute_maxfd kvs (if fst kv > acc then fst kv else acc)"

definition select_removeChannel :: "map_iter \<Rightarrow> SelectPoller chan_fun" where
  "select_removeChannel iter p ch =
     (let f = fd ch;
          p1 = p\<lparr>select_channels := (select_channels p)(f := None)\<rparr>
      in bind_abort (FD_CLR f (readfds p1)) (\<lambda>r.
         bind_abort (FD_CLR f (writefds p1)) (\<lambda>w.
         bind_abort (FD_CLR f (exceptfds p1)) (\<lambda>e.
         let p2 = p1\<lparr>readfds := r, writefds := w, exceptfds := e\<rparr>
         in Inr (if f = maxfd p2 then p2\<lparr>maxfd := recompute_maxfd (iter (select_channels p2)) (-1)\<rparr> else p2,
                 set_index ch kNew)))))"

definition select_vtable :: "map_iter \<Rightarrow> SelectPoller Poller" where
  "select_vtable iter = \<lparr>vt_updateChannel = select_updateChannel, vt_removeChannel = select_removeChannel iter\<rparr>"

text \<open>The loop of \<^verbatim>\<open>fillActiveChannels\<close>, over the entries of the map; the channels live in a store
  indexed by address.\<close>

fun select_fillActiveChannels ::
  "SelectPoller \<Rightarrow> int \<Rightarrow> (int \<times> nat) list \<Rightarrow> (nat \<Rightarrow> Channel option) \<Rightarrow> nat list
   \<Rightarrow> abort + ((nat \<Rightarrow> Channel option) \<times> nat list)" where
  "select_fillActiveChannels p numEvents [] st active = Inr (st, active)"
| "select_fillActiveChannels p numEvents (kv # kvs) st active =
     (case st (snd kv) of
        None \<Rightarrow> Inl Bad_access
      | Some ch \<Rightarrow>
          bind_abort (FD_ISSET (fd ch) (readfds p)) (\<lambda>r.
          bind_abort (FD_ISSET (fd ch) (writefds p)) (\<lambda>w.
          bind_abort (FD_ISSET (fd ch) (exceptfds p)) (\<lambda>e.
          let revents = (if r then kReadEvent else 0) OR (if w then kWriteEvent else 0) OR (if e then kNoneEvent else 0)
          in if revents \<noteq> 0
             then let st' = st(snd kv \<mapsto> set_revents ch revents); active' = active @ [snd kv]
                  in if numEvents - 1 = 0 then Inr (st', active')
                     else select_fillActiveChannels p (numEvents - 1) kvs st' active'
             else select_fillActiveChannels p numEvents kvs st active))))"

text \<open>What \<^verbatim>\<open>select\<close> leaves in its three argument sets, and its return value.\<close>

record select_result =
  sel_ret :: int
  sel_readfds :: fd_set
  sel_writefds :: fd_set
  sel_exceptfds :: fd_set

definition select_poll ::
  "map_iter \<Rightarrow> select_result \<Rightarrow> SelectPoller \<Rightarrow> (nat \<Rightarrow> Channel option) \<Rightarrow> nat list
   \<Rightarrow> abort + ((nat \<Rightarrow> Channel option) \<times> nat list)" where
  "select_poll iter w p st active =
     (if sel_ret w > 0
      then select_fillActiveChannels p (sel_ret w) (iter (select_channels p)) st active
      else Inr (st, active))"

section \<open>The poller invariant\<close>

locale map_iteration =
  fixes iter :: map_iter
  assumes iter_set: "finite (dom m) \<Longrightarrow> set (iter m) = {(k, v). m k = Some v}"
    and iter_distinct: "finite (dom m) \<Longrightarrow> distinct (map fst (iter m))"

definition select_inv :: "SelectPoller \<Rightarrow> bool" where
  "select_inv p \<longleftrightarrow> finite (dom (select_channels p)) \<and> exceptfds p = dom (select_channels p)
     \<and> readfds p \<subseteq> dom (select_channels p) \<and> writefds p \<subseteq> dom (select_channels p)
     \<and> dom (select_channels p) \<subseteq> {0..<FD_SETSIZE}
     \<and> maxfd p = Max (insert (-1) (dom (select_channels p)))"

definition select_ok :: "SelectPoller \<Rightarrow> Channel \<Rightarrow> bool" where
  "select_ok p ch \<longleftrightarrow> select_inv p \<and> 0 \<le> fd ch \<and> fd ch < FD_SETSIZE
     \<and> (if index ch = kNew then select_channels p (fd ch) = None
        else index ch = kAdded \<and> select_channels p (fd ch) = Some (chan_addr ch))"

lemma index_consts [simp]: "kAdded \<noteq> kNew" "kNew \<noteq> kAdded" "kDeleted \<noteq> kNew" "kDeleted \<noteq> kAdded"
  by (simp_all add: kNew_def kAdded_def kDeleted_def)

lemma recompute_maxfd_Max: "recompute_maxfd kvs acc = Max (insert acc (fst ` set kvs))"
proof (induction kvs arbitrary: acc)
  case (Cons kv kvs)
  have "Max (insert acc (insert (fst kv) (fst ` set kvs))) = Max (insert (max acc (fst kv)) (fst ` set kvs))"
    by (cases "fst ` set kvs = {}") (simp_all add: max.assoc)
  then show ?case by (simp add: Cons.IH max_def)
qed simp

lemma Max_insert_dom:
  fixes f :: int
  assumes "finite S"
  shows "(if f > Max (insert (-1) S) then f else Max (insert (-1) S)) = Max (insert (-1) (insert f S))"
proof -
  have "Max (insert (-1) (insert f S)) = max f (Max (insert (-1) S))"
    using assms by (subst insert_commute, subst Max_insert) simp_all
  then show ?thesis by (simp add: max_def)
qed

lemma Max_remove_other:
  fixes f :: int
  assumes "finite S" "f \<noteq> Max (insert (-1) S)" "0 \<le> f"
  shows "Max (insert (-1) (S - {f})) = Max (insert (-1) S)"
proof (rule Max_eqI)
  have "Max (insert (-1) S) \<in> insert (-1) S" using assms(1) by (intro Max_in) simp_all
  then show "Max (insert (-1) S) \<in> insert (-1) (S - {f})" using assms(2) by blast
qed (use assms(1) in auto)

lemma select_update_result:
  assumes "select_ok p ch"
  shows "\<exists>p' ch'. select_updateChannel p ch = Inr (p', ch') \<and> select_inv p' \<and> ch' = ch\<lparr>index := kAdded\<rparr>
    \<and> select_channels p' = (select_channels p)(fd ch \<mapsto> chan_addr ch)
    \<and> readfds p' = (if isReading ch then insert (fd ch) (readfds p) else readfds p - {fd ch})
    \<and> writefds p' = (if isWriting ch then insert (fd ch) (writefds p) else writefds p - {fd ch})"
proof -
  let ?m = "(select_channels p)(fd ch \<mapsto> chan_addr ch)"
  define R where "R = (if isReading ch then insert (fd ch) (readfds p) else readfds p - {fd ch})"
  define W where "W = (if isWriting ch then insert (fd ch) (writefds p) else writefds p - {fd ch})"
  define mx where "mx = (if fd ch > maxfd p then fd ch else maxfd p)"
  have bnd: "0 \<le> fd ch" "fd ch < FD_SETSIZE" and inv: "select_inv p" using assms by (auto simp: select_ok_def)
  have idx: "index ch = kNew \<or> index ch = kAdded \<and> ?m = select_channels p"
    using assms by (auto simp: select_ok_def split: if_splits)
  let ?p' = "p\<lparr>select_channels := ?m, readfds := R, writefds := W, exceptfds := insert (fd ch) (exceptfds p), maxfd := mx\<rparr>"
  have eq: "select_updateChannel p ch = Inr (?p', ch\<lparr>index := kAdded\<rparr>)"
    using idx bnd
    by (elim disjE conjE)
      (simp_all add: select_updateChannel_def FD_SET_def FD_CLR_def Let_def set_index_def isReading_def isWriting_def
        R_def W_def mx_def)
  have "dom ?m = insert (fd ch) (dom (select_channels p))" by simp
  moreover have "mx = Max (insert (-1) (insert (fd ch) (dom (select_channels p))))"
    using inv Max_insert_dom [of "dom (select_channels p)" "fd ch"] by (simp only: mx_def select_inv_def simp_thms)
  ultimately have "select_inv ?p'" using inv bnd by (auto simp: select_inv_def R_def W_def)
  with eq show ?thesis by (auto simp: R_def W_def)
qed

context map_iteration
begin

lemma select_remove_result:
  assumes "select_ok p ch"
  shows "\<exists>p' ch'. select_removeChannel iter p ch = Inr (p', ch') \<and> select_inv p' \<and> ch' = ch\<lparr>index := kNew\<rparr>
    \<and> select_channels p' = (select_channels p)(fd ch := None)
    \<and> readfds p' = readfds p - {fd ch} \<and> writefds p' = writefds p - {fd ch}"
proof -
  let ?m = "(select_channels p)(fd ch := None)"
  define mx where "mx = (if fd ch = maxfd p then recompute_maxfd (iter ?m) (-1) else maxfd p)"
  have bnd: "0 \<le> fd ch" "fd ch < FD_SETSIZE" and inv: "select_inv p" using assms by (auto simp: select_ok_def)
  let ?p' = "p\<lparr>select_channels := ?m, readfds := readfds p - {fd ch}, writefds := writefds p - {fd ch},
      exceptfds := exceptfds p - {fd ch}, maxfd := mx\<rparr>"
  have eq: "select_removeChannel iter p ch = Inr (?p', ch\<lparr>index := kNew\<rparr>)"
    using bnd by (simp add: select_removeChannel_def FD_CLR_def Let_def set_index_def mx_def)
  have dom: "dom ?m = dom (select_channels p) - {fd ch}" by simp
  have fin: "finite (dom ?m)" using inv by (simp add: select_inv_def)
  have "fst ` set (iter ?m) = dom ?m" unfolding iter_set [OF fin] by (auto simp: image_iff dom_def)
  then have "mx = Max (insert (-1) (dom ?m))"
    using inv bnd Max_remove_other [of "dom (select_channels p)" "fd ch"]
    by (auto simp: mx_def recompute_maxfd_Max dom select_inv_def simp del: dom_fun_upd)
  with inv fin have "select_inv ?p'" by (auto simp: select_inv_def)
  with eq show ?thesis by auto
qed

lemma select_ok_frame:
  assumes "select_ok p d" "select_inv p'" "select_channels p' (fd d) = select_channels p (fd d)"
  shows "select_ok p' d"
  using assms by (simp add: select_ok_def)

lemma poller_select: "poller (select_vtable iter) select_channels select_ok"
proof unfold_locales
  show "select_ok p (ch\<lparr>events := e, addedToLoop := l\<rparr>)" if "select_ok p ch" for p ch e l
    using that by (simp add: select_ok_def)
  show "select_ok p (ch\<lparr>revents := r, eventHandling := h, tied := t\<rparr>)" if "select_ok p ch" for p ch r h t
    using that by (simp add: select_ok_def)
  show "select_ok p' ch' \<and> select_channels p' = (select_channels p)(fd ch \<mapsto> chan_addr ch) \<and> index ch' \<noteq> kNew
      \<and> ch' = ch\<lparr>index := index ch'\<rparr>"
    if "select_ok p ch" "vt_updateChannel (select_vtable iter) p ch = Inr (p', ch')" for p ch p' ch'
    using select_update_result [OF that(1)] that by (auto simp: select_vtable_def select_ok_def)
  show "select_ok p' ch' \<and> select_channels p' = (select_channels p)(fd ch := None) \<and> ch' = ch\<lparr>index := kNew\<rparr>"
    if "select_ok p ch" "vt_removeChannel (select_vtable iter) p ch = Inr (p', ch')" for p ch p' ch'
    using select_remove_result [OF that(1)] that by (auto simp: select_vtable_def select_ok_def)
  show "select_ok p' d"
    if "select_ok p ch" "select_ok p d" "fd d \<noteq> fd ch" "vt_updateChannel (select_vtable iter) p ch = Inr (p', ch')"
    for p ch d p' ch'
    using select_update_result [OF that(1)] that by (intro select_ok_frame [OF that(2)]) (auto simp: select_vtable_def)
  show "select_ok p' d"
    if "select_ok p ch" "select_ok p d" "fd d \<noteq> fd ch" "vt_removeChannel (select_vtable iter) p ch = Inr (p', ch')"
    for p ch d p' ch'
    using select_remove_result [OF that(1)] that by (intro select_ok_frame [OF that(2)]) (auto simp: select_vtable_def)
  show "\<exists>r. vt_removeChannel (select_vtable iter) p ch = Inr r" if "select_ok p ch" "index ch \<noteq> kNew" for p ch
    using select_remove_result [OF that(1)] by (auto simp: select_vtable_def)
  show "select_ok p (new_Channel a l (fd ch))" if "select_ok p ch" "index ch = kNew" for p ch a l
    using that by (simp add: select_ok_def new_Channel_def kNew_def)
qed

end

sublocale map_iteration \<subseteq> sel: poller "select_vtable iter" select_channels select_ok
  by (rule poller_select)

section \<open>Runs of channel operations under select\<close>

definition select_synced :: "SelectPoller \<Rightarrow> Channel \<Rightarrow> bool" where
  "select_synced p ch \<longleftrightarrow> (fd ch \<in> readfds p \<longleftrightarrow> isReading ch) \<and> (fd ch \<in> writefds p \<longleftrightarrow> isWriting ch)
     \<and> fd ch \<in> exceptfds p \<and> fd ch \<le> maxfd p"

lemma select_step_synced:
  assumes "select_ok p ch"
  shows "\<exists>p' ch'. chan_step (select_vtable iter) x p ch = Inr (p', ch') \<and> select_synced p' ch'"
proof -
  let ?ch = "ch\<lparr>events := new_events x (events ch), addedToLoop := True\<rparr>"
  have "select_ok p ?ch" using assms by (simp add: select_ok_def)
  from select_update_result [OF this] obtain p' where r:
      "select_updateChannel p ?ch = Inr (p', ?ch\<lparr>index := kAdded\<rparr>)" "select_inv p'"
      "select_channels p' = (select_channels p)(fd ?ch \<mapsto> chan_addr ?ch)"
      "readfds p' = (if isReading ?ch then insert (fd ?ch) (readfds p) else readfds p - {fd ?ch})"
      "writefds p' = (if isWriting ?ch then insert (fd ?ch) (writefds p) else writefds p - {fd ?ch})"
    by blast
  have "fd ch \<in> dom (select_channels p')" using r(3) by simp
  then have "fd ch \<in> exceptfds p' \<and> fd ch \<le> maxfd p'"
    using r(2) by (auto simp: select_inv_def intro: Max_ge)
  then have "select_synced p' (?ch\<lparr>index := kAdded\<rparr>)"
    using r(4,5) by (simp add: select_synced_def isReading_def isWriting_def)
  then show ?thesis using r(1) by (auto simp: chan_step_eq select_vtable_def simp del: chan_step.simps)
qed

context map_iteration
begin

lemma select_run_synced:
  assumes "select_ok p ch"
  shows "\<exists>p' ch'. chan_run (select_vtable iter) xs p ch = Inr (p', ch') \<and> (xs \<noteq> [] \<longrightarrow> select_synced p' ch')"
  using assms
proof (induction xs arbitrary: p ch)
  case (Cons x xs)
  obtain p1 ch1 where s: "chan_step (select_vtable iter) x p ch = Inr (p1, ch1)" "select_synced p1 ch1"
    using select_step_synced [OF Cons.prems] by blast
  have "select_ok p1 ch1" using sel.step_ok [OF Cons.prems s(1)] by blast
  from Cons.IH [OF this] s show ?case by (cases "xs = []") auto
qed simp

end

section \<open>What a poll reports\<close>

definition interest_mask :: "SelectPoller \<Rightarrow> int \<Rightarrow> 32 word" where
  "interest_mask p f = (if f \<in> readfds p then kReadEvent else 0) OR (if f \<in> writefds p then kWriteEvent else 0)"

definition select_report :: "SelectPoller \<Rightarrow> int \<Rightarrow> (int \<times> nat) list \<Rightarrow> nat list" where
  "select_report p n kvs = map snd (take (nat n) (filter (\<lambda>(f, a). interest_mask p f \<noteq> 0) kvs))"

lemma select_fill_spec:
  assumes "\<forall>(f, a) \<in> set kvs. 0 \<le> f \<and> f < FD_SETSIZE \<and> (\<exists>ch. st a = Some ch \<and> fd ch = f)" "0 < n"
  shows "select_fillActiveChannels p n kvs st active =
     Inr (\<lambda>a. if a \<in> set (select_report p n kvs)
              then map_option (\<lambda>ch. set_revents ch (interest_mask p (fd ch))) (st a) else st a,
          active @ select_report p n kvs)"
  using assms
proof (induction kvs arbitrary: n st active)
  case Nil
  then show ?case by (simp add: select_report_def)
next
  case (Cons kv kvs)
  obtain f a where kv: "kv = (f, a)" by force
  obtain ch where ch: "st a = Some ch" "fd ch = f" and f: "0 \<le> f" "f < FD_SETSIZE"
    using Cons.prems(1) kv by auto
  let ?st = "st(a \<mapsto> set_revents ch (interest_mask p f))"
  have mask: "(if f \<in> readfds p then kReadEvent else 0) OR (if f \<in> writefds p then kWriteEvent else 0)
      OR (if f \<in> exceptfds p then kNoneEvent else 0) = interest_mask p f"
    by (simp add: interest_mask_def kNoneEvent_def)
  show ?case
  proof (cases "interest_mask p f = 0")
    case True
    then have rep: "select_report p n (kv # kvs) = select_report p n kvs" by (simp add: select_report_def kv)
    show ?thesis unfolding rep
      using Cons.IH [of st n active] Cons.prems kv ch f True by (simp add: FD_ISSET_def Let_def mask)
  next
    case False
    have st: "\<forall>(f', a') \<in> set kvs. 0 \<le> f' \<and> f' < FD_SETSIZE \<and> (\<exists>c. ?st a' = Some c \<and> fd c = f')"
      using Cons.prems(1) ch by (auto simp: set_revents_def)
    obtain m where m: "nat n = Suc m" "nat (n - 1) = m" using Cons.prems(2) by (metis Suc_nat_eq_nat_zadd1 diff_add_cancel diff_ge_0_iff_ge int_one_le_iff_zero_less add.commute)
    have rep: "select_report p n (kv # kvs) = a # select_report p (n - 1) kvs"
      using False by (simp add: select_report_def kv m)
    have step: "select_fillActiveChannels p n (kv # kvs) st active =
        (if n - 1 = 0 then Inr (?st, active @ [a]) else select_fillActiveChannels p (n - 1) kvs ?st (active @ [a]))"
      using kv ch f False by (simp add: FD_ISSET_def Let_def mask)
    show ?thesis
    proof (cases "n - 1 = 0")
      case True
      then have "select_report p (n - 1) kvs = []" by (simp add: select_report_def)
      with True step rep ch show ?thesis by auto
    next
      case False
      have idem: "set_revents (set_revents c e) e = set_revents c e" "fd (set_revents c e) = fd c" for c e
        by (simp_all add: set_revents_def)
      have ih: "select_fillActiveChannels p (n - 1) kvs ?st (active @ [a]) =
          Inr (\<lambda>b. if b \<in> set (select_report p (n - 1) kvs)
                   then map_option (\<lambda>ch. set_revents ch (interest_mask p (fd ch))) (?st b) else ?st b,
               (active @ [a]) @ select_report p (n - 1) kvs)"
        using False Cons.prems(2) by (intro Cons.IH [OF st]) simp
      show ?thesis unfolding step rep if_not_P [OF False] ih
        using ch by (auto simp: idem fun_eq_iff)
    qed
  qed
qed

text \<open>A traversal in increasing order of the descriptors is one of those allowed.\<close>

definition sorted_iter :: map_iter where
  "sorted_iter m = map (\<lambda>k. (k, the (m k))) (sorted_list_of_set (dom m))"

interpretation sorted_map: map_iteration sorted_iter
proof
  fix m :: ChannelMap
  assume "finite (dom m)"
  then show "set (sorted_iter m) = {(k, v). m k = Some v}" "distinct (map fst (sorted_iter m))"
    by (auto simp: sorted_iter_def comp_def)
qed

interpretation sorted_select: reliable_poller "select_vtable sorted_iter" select_channels select_ok
proof
  fix p ch
  assume "select_ok p ch"
  then show "\<exists>r. vt_updateChannel (select_vtable sorted_iter) p ch = Inr r"
    using select_update_result [of p ch] by (auto simp: select_vtable_def)
qed

section \<open>Properties\<close>

text \<open>C26: under select, any sequence of enable and disable operations on a channel whose descriptor is
  below \<^verbatim>\<open>FD_SETSIZE\<close> stays within the descriptor sets and never stops the process; afterwards the
  descriptor is in the read set exactly when the channel is reading and in the write set exactly when
  it is writing, \<^verbatim>\<open>maxfd_\<close> is the largest registered descriptor (or -1), and removing the channel
  restores the same for the remaining ones.\<close>

theorem select_registration:
  assumes "map_iteration iter" "select_ok p ch" "xs \<noteq> []"
  shows "\<exists>p' ch' p'' ch''. chan_run (select_vtable iter) xs p ch = Inr (p', ch')
    \<and> (fd ch \<in> readfds p' \<longleftrightarrow> isReading ch') \<and> (fd ch \<in> writefds p' \<longleftrightarrow> isWriting ch')
    \<and> events ch' = fold new_events xs (events ch)
    \<and> maxfd p' = Max (insert (-1) (dom (select_channels p'))) \<and> fd ch \<in> dom (select_channels p')
    \<and> select_removeChannel iter p' ch' = Inr (p'', ch'') \<and> select_ok p'' ch''
    \<and> maxfd p'' = Max (insert (-1) (dom (select_channels p') - {fd ch}))
    \<and> fd ch \<notin> readfds p'' \<union> writefds p'' \<union> exceptfds p''"
proof -
  obtain p' ch' where r: "chan_run (select_vtable iter) xs p ch = Inr (p', ch')" "select_synced p' ch'"
    using map_iteration.select_run_synced [OF assms(1,2), of xs] assms(3) by blast
  note ok = poller.run_ok [OF map_iteration.poller_select [OF assms(1)] assms(2) r(1)]
  obtain p'' ch'' where rm: "select_removeChannel iter p' ch' = Inr (p'', ch'')" "select_inv p''"
      "ch'' = ch'\<lparr>index := kNew\<rparr>" "select_channels p'' = (select_channels p')(fd ch' := None)"
    using map_iteration.select_remove_result [OF assms(1), of p' ch'] ok by blast
  have "select_inv p'" "fd ch' = fd ch" using ok by (auto simp: select_ok_def)
  moreover have "dom (select_channels p'') = dom (select_channels p') - {fd ch}" using rm(4) \<open>fd ch' = fd ch\<close> by simp
  moreover have "select_ok p'' ch''" using ok rm by (auto simp: select_ok_def)
  moreover have "fd ch \<in> dom (select_channels p')" using ok \<open>select_inv p'\<close> r(2) \<open>fd ch' = fd ch\<close>
    by (simp add: select_synced_def select_inv_def)
  ultimately have "maxfd p' = Max (insert (-1) (dom (select_channels p')))" "fd ch \<in> dom (select_channels p')"
      "select_ok p'' ch''" "maxfd p'' = Max (insert (-1) (dom (select_channels p') - {fd ch}))"
      "fd ch \<notin> readfds p'' \<union> writefds p'' \<union> exceptfds p''"
    using rm(2) unfolding select_inv_def by (simp, blast, blast, simp, auto)
  moreover have "fd ch \<in> readfds p' \<longleftrightarrow> isReading ch'" "fd ch \<in> writefds p' \<longleftrightarrow> isWriting ch'"
      "events ch' = fold new_events xs (events ch)"
    using r(2) ok \<open>fd ch' = fd ch\<close> by (simp_all add: select_synced_def)
  ultimately show ?thesis using r(1) rm(1) by blast
qed

theorem select_registration_witness:
  "select_ok new_SelectPoller (new_Channel 100 1 7)
   \<and> (\<exists>p' ch'. chan_run (select_vtable sorted_iter) [EnableReading] new_SelectPoller (new_Channel 100 1 7) = Inr (p', ch')
        \<and> maxfd p' = Max (insert (-1) (dom (select_channels p'))))"
proof -
  have h: "select_ok new_SelectPoller (new_Channel 100 1 7)"
    by (simp add: select_ok_def select_inv_def new_SelectPoller_def new_Channel_def kNew_def FD_SETSIZE_def)
  show ?thesis
    using h select_registration [OF sorted_map.map_iteration_axioms h, of "[EnableReading]"] by blast
qed

text \<open>C27: what \<^verbatim>\<open>SelectPoller::poll\<close> reports depends only on the number \<^verbatim>\<open>select\<close> returns and on the
  registered interest: the first so many registered channels with a non-empty interest, in traversal
  order, each with its whole interest as \<^verbatim>\<open>revents\<close>. The descriptor sets in which \<^verbatim>\<open>select\<close> returns
  the ready descriptors have no influence, because \<^verbatim>\<open>fillActiveChannels\<close> tests the registered sets.\<close>

theorem select_poll_reports_interest:
  assumes "map_iteration iter" "select_inv p"
    "\<forall>f a. select_channels p f = Some a \<longrightarrow> (\<exists>ch. st a = Some ch \<and> fd ch = f)"
  shows "select_poll iter w p st active =
    (let reported = (if sel_ret w \<le> 0 then [] else select_report p (sel_ret w) (iter (select_channels p)))
     in Inr (\<lambda>a. if a \<in> set reported
                 then map_option (\<lambda>ch. set_revents ch (interest_mask p (fd ch))) (st a) else st a,
             active @ reported))"
proof (cases "sel_ret w > 0")
  case True
  have "\<forall>(f, a) \<in> set (iter (select_channels p)). 0 \<le> f \<and> f < FD_SETSIZE \<and> (\<exists>ch. st a = Some ch \<and> fd ch = f)"
    using assms(2,3) map_iteration.iter_set [OF assms(1), of "select_channels p"]
    by (auto simp: select_inv_def)
  from select_fill_spec [OF this True] True show ?thesis by (simp add: select_poll_def Let_def)
qed (simp add: select_poll_def)

theorem select_poll_reports_interest_witness:
  "select_poll sorted_iter \<lparr>sel_ret = 1, sel_readfds = {8}, sel_writefds = {}, sel_exceptfds = {}\<rparr>
     \<lparr>select_channels = [7 \<mapsto> 100, 8 \<mapsto> 200], readfds = {7, 8}, writefds = {}, exceptfds = {7, 8}, maxfd = 8\<rparr>
     [100 \<mapsto> new_Channel 100 1 7, 200 \<mapsto> new_Channel 200 1 8] []
   = Inr ([100 \<mapsto> set_revents (new_Channel 100 1 7) kReadEvent, 200 \<mapsto> new_Channel 200 1 8], [100])"
proof -
  let ?p = "\<lparr>select_channels = [7 \<mapsto> 100, 8 \<mapsto> 200], readfds = {7, 8}, writefds = {}, exceptfds = {7, 8}, maxfd = 8\<rparr> :: SelectPoller"
  let ?w = "\<lparr>sel_ret = 1, sel_readfds = {8}, sel_writefds = {}, sel_exceptfds = {}\<rparr> :: select_result"
  have inv: "select_inv ?p" by (auto simp: select_inv_def FD_SETSIZE_def)
  have st: "\<forall>f a. select_channels ?p f = Some a \<longrightarrow>
      (\<exists>ch. [100 \<mapsto> new_Channel 100 1 7, 200 \<mapsto> new_Channel 200 1 8] a = Some ch \<and> fd ch = f)"
    by (simp add: new_Channel_def)
  have it: "sorted_iter (select_channels ?p) = [(7, 100), (8, 200)]" by (simp add: sorted_iter_def)
  have "select_report ?p 1 [(7, 100), (8, 200)] = [100]"
    by (simp add: select_report_def interest_mask_def event_masks)
  then show ?thesis
    unfolding select_poll_reports_interest [OF sorted_map.map_iteration_axioms inv st, of ?w "[]", unfolded it]
    by (auto simp: interest_mask_def new_Channel_def fun_eq_iff)
qed

end
