(* ===== verification/Ymuduo_TcpConnection.thy ===== *)
theory Ymuduo_TcpConnection
  imports Ymuduo_Buffer Ymuduo_Socket Ymuduo_SelectPoller "HOL-Library.Sublist"
begin

text \<open>
  One TCP connection (\<^verbatim>\<open>src/include/TcpConnection.h\<close>, \<^verbatim>\<open>src/src/TcpConnection.cc\<close>): its state, its
  channel and the poller it is registered with, its two buffers, the functors it queues in its loop,
  and the socket. The socket is scripted: \<open>write_script\<close> and \<open>read_script\<close> hold the outcomes of the
  coming \<^verbatim>\<open>write\<close> and \<^verbatim>\<open>readv\<close> calls, \<open>sock_out\<close> collects the bytes the kernel has accepted. The
  user's callbacks act on the same state.
\<close>

section \<open>State\<close>

datatype StateE = kDisconnected | kConnecting | kConnected | kDisconnecting

text \<open>\<open>SendInLoop ptr len\<close> is \<^verbatim>\<open>std::bind(&TcpConnection::sendInLoop, this, buf.c_str(), buf.size())\<close>: it keeps
  the address of the characters, not the characters.\<close>

datatype conn_functor = WriteCompleteCallback | HighWaterMarkCallback nat | SendInLoop nat nat | ShutdownInLoop

text \<open>\<open>Accept k\<close>: the socket has room for \<open>k\<close> bytes; \<open>Refuse e\<close>: \<^verbatim>\<open>write\<close> fails with errno \<open>e\<close>.\<close>

datatype write_outcome = Accept nat | Refuse int

record ('p, 'c) TcpConnection =
  conn_state :: StateE
  conn_socket :: Socket
  channel :: Channel
  inputBuffer :: Buffer
  outputBuffer :: Buffer
  highWaterMark :: nat
  conn_context :: "'c option"
  has_writeComplete :: bool
  has_highWaterMark :: bool
  poller_state :: 'p
  pendingFunctors :: "conn_functor list"
  heap :: "nat \<Rightarrow> string option"
  write_script :: "write_outcome list"
  read_script :: "read_result list"
  so_error :: "int + int"
  sock_out :: string
  write_shut :: bool
  error_log :: "int list"

definition EAGAIN :: int where "EAGAIN = 11"
definition EWOULDBLOCK :: int where "EWOULDBLOCK = EAGAIN"
definition EPIPE :: int where "EPIPE = 32"
definition ECONNRESET :: int where "ECONNRESET = 104"

record ('p, 'c) conn_callbacks =
  connectionCallback :: "('p, 'c) TcpConnection \<Rightarrow> abort + ('p, 'c) TcpConnection"
  messageCallback :: "Timestamp \<Rightarrow> ('p, 'c) TcpConnection \<Rightarrow> abort + ('p, 'c) TcpConnection"
  conn_closeCallback :: "('p, 'c) TcpConnection \<Rightarrow> abort + ('p, 'c) TcpConnection"
  writeCompleteCallback :: "('p, 'c) TcpConnection \<Rightarrow> abort + ('p, 'c) TcpConnection"
  highWaterMarkCallback :: "nat \<Rightarrow> ('p, 'c) TcpConnection \<Rightarrow> abort + ('p, 'c) TcpConnection"

text \<open>The constructor, for a loop that is not null; \<^verbatim>\<open>SO_KEEPALIVE\<close> succeeds on an open socket.\<close>

definition new_TcpConnection :: "nat \<Rightarrow> nat \<Rightarrow> int \<Rightarrow> 'p \<Rightarrow> ('p, 'c) TcpConnection" where
  "new_TcpConnection addr loop f p =
     \<lparr>conn_state = kConnecting, conn_socket = setKeepAlive 0 True (new_Socket f), channel = new_Channel addr loop f,
      inputBuffer = new_Buffer kInitialSize, outputBuffer = new_Buffer kInitialSize,
      highWaterMark = 64 * 1024 * 1024, conn_context = None, has_writeComplete = False, has_highWaterMark = False,
      poller_state = p, pendingFunctors = [], heap = (\<lambda>_. None), write_script = [], read_script = [],
      so_error = Inr 0, sock_out = [], write_shut = False, error_log = []\<rparr>"

text \<open>The settings of the application. The functions themselves are the \<open>conn_callbacks\<close>; the connection records whether
  they are set, and the constructor leaves them empty.\<close>

definition setContext :: "'c \<Rightarrow> ('p, 'c) TcpConnection \<Rightarrow> ('p, 'c) TcpConnection" where
  "setContext x c = c\<lparr>conn_context := Some x\<rparr>"

definition setWriteCompleteCallback :: "bool \<Rightarrow> ('p, 'c) TcpConnection \<Rightarrow> ('p, 'c) TcpConnection" where
  "setWriteCompleteCallback nonempty c = c\<lparr>has_writeComplete := nonempty\<rparr>"

definition setHighWaterMarkCallback :: "bool \<Rightarrow> nat \<Rightarrow> ('p, 'c) TcpConnection \<Rightarrow> ('p, 'c) TcpConnection" where
  "setHighWaterMarkCallback nonempty mark c = c\<lparr>has_highWaterMark := nonempty, highWaterMark := mark\<rparr>"

definition conn_setTcpNoDelay :: "int \<Rightarrow> bool \<Rightarrow> ('p, 'c) TcpConnection \<Rightarrow> ('p, 'c) TcpConnection" where
  "conn_setTcpNoDelay rc on c = c\<lparr>conn_socket := setTcpNoDelay rc on (conn_socket c)\<rparr>"

section \<open>The socket\<close>

definition sock_write :: "string \<Rightarrow> ('p, 'c) TcpConnection \<Rightarrow> write_result \<times> ('p, 'c) TcpConnection" where
  "sock_write data c =
     (case write_script c of
        [] \<Rightarrow> (WriteErr EWOULDBLOCK, c)
      | Refuse e # s \<Rightarrow> (WriteErr e, c\<lparr>write_script := s\<rparr>)
      | Accept k # s \<Rightarrow> (WriteOk (min k (length data)),
                          c\<lparr>write_script := s, sock_out := sock_out c @ take k data\<rparr>))"

definition sock_readv :: "nat \<Rightarrow> ('p, 'c) TcpConnection \<Rightarrow> read_result \<times> ('p, 'c) TcpConnection" where
  "sock_readv room c =
     (case read_script c of
        [] \<Rightarrow> (ReadErr EAGAIN, c)
      | ReadErr e # s \<Rightarrow> (ReadErr e, c\<lparr>read_script := s\<rparr>)
      | ReadOk d # s \<Rightarrow> (ReadOk (take room d),
                          c\<lparr>read_script := (if length d \<le> room then s else ReadOk (drop room d) # s)\<rparr>))"

section \<open>Operations\<close>

definition on_chan :: "'p chan_fun \<Rightarrow> ('p, 'c) TcpConnection \<Rightarrow> abort + ('p, 'c) TcpConnection" where
  "on_chan f c = bind_abort (f (poller_state c) (channel c)) (\<lambda>(p', ch').
     Inr (c\<lparr>poller_state := p', channel := ch'\<rparr>))"

definition conn_queueInLoop :: "conn_functor \<Rightarrow> ('p, 'c) TcpConnection \<Rightarrow> ('p, 'c) TcpConnection" where
  "conn_queueInLoop f c = c\<lparr>pendingFunctors := pendingFunctors c @ [f]\<rparr>"

definition connected :: "('p, 'c) TcpConnection \<Rightarrow> bool" where
  "connected c \<longleftrightarrow> conn_state c = kConnected"

definition setState :: "('p, 'c) TcpConnection \<Rightarrow> StateE \<Rightarrow> ('p, 'c) TcpConnection" where
  "setState c s = c\<lparr>conn_state := s\<rparr>"

definition shutdownInLoop :: "('p, 'c) TcpConnection \<Rightarrow> ('p, 'c) TcpConnection" where
  "shutdownInLoop c = (if \<not> isWriting (channel c) then c\<lparr>write_shut := True\<rparr> else c)"

definition conn_shutdown :: "bool \<Rightarrow> ('p, 'c) TcpConnection \<Rightarrow> ('p, 'c) TcpConnection" where
  "conn_shutdown inLoop c =
     (if conn_state c = kDisconnected
      then let c1 = setState c kDisconnecting
           in if inLoop then shutdownInLoop c1 else conn_queueInLoop ShutdownInLoop c1
      else c)"

definition handleError :: "('p, 'c) TcpConnection \<Rightarrow> ('p, 'c) TcpConnection" where
  "handleError c = c\<lparr>error_log := error_log c @ [case so_error c of Inl e \<Rightarrow> e | Inr optval \<Rightarrow> optval]\<rparr>"

definition handleClose ::
  "'p Poller \<Rightarrow> ('p, 'c) conn_callbacks \<Rightarrow> ('p, 'c) TcpConnection \<Rightarrow> abort + ('p, 'c) TcpConnection" where
  "handleClose V cb c =
     bind_abort (on_chan (disableAll V) (setState c kDisconnected)) (\<lambda>c1.
     bind_abort (connectionCallback cb c1) (\<lambda>c2.
     conn_closeCallback cb c2))"

definition handleRead ::
  "'p Poller \<Rightarrow> ('p, 'c) conn_callbacks \<Rightarrow> Timestamp \<Rightarrow> ('p, 'c) TcpConnection \<Rightarrow> abort + ('p, 'c) TcpConnection" where
  "handleRead V cb receiveTime c =
     (case sock_readv (readv_room (inputBuffer c)) c of (r, c1) \<Rightarrow>
        case readFd (inputBuffer c1) r of (n, saveErrno, b) \<Rightarrow>
          let c2 = c1\<lparr>inputBuffer := b\<rparr>
          in if n > 0 then messageCallback cb receiveTime c2
             else if n = 0 then handleClose V cb c2
             else Inr (handleError c2))"

definition handleWrite :: "'p Poller \<Rightarrow> ('p, 'c) TcpConnection \<Rightarrow> abort + ('p, 'c) TcpConnection" where
  "handleWrite V c =
     (if isWriting (channel c)
      then case sock_write (fst (writeFd (outputBuffer c) (WriteOk 0))) c of (r, c1) \<Rightarrow>
        case writeFd (outputBuffer c) r of (offered, n, saveErrno) \<Rightarrow>
          if n > 0
          then let c2 = c1\<lparr>outputBuffer := retrieve (outputBuffer c1) (nat n)\<rparr>
               in if readableBytes (outputBuffer c2) = 0
                  then bind_abort (on_chan (disableWriting V) c2) (\<lambda>c3.
                    let c4 = (if has_writeComplete c3 then conn_queueInLoop WriteCompleteCallback c3 else c3)
                    in Inr (if conn_state c4 = kDisconnecting then shutdownInLoop c4 else c4))
                  else Inr c2
          else Inr c1
      else Inr c)"

text \<open>The first half of \<^verbatim>\<open>sendInLoop\<close>: the direct write, giving \<^verbatim>\<open>nwrote\<close> and \<^verbatim>\<open>faultError\<close>.\<close>

definition send_direct :: "string \<Rightarrow> ('p, 'c) TcpConnection \<Rightarrow> nat \<times> bool \<times> ('p, 'c) TcpConnection" where
  "send_direct data c =
     (if \<not> isWriting (channel c) \<and> readableBytes (outputBuffer c) = 0
      then case sock_write data c of
             (WriteOk n, c1) \<Rightarrow>
               (n, False, if length data - n = 0 \<and> has_writeComplete c1
                          then conn_queueInLoop WriteCompleteCallback c1 else c1)
           | (WriteErr e, c1) \<Rightarrow> (0, e \<noteq> EWOULDBLOCK \<and> (e = EPIPE \<or> e = ECONNRESET), c1)
      else (0, False, c))"

definition sendInLoop ::
  "'p Poller \<Rightarrow> string \<Rightarrow> ('p, 'c) TcpConnection \<Rightarrow> abort + ('p, 'c) TcpConnection" where
  "sendInLoop V data c =
     (if conn_state c = kDisconnected then Inr c
      else case send_direct data c of (nwrote, faultError, c1) \<Rightarrow>
        let remaining = length data - nwrote
        in if \<not> faultError \<and> remaining > 0
           then let oldLen = readableBytes (outputBuffer c1);
                    c2 = (if oldLen + remaining \<ge> highWaterMark c1 \<and> oldLen < highWaterMark c1 \<and> has_highWaterMark c1
                          then conn_queueInLoop (HighWaterMarkCallback (oldLen + remaining)) c1 else c1);
                    c3 = c2\<lparr>outputBuffer := append_buf (outputBuffer c2) (drop nwrote data)\<rparr>
                in if \<not> isWriting (channel c3) then on_chan (enableWriting V) c3 else Inr c3
           else Inr c1)"

text \<open>\<open>ptr\<close> is the address of the characters of the argument, \<open>buf\<close> the characters now.\<close>

definition send ::
  "'p Poller \<Rightarrow> bool \<Rightarrow> nat \<Rightarrow> string \<Rightarrow> ('p, 'c) TcpConnection \<Rightarrow> abort + ('p, 'c) TcpConnection" where
  "send V inLoop ptr buf c =
     (if conn_state c = kConnected
      then if inLoop then sendInLoop V buf c
           else Inr (conn_queueInLoop (SendInLoop ptr (length buf)) c)
      else Inr c)"

definition connectEstablished ::
  "'p Poller \<Rightarrow> ('p, 'c) conn_callbacks \<Rightarrow> ('p, 'c) TcpConnection \<Rightarrow> abort + ('p, 'c) TcpConnection" where
  "connectEstablished V cb c =
     (let c1 = setState c kConnected; c2 = c1\<lparr>channel := tie (channel c1)\<rparr>
      in bind_abort (on_chan (enableReading V) c2) (connectionCallback cb))"

definition connectDestroyed ::
  "'p Poller \<Rightarrow> ('p, 'c) conn_callbacks \<Rightarrow> ('p, 'c) TcpConnection \<Rightarrow> abort + ('p, 'c) TcpConnection" where
  "connectDestroyed V cb c =
     bind_abort
       (if conn_state c = kConnected
        then bind_abort (on_chan (disableAll V) (setState c kDisconnected)) (connectionCallback cb)
        else Inr c)
       (on_chan (chan_remove V))"

text \<open>A queued functor, run by the loop; characters are read from memory when the functor runs.\<close>

fun run_functor ::
  "'p Poller \<Rightarrow> ('p, 'c) conn_callbacks \<Rightarrow> conn_functor \<Rightarrow> ('p, 'c) TcpConnection \<Rightarrow> abort + ('p, 'c) TcpConnection" where
  "run_functor V cb WriteCompleteCallback c = writeCompleteCallback cb c"
| "run_functor V cb (HighWaterMarkCallback n) c = highWaterMarkCallback cb n c"
| "run_functor V cb (SendInLoop ptr len) c =
     (case heap c ptr of
        None \<Rightarrow> Inl Bad_access
      | Some s \<Rightarrow> if len \<le> length s then sendInLoop V (take len s) c else Inl Bad_access)"
| "run_functor V cb ShutdownInLoop c = Inr (shutdownInLoop c)"

text \<open>\<^verbatim>\<open>doPendingFunctors\<close> of the loop, for the functors of this connection.\<close>

fun run_functors ::
  "'p Poller \<Rightarrow> ('p, 'c) conn_callbacks \<Rightarrow> conn_functor list \<Rightarrow> ('p, 'c) TcpConnection \<Rightarrow> abort + ('p, 'c) TcpConnection" where
  "run_functors V cb [] c = Inr c"
| "run_functors V cb (f # fs) c = bind_abort (run_functor V cb f c) (run_functors V cb fs)"

definition conn_doPendingFunctors ::
  "'p Poller \<Rightarrow> ('p, 'c) conn_callbacks \<Rightarrow> ('p, 'c) TcpConnection \<Rightarrow> abort + ('p, 'c) TcpConnection" where
  "conn_doPendingFunctors V cb c = run_functors V cb (pendingFunctors c) (c\<lparr>pendingFunctors := []\<rparr>)"

text \<open>The callbacks the constructor installs in the channel, and the channel's event dispatch.\<close>

definition conn_channel_callbacks ::
  "'p Poller \<Rightarrow> ('p, 'c) conn_callbacks \<Rightarrow> ('p, 'c) TcpConnection ChannelCallbacks" where
  "conn_channel_callbacks V cb =
     \<lparr>readCallback = Some (handleRead V cb), writeCallback = Some (handleWrite V),
      closeCallback = Some (handleClose V cb), errorCallback = Some (\<lambda>c. Inr (handleError c))\<rparr>"

definition conn_handleEvent ::
  "'p Poller \<Rightarrow> ('p, 'c) conn_callbacks \<Rightarrow> bool \<Rightarrow> Timestamp \<Rightarrow> ('p, 'c) TcpConnection \<Rightarrow> abort + ('p, 'c) TcpConnection" where
  "conn_handleEvent V cb alive t c =
     handleEvent channel (\<lambda>f c. c\<lparr>channel := f (channel c)\<rparr>) (conn_channel_callbacks V cb) alive t c"

section \<open>The connection invariant\<close>

text \<open>The channel is consistently registered, the buffers are well-formed, and the write event is
  enabled exactly while output is waiting (when the connection is up).\<close>

definition conn_inv :: "('p \<Rightarrow> Channel \<Rightarrow> bool) \<Rightarrow> ('p, 'c) TcpConnection \<Rightarrow> bool" where
  "conn_inv ok c \<longleftrightarrow> ok (poller_state c) (channel c) \<and> buffer_inv (inputBuffer c) \<and> buffer_inv (outputBuffer c)
     \<and> (isWriting (channel c) \<longrightarrow> readable (outputBuffer c) \<noteq> [])
     \<and> (conn_state c = kConnected \<longrightarrow> readable (outputBuffer c) \<noteq> [] \<longrightarrow> isWriting (channel c))"

text \<open>Everything accepted for sending so far: what the socket took, then what waits in the buffer.\<close>

definition conn_stream :: "('p, 'c) TcpConnection \<Rightarrow> string" where
  "conn_stream c = sock_out c @ readable (outputBuffer c)"

definition peer_gone :: "write_outcome list \<Rightarrow> bool" where
  "peer_gone s \<longleftrightarrow> Refuse EPIPE \<in> set s \<or> Refuse ECONNRESET \<in> set s"

lemma conn_inv_frame [simp]:
  "conn_inv ok (c\<lparr>read_script := rs\<rparr>) = conn_inv ok c"
  "conn_inv ok (c\<lparr>conn_context := x\<rparr>) = conn_inv ok c"
  "buffer_inv b \<Longrightarrow> conn_inv ok c \<Longrightarrow> conn_inv ok (c\<lparr>inputBuffer := b\<rparr>)"
  by (simp_all add: conn_inv_def)

text \<open>The settings may change at any time.\<close>

lemma settings_inv [simp]:
  "conn_inv ok (setContext x c) = conn_inv ok c" "conn_inv ok (setWriteCompleteCallback b c) = conn_inv ok c"
  "conn_inv ok (setHighWaterMarkCallback b m c) = conn_inv ok c" "conn_inv ok (conn_setTcpNoDelay rc on c) = conn_inv ok c"
  by (simp_all add: conn_inv_def setContext_def setWriteCompleteCallback_def setHighWaterMarkCallback_def conn_setTcpNoDelay_def)

text \<open>What an operation of the connection never changes in its channel.\<close>

definition chan_keeps :: "Channel \<Rightarrow> Channel \<Rightarrow> bool" where
  "chan_keeps ch ch' \<longleftrightarrow> (index ch \<noteq> kNew \<longrightarrow> index ch' \<noteq> kNew) \<and> eventHandling ch' = eventHandling ch"

lemma chan_keeps_refl [simp]: "chan_keeps ch ch"
  by (simp add: chan_keeps_def)

lemma chan_keeps_trans [trans]: "chan_keeps a b \<Longrightarrow> chan_keeps b c \<Longrightarrow> chan_keeps a c"
  by (simp add: chan_keeps_def)

lemma sock_write_cases:
  obtains (ok) k c1 where "sock_write data c = (WriteOk (min k (length data)), c1)" "Accept k \<in> set (write_script c)"
      "c1 = c\<lparr>write_script := tl (write_script c), sock_out := sock_out c @ take k data\<rparr>"
  | (err) e c1 where "sock_write data c = (WriteErr e, c1)" "e = EWOULDBLOCK \<or> Refuse e \<in> set (write_script c)"
      "c1 = c\<lparr>write_script := tl (write_script c)\<rparr>"
proof (cases "write_script c")
  case Nil
  then show ?thesis by (intro err [of EWOULDBLOCK c]) (simp_all add: sock_write_def)
next
  case (Cons x s)
  then show ?thesis by (cases x) (auto simp: sock_write_def intro: ok err)
qed

lemma set_tl_subset: "set (tl xs) \<subseteq> set xs"
  by (cases xs) auto

lemma empty_output [simp]: "buffer_inv b \<Longrightarrow> readableBytes b = 0 \<longleftrightarrow> readable b = []"
  by (metis length_0_conv length_readable)

lemma send_direct_spec:
  assumes "send_direct data c = (n, f, c1)" "conn_inv ok c"
  shows "n \<le> length data \<and> conn_inv ok c1 \<and> conn_state c1 = conn_state c \<and> channel c1 = channel c
    \<and> outputBuffer c1 = outputBuffer c \<and> sock_out c1 = sock_out c @ take n data
    \<and> (n > 0 \<longrightarrow> readable (outputBuffer c) = [])
    \<and> (f \<longrightarrow> n = 0 \<and> peer_gone (write_script c)) \<and> set (write_script c1) \<subseteq> set (write_script c)"
proof (cases "\<not> isWriting (channel c) \<and> readableBytes (outputBuffer c) = 0")
  case True
  then have e: "readable (outputBuffer c) = []" using assms(2) by (simp add: conn_inv_def)
  show ?thesis
  proof (cases rule: sock_write_cases [of data c])
    case (ok k c')
    then show ?thesis using assms True e set_tl_subset [of "write_script c"]
      by (auto simp: send_direct_def conn_queueInLoop_def conn_inv_def min_def split: if_splits)
  next
    case (err e c')
    then show ?thesis using assms True set_tl_subset [of "write_script c"]
      by (auto simp: send_direct_def conn_inv_def peer_gone_def)
  qed
qed (use assms in \<open>auto simp: send_direct_def\<close>)

context poller
begin

lemma on_chan_step:
  assumes "ok (poller_state c) (channel c)"
  shows "case on_chan (chan_step V x) c of Inl a \<Rightarrow> refused V ok a
    | Inr c' \<Rightarrow> \<exists>p ch. c' = c\<lparr>poller_state := p, channel := ch\<rparr> \<and> ok p ch \<and> index ch \<noteq> kNew
        \<and> events ch = new_events x (events (channel c)) \<and> chan_keeps (channel c) ch"
proof (cases "chan_step V x (poller_state c) (channel c)")
  case (Inl a)
  moreover have "ok (poller_state c) ((channel c)\<lparr>events := new_events x (events (channel c)), addedToLoop := True\<rparr>)"
    using assms by (rule ok_request)
  ultimately show ?thesis unfolding chan_step_eq by (auto simp: on_chan_def refused_def chan_step_eq)
next
  case (Inr r)
  obtain p ch where r: "r = (p, ch)" by force
  note st = step_ok [OF assms Inr [unfolded r]]
  have ev: "events ch = new_events x (events (channel c))"
    by (subst st [THEN conjunct2, THEN conjunct2, THEN conjunct2], simp)
  have "eventHandling ch = eventHandling (channel c)"
    by (subst st [THEN conjunct2, THEN conjunct2, THEN conjunct2], simp)
  with st have "ok p ch \<and> index ch \<noteq> kNew \<and> chan_keeps (channel c) ch" unfolding chan_keeps_def by blast
  with ev show ?thesis by (auto simp: on_chan_def Inr r)
qed

lemma sendInLoop_spec:
  assumes "conn_inv ok c" "conn_state c \<noteq> kDisconnected"
  shows "case sendInLoop V data c of Inl a \<Rightarrow> refused V ok a
    | Inr c' \<Rightarrow> conn_inv ok c' \<and> conn_state c' = conn_state c \<and> set (write_script c') \<subseteq> set (write_script c)
        \<and> (conn_stream c' = conn_stream c @ data
           \<or> conn_stream c' = conn_stream c \<and> peer_gone (write_script c))
        \<and> chan_keeps (channel c) (channel c')"
proof -
  obtain n f c1 where d: "send_direct data c = (n, f, c1)" by (metis prod_cases3)
  note sd = send_direct_spec [OF d assms(1)]
  have b1: "buffer_inv (outputBuffer c1)" using sd unfolding conn_inv_def by blast
  have inv1: "ok (poller_state c1) (channel c1)" "buffer_inv (inputBuffer c1)"
    using sd unfolding conn_inv_def by blast+
  show ?thesis
  proof (cases "\<not> f \<and> length data - n > 0")
    case False
    then have "sendInLoop V data c = Inr c1" using assms(2) d by (auto simp: sendInLoop_def)
    moreover have "conn_stream c1 = conn_stream c @ data \<or> conn_stream c1 = conn_stream c \<and> peer_gone (write_script c)"
      using False sd by (cases "n > 0") (auto simp: conn_stream_def)
    ultimately show ?thesis using sd by simp
  next
    case True
    define c2 where "c2 = (if readableBytes (outputBuffer c1) + (length data - n) \<ge> highWaterMark c1
        \<and> readableBytes (outputBuffer c1) < highWaterMark c1 \<and> has_highWaterMark c1
      then conn_queueInLoop (HighWaterMarkCallback (readableBytes (outputBuffer c1) + (length data - n))) c1 else c1)"
    define c3 where "c3 = c2\<lparr>outputBuffer := append_buf (outputBuffer c2) (drop n data)\<rparr>"
    have eq: "sendInLoop V data c = (if \<not> isWriting (channel c3) then on_chan (enableWriting V) c3 else Inr c3)"
      using True assms(2) d by (simp add: sendInLoop_def Let_def c2_def c3_def)
    have c2: "outputBuffer c2 = outputBuffer c1" "channel c2 = channel c1" "conn_state c2 = conn_state c1"
      "poller_state c2 = poller_state c1" "inputBuffer c2 = inputBuffer c1" "write_script c2 = write_script c1"
      "sock_out c2 = sock_out c1"
      by (simp_all add: c2_def conn_queueInLoop_def)
    have out3: "readable (outputBuffer c3) = readable (outputBuffer c) @ drop n data" "buffer_inv (outputBuffer c3)"
      using b1 by (simp_all add: c3_def c2 buf_simps sd)
    have str: "conn_stream c3 = conn_stream c @ data" using sd by (cases "n > 0") (simp_all add: conn_stream_def out3, simp_all add: c3_def c2)
    have ne: "readable (outputBuffer c3) \<noteq> []" using True out3 by simp
    have base: "ok (poller_state c3) (channel c3)" "buffer_inv (inputBuffer c3)" "conn_state c3 = conn_state c"
        "set (write_script c3) \<subseteq> set (write_script c)" "channel c3 = channel c"
      using inv1 sd [THEN conjunct2, THEN conjunct2] by (auto simp: c3_def c2)
    show ?thesis
    proof (cases "isWriting (channel c3)")
      case w: True
      then show ?thesis using eq base out3 ne str by (simp add: conn_inv_def)
    next
      case w: False
      then show ?thesis using on_chan_step [OF base(1), of EnableWriting] base out3 ne str unfolding eq
        by (auto simp: conn_inv_def conn_stream_def isWriting_def split: sum.splits)
    qed
  qed
qed

lemma handleWrite_spec:
  assumes "conn_inv ok c"
  shows "case handleWrite V c of Inl a \<Rightarrow> refused V ok a
    | Inr c' \<Rightarrow> conn_inv ok c' \<and> conn_state c' = conn_state c \<and> set (write_script c') \<subseteq> set (write_script c)
        \<and> conn_stream c' = conn_stream c \<and> chan_keeps (channel c) (channel c')"
proof (cases "isWriting (channel c)")
  case False
  then show ?thesis using assms by (simp add: handleWrite_def)
next
  case True
  have inv: "buffer_inv (outputBuffer c)" using assms by (simp add: conn_inv_def)
  let ?out = "readable (outputBuffer c)"
  show ?thesis
  proof (cases rule: sock_write_cases [of ?out c])
    case (err e c1)
    then have "handleWrite V c = Inr c1" using True by (simp add: handleWrite_def writeFd_offers, simp add: writeFd_def)
    then show ?thesis using assms err set_tl_subset [of "write_script c"] by (simp add: conn_inv_def conn_stream_def)
  next
    case (ok k c1)
    let ?n = "min k (length ?out)"
    define c2 where "c2 = c1\<lparr>outputBuffer := retrieve (outputBuffer c) ?n\<rparr>"
    have inv2: "buffer_inv (outputBuffer c2)" using inv by (simp add: c2_def)
    have rd: "readable (outputBuffer c2) = drop k ?out" using inv by (simp add: c2_def buf_simps min_def)
    have str: "conn_stream c2 = conn_stream c" unfolding conn_stream_def rd using ok(3) by (simp add: c2_def)
    have base: "ok (poller_state c2) (channel c2)" "buffer_inv (inputBuffer c2)" "conn_state c2 = conn_state c"
        "set (write_script c2) \<subseteq> set (write_script c)" "channel c2 = channel c"
      using assms ok(3) set_tl_subset [of "write_script c"] by (simp_all add: conn_inv_def c2_def)
    have eq: "handleWrite V c = (if ?n > 0
        then (if readableBytes (outputBuffer c2) = 0
              then bind_abort (on_chan (disableWriting V) c2) (\<lambda>c3.
                let c4 = (if has_writeComplete c3 then conn_queueInLoop WriteCompleteCallback c3 else c3)
                in Inr (if conn_state c4 = kDisconnecting then shutdownInLoop c4 else c4))
              else Inr c2) else Inr c1)"
      using True ok(1,3) by (simp add: handleWrite_def writeFd_offers c2_def, simp add: writeFd_def Let_def)
    consider (none) "?n = 0" | (part) "?n > 0" "readable (outputBuffer c2) \<noteq> []"
      | (all) "?n > 0" "readable (outputBuffer c2) = []" by blast
    then show ?thesis
    proof cases
      case none
      then have "take k ?out = []" by (cases "k = 0") (simp_all add: min_def split: if_splits)
      with none ok(3) have "handleWrite V c = Inr (c\<lparr>write_script := tl (write_script c)\<rparr>)" unfolding eq by simp
      then show ?thesis using assms set_tl_subset [of "write_script c"] by (simp add: conn_inv_def conn_stream_def)
    next
      case part
      then have "handleWrite V c = Inr c2" unfolding eq using inv2 by simp
      then show ?thesis using part base inv2 str True by (simp add: conn_inv_def)
    next
      case all
      then have "handleWrite V c = bind_abort (on_chan (disableWriting V) c2) (\<lambda>c3.
          let c4 = (if has_writeComplete c3 then conn_queueInLoop WriteCompleteCallback c3 else c3)
          in Inr (if conn_state c4 = kDisconnecting then shutdownInLoop c4 else c4))"
        unfolding eq using inv2 by simp
      then show ?thesis using on_chan_step [OF base(1), of DisableWriting] base inv2 str all(2)
        by (auto simp: conn_inv_def conn_stream_def isWriting_def conn_queueInLoop_def shutdownInLoop_def Let_def
            split: sum.splits)
    qed
  qed
qed

end

section \<open>Sequences of sends and writable events\<close>

datatype conn_event = SendMsg string | WritableEvent

fun conn_step :: "'p Poller \<Rightarrow> conn_event \<Rightarrow> ('p, 'c) TcpConnection \<Rightarrow> abort + ('p, 'c) TcpConnection" where
  "conn_step V (SendMsg s) c = send V True 0 s c"
| "conn_step V WritableEvent c = handleWrite V c"

fun conn_run :: "'p Poller \<Rightarrow> conn_event list \<Rightarrow> ('p, 'c) TcpConnection \<Rightarrow> abort + ('p, 'c) TcpConnection" where
  "conn_run V [] c = Inr c"
| "conn_run V (e # es) c = bind_abort (conn_step V e c) (conn_run V es)"

fun sent :: "conn_event list \<Rightarrow> string list" where
  "sent [] = []"
| "sent (SendMsg s # es) = s # sent es"
| "sent (WritableEvent # es) = sent es"

lemma peer_gone_mono: "peer_gone s \<Longrightarrow> set s \<subseteq> set t \<Longrightarrow> peer_gone t"
  by (auto simp: peer_gone_def)

context poller
begin

lemma conn_run_spec:
  assumes "conn_inv ok c" "conn_state c = kConnected"
  shows "case conn_run V es c of Inl a \<Rightarrow> refused V ok a
    | Inr c' \<Rightarrow> conn_inv ok c' \<and> conn_state c' = kConnected \<and> chan_keeps (channel c) (channel c')
        \<and> (\<exists>ms. subseq ms (sent es) \<and> conn_stream c' = conn_stream c @ concat ms
             \<and> (\<not> peer_gone (write_script c) \<longrightarrow> ms = sent es))"
  using assms
proof (induction es arbitrary: c)
  case Nil
  then show ?case by (auto intro: exI [of _ "[]"])
next
  case (Cons e es)
  show ?case
  proof (cases "conn_step V e c")
    case (Inl a)
    then have "refused V ok a"
    proof (cases e)
      case (SendMsg s)
      then show ?thesis using Inl sendInLoop_spec [OF Cons.prems(1), of s] Cons.prems(2) by (simp add: send_def)
    next
      case WritableEvent
      then show ?thesis using Inl handleWrite_spec [OF Cons.prems(1)] by simp
    qed
    then show ?thesis using Inl by simp
  next
    case (Inr c1)
    obtain ms1 where c1: "conn_inv ok c1" "conn_state c1 = kConnected" "chan_keeps (channel c) (channel c1)"
        "set (write_script c1) \<subseteq> set (write_script c)" "conn_stream c1 = conn_stream c @ concat ms1"
        "subseq ms1 (sent [e])" "\<not> peer_gone (write_script c) \<longrightarrow> ms1 = sent [e]"
    proof (cases e)
      case (SendMsg s)
      then show thesis using Inr Cons.prems sendInLoop_spec [OF Cons.prems(1), of s] that [of "[s]"] that [of "[]"]
        by (auto simp: send_def)
    next
      case WritableEvent
      then show thesis using Inr Cons.prems handleWrite_spec [OF Cons.prems(1)] that [of "[]"] by auto
    qed
    have split: "sent (e # es) = sent [e] @ sent es" by (cases e) simp_all
    show ?thesis
    proof (cases "conn_run V es c1")
      case (Inr c')
      with Cons.IH [OF c1(1,2)] obtain ms2 where c': "conn_inv ok c'" "conn_state c' = kConnected"
          "chan_keeps (channel c1) (channel c')" "subseq ms2 (sent es)" "conn_stream c' = conn_stream c1 @ concat ms2"
          "\<not> peer_gone (write_script c1) \<longrightarrow> ms2 = sent es" by auto
      have "subseq (ms1 @ ms2) (sent (e # es))" unfolding split using c1(6) c'(4) by (rule list_emb_append_mono)
      moreover have "\<not> peer_gone (write_script c) \<longrightarrow> ms1 @ ms2 = sent (e # es)"
        unfolding split using c1(4,7) c'(6) peer_gone_mono by blast
      moreover have "conn_stream c' = conn_stream c @ concat (ms1 @ ms2)" using c1(5) c'(5) by simp
      ultimately have "\<exists>ms. subseq ms (sent (e # es)) \<and> conn_stream c' = conn_stream c @ concat ms
          \<and> (\<not> peer_gone (write_script c) \<longrightarrow> ms = sent (e # es))"
        by blast
      moreover have "chan_keeps (channel c) (channel c')" using c1(3) c'(3) by (rule chan_keeps_trans)
      ultimately show ?thesis using c'(1,2) \<open>conn_step V e c = Inr c1\<close> Inr
        by (simp only: conn_run.simps bind_abort_simps sum.case simp_thms)
    qed (use Cons.IH [OF c1(1,2)] \<open>conn_step V e c = Inr c1\<close> in auto)
  qed
qed

end

context reliable_poller
begin

lemma not_refused: "\<not> refused V ok a"
  using upd_progress by (fastforce simp: refused_def)

lemma handleWrite_accept:
  assumes "conn_inv ok c" "isWriting (channel c)" "write_script c = Accept k # s" "0 < k"
  shows "\<exists>c'. handleWrite V c = Inr c' \<and> conn_inv ok c' \<and> write_script c' = s
    \<and> sock_out c' = sock_out c @ take k (readable (outputBuffer c))
    \<and> readable (outputBuffer c') = drop k (readable (outputBuffer c))
    \<and> has_writeComplete c' = has_writeComplete c \<and> conn_state c' = conn_state c
    \<and> (if length (readable (outputBuffer c)) \<le> k
       then \<not> isWriting (channel c') \<and> (has_writeComplete c \<longrightarrow> WriteCompleteCallback \<in> set (pendingFunctors c'))
         \<and> (conn_state c = kDisconnecting \<longrightarrow> write_shut c')
       else isWriting (channel c'))"
proof -
  let ?out = "readable (outputBuffer c)"
  have inv: "buffer_inv (outputBuffer c)" and ne: "?out \<noteq> []" using assms(1,2) by (auto simp: conn_inv_def)
  define c2 where "c2 = c\<lparr>write_script := s, sock_out := sock_out c @ take k ?out,
      outputBuffer := retrieve (outputBuffer c) (min k (length ?out))\<rparr>"
  have rd: "readable (outputBuffer c2) = drop k ?out" using inv by (simp add: c2_def buf_simps min_def)
  have eq: "handleWrite V c = (if readableBytes (outputBuffer c2) = 0
      then bind_abort (on_chan (disableWriting V) c2) (\<lambda>c3.
        let c4 = (if has_writeComplete c3 then conn_queueInLoop WriteCompleteCallback c3 else c3)
        in Inr (if conn_state c4 = kDisconnecting then shutdownInLoop c4 else c4))
      else Inr c2)"
    using assms(2-4) ne
    by (simp add: handleWrite_def writeFd_offers sock_write_def c2_def, simp add: writeFd_def Let_def)
  have inv2: "buffer_inv (outputBuffer c2)" "ok (poller_state c2) (channel c2)" "channel c2 = channel c"
    using inv assms(1) by (simp_all add: c2_def conn_inv_def)
  from inv2(1) have len: "readableBytes (outputBuffer c2) = 0 \<longleftrightarrow> length ?out \<le> k" using rd by simp
  show ?thesis
  proof (cases "length ?out \<le> k")
    case False
    then have "handleWrite V c = Inr c2" using eq len by simp
    moreover have "conn_inv ok c2" using False rd inv2 assms(1,2) by (simp add: conn_inv_def, simp add: c2_def)
    ultimately show ?thesis using False rd inv2(3) assms(2) by (auto simp: c2_def)
  next
    case True
    have none: "drop k ?out = []" using True by simp
    obtain p ch where w: "on_chan (disableWriting V) c2 = Inr (c2\<lparr>poller_state := p, channel := ch\<rparr>)" "ok p ch"
        "events ch = new_events DisableWriting (events (channel c2))"
      using on_chan_step [OF inv2(2), of DisableWriting] not_refused by (auto split: sum.splits)
    define c3 where "c3 = c2\<lparr>poller_state := p, channel := ch\<rparr>"
    have nw: "\<not> isWriting ch" using w(3) by (simp add: isWriting_def)
    define c4 where "c4 = (if has_writeComplete c3 then conn_queueInLoop WriteCompleteCallback c3 else c3)"
    have h: "handleWrite V c = Inr (if conn_state c4 = kDisconnecting then shutdownInLoop c4 else c4)"
      using eq len True w(1) by (simp add: Let_def c3_def c4_def)
    have sel: "channel c4 = ch" "poller_state c4 = p" "outputBuffer c4 = outputBuffer c2" "sock_out c4 = sock_out c2"
      "write_script c4 = s" "inputBuffer c4 = inputBuffer c" "conn_state c4 = conn_state c"
      "has_writeComplete c4 = has_writeComplete c"
      "has_writeComplete c \<longrightarrow> WriteCompleteCallback \<in> set (pendingFunctors c4)"
      by (simp_all add: c4_def c3_def c2_def conn_queueInLoop_def)
    have out: "sock_out c2 = sock_out c @ take k ?out" by (simp add: c2_def)
    have "buffer_inv (inputBuffer c)" using assms(1) by (simp add: conn_inv_def)
    then show ?thesis unfolding h using True none rd inv2(1) sel nw w(2) out
      by (auto simp: shutdownInLoop_def conn_inv_def)
  qed
qed

lemma not_writing_run: "\<not> isWriting (channel c) \<Longrightarrow> conn_run V (replicate n WritableEvent) c = Inr c"
  by (induction n) (simp_all add: handleWrite_def)

lemma drain:
  assumes "conn_inv ok c" "isWriting (channel c)" "write_script c = map Accept ks @ rest" "\<forall>k \<in> set ks. 0 < k"
    "length (readable (outputBuffer c)) \<le> length ks" "length (readable (outputBuffer c)) \<le> n"
  shows "\<exists>c'. conn_run V (replicate n WritableEvent) c = Inr c' \<and> readable (outputBuffer c') = []
    \<and> sock_out c' = conn_stream c \<and> \<not> isWriting (channel c')
    \<and> (has_writeComplete c \<longrightarrow> WriteCompleteCallback \<in> set (pendingFunctors c'))
    \<and> (conn_state c = kDisconnecting \<longrightarrow> write_shut c')"
  using assms
proof (induction n arbitrary: c ks)
  case 0
  then show ?case by (auto simp: conn_inv_def)
next
  case (Suc n)
  let ?out = "readable (outputBuffer c)"
  have ne: "?out \<noteq> []" using Suc.prems(1,2) by (auto simp: conn_inv_def)
  then obtain k ks' where ks: "ks = k # ks'" using Suc.prems(5) by (cases ks) auto
  then have "write_script c = Accept k # map Accept ks' @ rest" "0 < k" using Suc.prems(3,4) by auto
  from handleWrite_accept [OF Suc.prems(1,2) this] obtain c1 where c1:
      "handleWrite V c = Inr c1" "conn_inv ok c1" "write_script c1 = map Accept ks' @ rest"
      "sock_out c1 = sock_out c @ take k ?out" "readable (outputBuffer c1) = drop k ?out"
      "has_writeComplete c1 = has_writeComplete c" "conn_state c1 = conn_state c"
      "if length ?out \<le> k then \<not> isWriting (channel c1)
         \<and> (has_writeComplete c \<longrightarrow> WriteCompleteCallback \<in> set (pendingFunctors c1))
         \<and> (conn_state c = kDisconnecting \<longrightarrow> write_shut c1) else isWriting (channel c1)"
    by blast
  show ?case
  proof (cases "length ?out \<le> k")
    case True
    then show ?thesis using c1 not_writing_run [of c1 n] by (simp add: conn_stream_def)
  next
    case False
    then have w: "isWriting (channel c1)" using c1(8) by simp
    have l: "length (readable (outputBuffer c1)) \<le> length ks'" "length (readable (outputBuffer c1)) \<le> n"
      using Suc.prems(5,6) ks c1(5) \<open>0 < k\<close> by auto
    have "\<forall>k \<in> set ks'. 0 < k" using Suc.prems(4) ks by simp
    from Suc.IH [OF c1(2) w c1(3) this l] c1 show ?thesis by (auto simp: conn_stream_def)
  qed
qed

end

section \<open>The life of a connection\<close>

text \<open>User callbacks that leave the channel, the poller and the buffers alone and neither connect nor
  disconnect.\<close>

definition quiet :: "(('p, 'c) TcpConnection \<Rightarrow> abort + ('p, 'c) TcpConnection) \<Rightarrow> bool" where
  "quiet f \<longleftrightarrow> (\<forall>c. \<exists>c'. f c = Inr c' \<and> channel c' = channel c \<and> poller_state c' = poller_state c
     \<and> inputBuffer c' = inputBuffer c \<and> outputBuffer c' = outputBuffer c
     \<and> (conn_state c' = kConnected \<longleftrightarrow> conn_state c = kConnected))"

lemma quietE:
  assumes "quiet f"
  obtains c' where "f c = Inr c'" "channel c' = channel c" "poller_state c' = poller_state c"
    "inputBuffer c' = inputBuffer c" "outputBuffer c' = outputBuffer c"
    "conn_state c' = kConnected \<longleftrightarrow> conn_state c = kConnected"
  using assms unfolding quiet_def by blast

text \<open>A connection that may be destroyed: up, or with all its events disabled.\<close>

definition closable :: "('p \<Rightarrow> Channel \<Rightarrow> bool) \<Rightarrow> ('p, 'c) TcpConnection \<Rightarrow> bool" where
  "closable ok c \<longleftrightarrow> ok (poller_state c) (channel c) \<and> index (channel c) \<noteq> kNew \<and> \<not> eventHandling (channel c)
     \<and> (conn_state c = kConnected \<or> isNoneEvent (channel c))"

context poller
begin

lemma connectEstablished_spec:
  assumes "ok (poller_state c) (channel c)" "buffer_inv (inputBuffer c)" "buffer_inv (outputBuffer c)"
    "readable (outputBuffer c) = []" "events (channel c) = 0" "quiet (connectionCallback cb)"
  shows "case connectEstablished V cb c of Inl a \<Rightarrow> refused V ok a
    | Inr c' \<Rightarrow> conn_inv ok c' \<and> conn_state c' = kConnected \<and> index (channel c') \<noteq> kNew
        \<and> eventHandling (channel c') = eventHandling (channel c) \<and> isReading (channel c')"
proof -
  define c2 where "c2 = (setState c kConnected)\<lparr>channel := tie (channel c)\<rparr>"
  have eq: "connectEstablished V cb c = bind_abort (on_chan (enableReading V) c2) (connectionCallback cb)"
    by (simp add: connectEstablished_def c2_def setState_def Let_def)
  have ok2: "ok (poller_state c2) (channel c2)"
    using ok_other [OF assms(1), of True "eventHandling (channel c)" "revents (channel c)"]
    by (simp add: c2_def setState_def tie_def)
  show ?thesis
  proof (cases "on_chan (enableReading V) c2")
    case (Inl a)
    then show ?thesis using on_chan_step [OF ok2, of EnableReading] eq by simp
  next
    case (Inr c3)
    then obtain p ch where c3: "c3 = c2\<lparr>poller_state := p, channel := ch\<rparr>" "ok p ch" "index ch \<noteq> kNew"
        "events ch = new_events EnableReading (events (channel c2))" "chan_keeps (channel c2) ch"
      using on_chan_step [OF ok2, of EnableReading] by auto
    obtain c4 where c4: "connectionCallback cb c3 = Inr c4" "channel c4 = channel c3" "poller_state c4 = poller_state c3"
        "inputBuffer c4 = inputBuffer c3" "outputBuffer c4 = outputBuffer c3"
        "conn_state c4 = kConnected \<longleftrightarrow> conn_state c3 = kConnected"
      using quietE [OF assms(6), of c3] by blast
    have ev: "events (channel c2) = 0" using assms(5) by (simp add: c2_def tie_def)
    have sel: "channel c3 = ch" "poller_state c3 = p" "inputBuffer c3 = inputBuffer c" "outputBuffer c3 = outputBuffer c"
        "conn_state c3 = kConnected" "eventHandling ch = eventHandling (channel c)"
      using c3(5) by (simp_all add: c3(1) c2_def setState_def chan_keeps_def tie_def)
    have "\<not> isWriting ch" "isReading ch" using c3(4) ev by (simp_all add: isWriting_def isReading_def event_masks)
    then show ?thesis using eq Inr c4 sel c3(2,3) assms(2-4) by (simp add: conn_inv_def)
  qed
qed

lemma handleClose_closable:
  assumes "ok (poller_state c) (channel c)" "\<not> eventHandling (channel c)"
    "quiet (connectionCallback cb)" "quiet (conn_closeCallback cb)"
  shows "case handleClose V cb c of Inl a \<Rightarrow> refused V ok a
    | Inr c' \<Rightarrow> closable ok c' \<and> conn_state c' \<noteq> kConnected \<and> isNoneEvent (channel c')"
proof -
  let ?c0 = "setState c kDisconnected"
  have ok0: "ok (poller_state ?c0) (channel ?c0)" using assms(1) by (simp add: setState_def)
  show ?thesis
  proof (cases "on_chan (disableAll V) ?c0")
    case (Inl a)
    then show ?thesis using on_chan_step [OF ok0, of DisableAll] by (simp add: handleClose_def)
  next
    case (Inr c1)
    then obtain p ch where c1: "c1 = ?c0\<lparr>poller_state := p, channel := ch\<rparr>" "ok p ch" "index ch \<noteq> kNew"
        "events ch = kNoneEvent" "chan_keeps (channel ?c0) ch"
      using on_chan_step [OF ok0, of DisableAll] by auto
    obtain c2 where c2: "connectionCallback cb c1 = Inr c2" "channel c2 = channel c1" "poller_state c2 = poller_state c1"
        "conn_state c2 = kConnected \<longleftrightarrow> conn_state c1 = kConnected"
      using quietE [OF assms(3), of c1] by blast
    obtain c3 where c3: "conn_closeCallback cb c2 = Inr c3" "channel c3 = channel c2" "poller_state c3 = poller_state c2"
        "conn_state c3 = kConnected \<longleftrightarrow> conn_state c2 = kConnected"
      using quietE [OF assms(4), of c2] by blast
    have "handleClose V cb c = Inr c3" using Inr c2(1) c3(1) by (simp add: handleClose_def)
    then show ?thesis using c1 c2(2-4) c3(2-4) assms(2)
      by (simp add: closable_def isNoneEvent_def setState_def chan_keeps_def)
  qed
qed

lemma closable_remove:
  assumes "closable ok d" "conn_state d \<noteq> kConnected"
  shows "\<exists>c'. on_chan (chan_remove V) d = Inr c' \<and> conn_state c' = conn_state d \<and> index (channel c') = kNew
      \<and> ok (poller_state c') (channel c') \<and> delete_Channel inLoop (chans (poller_state c')) (channel c') = Inr ()"
  using remove_delete [of "poller_state d" "channel d" inLoop] assms by (auto simp: closable_def on_chan_def)

lemma connectDestroyed_spec:
  assumes "closable ok c" "quiet (connectionCallback cb)"
  shows "case connectDestroyed V cb c of Inl a \<Rightarrow> refused V ok a
    | Inr c' \<Rightarrow> conn_state c' \<noteq> kConnected \<and> index (channel c') = kNew \<and> ok (poller_state c') (channel c')
        \<and> delete_Channel inLoop (chans (poller_state c')) (channel c') = Inr ()"
proof (cases "conn_state c = kConnected")
  case False
  then show ?thesis using closable_remove [OF assms(1), of inLoop] by (auto simp: connectDestroyed_def)
next
  case True
  define cb' where "cb' = cb\<lparr>conn_closeCallback := Inr\<rparr>"
  have q: "quiet (connectionCallback cb')" "quiet (conn_closeCallback cb')"
    using assms(2) by (simp_all add: cb'_def quiet_def)
  have eq: "connectDestroyed V cb c = bind_abort (handleClose V cb' c) (on_chan (chan_remove V))"
    using True by (auto simp: connectDestroyed_def handleClose_def cb'_def bind_abort_def split: sum.splits)
  have c: "ok (poller_state c) (channel c)" "\<not> eventHandling (channel c)" using assms(1) by (simp_all add: closable_def)
  show ?thesis
  proof (cases "handleClose V cb' c")
    case (Inr d)
    then show ?thesis using handleClose_closable [OF c q] closable_remove [of d inLoop] unfolding eq by auto
  qed (use handleClose_closable [OF c q] eq in simp)
qed

end

section \<open>Incoming data\<close>

text \<open>Sending touches neither the input side nor the context nor the memory of others.\<close>

definition same_input :: "('p, 'c) TcpConnection \<Rightarrow> ('p, 'c) TcpConnection \<Rightarrow> bool" where
  "same_input c c' \<longleftrightarrow> inputBuffer c' = inputBuffer c \<and> read_script c' = read_script c
     \<and> conn_context c' = conn_context c \<and> heap c' = heap c"

lemma same_input_trans: "same_input a b \<Longrightarrow> same_input b c \<Longrightarrow> same_input a c"
  by (simp add: same_input_def)

lemma same_input_simps [simp]:
  "same_input c (conn_queueInLoop f d) = same_input c d" "same_input c (d\<lparr>outputBuffer := b\<rparr>) = same_input c d"
  "same_input c (shutdownInLoop d) = same_input c d" "same_input c c"
  "same_input (c\<lparr>outputBuffer := b\<rparr>) d = same_input c d"
  by (simp_all add: same_input_def conn_queueInLoop_def shutdownInLoop_def)

lemma same_input_write: "sock_write data c = (r, c') \<Longrightarrow> same_input c c'"
  by (cases rule: sock_write_cases [of data c]) (auto simp: same_input_def)

lemma same_input_chan: "on_chan f c = Inr c' \<Longrightarrow> same_input c c'"
  by (auto simp: on_chan_def bind_abort_Inr same_input_def)

lemma same_input_direct: "send_direct data c = (n, f, c') \<Longrightarrow> same_input c c'"
  using same_input_write [of data c]
  by (auto simp: send_direct_def split: if_splits prod.splits write_result.splits)

lemma sendInLoop_input:
  assumes "sendInLoop V s c = Inr c'"
  shows "same_input c c'"
proof -
  obtain n f c1 where d: "send_direct s c = (n, f, c1)" by (metis prod_cases3)
  then have "same_input c c1" by (rule same_input_direct)
  then have *: "same_input c c' \<or> (\<exists>d. same_input c d \<and> on_chan (enableWriting V) d = Inr c')"
    using assms d by (auto simp: sendInLoop_def Let_def split: if_splits)
  then show ?thesis using same_input_chan same_input_trans by blast
qed

lemma handleWrite_input:
  assumes "handleWrite V c = Inr c'"
  shows "same_input c c'"
proof -
  obtain r c1 where w: "sock_write (fst (writeFd (outputBuffer c) (WriteOk 0))) c = (r, c1)" by force
  show ?thesis using assms w same_input_write [OF w]
    by (auto simp: handleWrite_def Let_def bind_abort_Inr split: if_splits prod.splits
        dest!: same_input_chan intro: same_input_trans)
qed

text \<open>The input buffer after a read of \<open>d\<close>.\<close>

definition after_read :: "Buffer \<Rightarrow> string \<Rightarrow> Buffer" where
  "after_read b d = snd (snd (readFd b (ReadOk d)))"

lemma after_read [simp]:
  "buffer_inv b \<Longrightarrow> buffer_inv (after_read b d)"
  "buffer_inv b \<Longrightarrow> readable (after_read b d) = readable b @ d"
  by (simp_all add: after_read_def readFd_Ok_inv readable_readFd_Ok)

lemma handleRead_data:
  assumes "read_script c = ReadOk d # s" "d \<noteq> []" "length d \<le> readv_room (inputBuffer c)"
  shows "handleRead V cb t c = messageCallback cb t (c\<lparr>read_script := s, inputBuffer := after_read (inputBuffer c) d\<rparr>)"
  using assms by (simp add: handleRead_def sock_readv_def readFd_def Let_def after_read_def)

lemma handleRead_cut:
  assumes "read_script c = ReadOk d # s" "d \<noteq> []" "readv_room (inputBuffer c) < length d"
  shows "handleRead V cb t c = messageCallback cb t (c\<lparr>read_script := ReadOk (drop (readv_room (inputBuffer c)) d) # s,
    inputBuffer := after_read (inputBuffer c) (take (readv_room (inputBuffer c)) d)\<rparr>)"
proof -
  have "readv_room (inputBuffer c) \<noteq> 0" by (simp add: readv_room_def extrabuf_size_def Let_def)
  then show ?thesis using assms
    by (simp add: handleRead_def sock_readv_def readFd_def Let_def after_read_def min_def)
qed

lemma length_after_read: "buffer_inv b \<Longrightarrow> length (buffer (after_read b d)) \<le> length (buffer b) + length d"
proof -
  assume inv: "buffer_inv b"
  let ?w = "writableBytes b"
  let ?b1 = "b\<lparr>buffer := std_copy (take ?w d) (writerIndex b) (buffer b)\<rparr>"
  have len: "length (buffer ?b1) = length (buffer b)"
    using inv by (auto simp: buffer_inv_def writableBytes_def std_copy_def)
  then have "buffer_inv (?b1\<lparr>writerIndex := length (buffer ?b1)\<rparr>)" using inv by (simp add: buffer_inv_def)
  from length_append_buf [OF this, of "drop ?w d"] len show ?thesis
    by (cases "length d \<le> ?w") (simp_all add: after_read_def readFd_def Let_def)
qed

section \<open>High-water marks\<close>

definition high_water_calls :: "('p, 'c) TcpConnection \<Rightarrow> nat" where
  "high_water_calls c = length (filter (\<lambda>f. case f of HighWaterMarkCallback _ \<Rightarrow> True | _ \<Rightarrow> False) (pendingFunctors c))"

lemma send_while_writing:
  assumes "conn_state c = kConnected" "isWriting (channel c)" "buffer_inv (outputBuffer c)" "has_highWaterMark c"
  shows "\<exists>c'. send V True q s c = Inr c' \<and> conn_state c' = kConnected \<and> channel c' = channel c
    \<and> buffer_inv (outputBuffer c') \<and> has_highWaterMark c' \<and> highWaterMark c' = highWaterMark c
    \<and> readable (outputBuffer c') = readable (outputBuffer c) @ s
    \<and> high_water_calls c' = high_water_calls c +
        (if length (readable (outputBuffer c)) < highWaterMark c \<and> highWaterMark c \<le> length (readable (outputBuffer c) @ s)
         then 1 else 0)"
  using assms
  by (cases "s = []") (auto simp: send_def sendInLoop_def send_direct_def Let_def conn_queueInLoop_def
      high_water_calls_def buf_simps)

lemma sends_while_writing:
  assumes "conn_state c = kConnected" "isWriting (channel c)" "buffer_inv (outputBuffer c)" "has_highWaterMark c"
  shows "\<exists>c'. conn_run V (map SendMsg ms) c = Inr c' \<and> readable (outputBuffer c') = readable (outputBuffer c) @ concat ms
    \<and> high_water_calls c' = high_water_calls c +
        (if length (readable (outputBuffer c)) < highWaterMark c
            \<and> highWaterMark c \<le> length (readable (outputBuffer c) @ concat ms) then 1 else 0)"
  using assms
proof (induction ms arbitrary: c)
  case (Cons s ms)
  obtain c1 where c1: "send V True 0 s c = Inr c1" "conn_state c1 = kConnected" "channel c1 = channel c"
      "buffer_inv (outputBuffer c1)" "has_highWaterMark c1" "highWaterMark c1 = highWaterMark c"
      "readable (outputBuffer c1) = readable (outputBuffer c) @ s"
      "high_water_calls c1 = high_water_calls c +
        (if length (readable (outputBuffer c)) < highWaterMark c \<and> highWaterMark c \<le> length (readable (outputBuffer c) @ s)
         then 1 else 0)"
    using send_while_writing [OF Cons.prems, of V 0 s] by blast
  have "isWriting (channel c1)" using Cons.prems(2) c1(3) by simp
  from Cons.IH [OF c1(2) this c1(4,5)] c1 show ?case by auto
qed simp

section \<open>Properties\<close>


definition demo_callbacks :: "('p, 'c) conn_callbacks" where
  "demo_callbacks = \<lparr>connectionCallback = Inr, messageCallback = (\<lambda>_. Inr), conn_closeCallback = Inr,
     writeCompleteCallback = Inr, highWaterMarkCallback = (\<lambda>_. Inr)\<rparr>"

lemma demo_callbacks_quiet: "quiet (connectionCallback demo_callbacks)" "quiet (conn_closeCallback demo_callbacks)"
  by (simp_all add: quiet_def demo_callbacks_def)

definition demo_conn :: "write_outcome list \<Rightarrow> ((int \<Rightarrow> epoll_event option) EPollPoller, unit) TcpConnection" where
  "demo_conn script = (new_TcpConnection 100 1 7 (new_EPollPoller (\<lambda>_. None)))\<lparr>conn_state := kConnected, write_script := script\<rparr>"

lemma demo_conn_inv: "conn_inv (epoll_ok (\<lambda>k. k)) (demo_conn script)" "conn_state (demo_conn script) = kConnected"
  by (simp_all add: demo_conn_def conn_inv_def new_TcpConnection_def epoll_ok_def new_EPollPoller_def new_Channel_def
      kNew_def isWriting_def)


text \<open>C22: once the socket accepts at least one byte per writable event, as many writable events as bytes
  are waiting empty the output buffer: all accepted bytes are in the socket, the write event is off
  again, the write-complete callback is queued, and a half-close that was waiting for it is done.\<close>

theorem conn_output_drains:
  assumes "reliable_poller V chans ok" "conn_inv ok c" "isWriting (channel c)"
    "write_script c = map Accept ks @ rest" "\<forall>k \<in> set ks. 0 < k"
    "length (readable (outputBuffer c)) \<le> length ks" "length (readable (outputBuffer c)) \<le> n"
  shows "\<exists>c'. conn_run V (replicate n WritableEvent) c = Inr c' \<and> readable (outputBuffer c') = []
    \<and> sock_out c' = sock_out c @ readable (outputBuffer c) \<and> \<not> isWriting (channel c')
    \<and> (has_writeComplete c \<longrightarrow> WriteCompleteCallback \<in> set (pendingFunctors c'))
    \<and> (conn_state c = kDisconnecting \<longrightarrow> write_shut c')"
  using reliable_poller.drain [OF assms] unfolding conn_stream_def .

theorem conn_output_drains_witness:
  "\<exists>c c'. conn_run (epoll_vtable list_ctl) [SendMsg ''abc''] (demo_conn [Accept 1, Accept 1, Accept 5]) = Inr c
     \<and> conn_run (epoll_vtable list_ctl) (replicate 2 WritableEvent) c = Inr c' \<and> sock_out c' = ''abc''"
proof -
  let ?c0 = "demo_conn [Accept 1, Accept 1, Accept 5]"
  obtain c where c: "conn_run (epoll_vtable list_ctl) [SendMsg ''abc''] ?c0 = Inr c"
      "conn_inv (epoll_ok (\<lambda>k. k)) c" "conn_stream c = ''abc''"
    using list_epoll.ep.conn_run_spec [OF demo_conn_inv, of "[Accept 1, Accept 1, Accept 5]" "[SendMsg ''abc'']"]
      list_reliable.not_refused
    by (force simp: demo_conn_def peer_gone_def new_TcpConnection_def conn_stream_def split: sum.splits)
  have d: "send_direct ''abc'' ?c0 = (1, False, ?c0\<lparr>write_script := [Accept 1, Accept 5], sock_out := ''a''\<rparr>)"
    by (simp add: demo_conn_def send_direct_def sock_write_def new_TcpConnection_def new_Channel_def isWriting_def)
  obtain p ch where "c = ?c0\<lparr>write_script := [Accept 1, Accept 5], sock_out := ''a'',
      outputBuffer := append_buf (outputBuffer ?c0) ''bc'', poller_state := p, channel := ch\<rparr>"
    using c(1) d demo_conn_inv(2) [of "[Accept 1, Accept 1, Accept 5]"]
    by (force simp: send_def sendInLoop_def Let_def on_chan_def bind_abort_Inr demo_conn_def new_TcpConnection_def
        new_Channel_def isWriting_def split: if_splits prod.splits)
  then have w: "write_script c = map Accept [1, 5] @ []" "sock_out c = ''a''" "readable (outputBuffer c) = ''bc''"
      "conn_state c = kConnected"
    by (simp_all add: demo_conn_def new_TcpConnection_def buf_simps)
  then have "isWriting (channel c)" using c(2) by (simp add: conn_inv_def)
  from conn_output_drains [OF list_reliable.reliable_poller_axioms c(2) this w(1), of 2] w c(1)
  show ?thesis by auto
qed

text \<open>While output is waiting, a series of sends of any number and size queues the high-water-mark
  callback exactly once if it takes the waiting output across the mark, and never otherwise.\<close>

theorem high_water_mark_once:
  assumes "conn_state c = kConnected" "isWriting (channel c)" "buffer_inv (outputBuffer c)" "has_highWaterMark c"
  shows "\<exists>c'. conn_run V (map SendMsg ms) c = Inr c' \<and> readable (outputBuffer c') = readable (outputBuffer c) @ concat ms
    \<and> high_water_calls c' = high_water_calls c +
        (if length (readable (outputBuffer c)) < highWaterMark c
            \<and> highWaterMark c \<le> length (readable (outputBuffer c) @ concat ms) then 1 else 0)"
  using sends_while_writing [OF assms] .

theorem high_water_mark_once_witness:
  "\<exists>c'. conn_run (epoll_vtable list_ctl) (map SendMsg [''ab'', ''cd''])
      ((demo_conn [])\<lparr>channel := (new_Channel 100 1 7)\<lparr>events := kWriteEvent\<rparr>, has_highWaterMark := True, highWaterMark := 3\<rparr>)
      = Inr c' \<and> high_water_calls c' = 1"
proof -
  let ?c = "(demo_conn [])\<lparr>channel := (new_Channel 100 1 7)\<lparr>events := kWriteEvent\<rparr>, has_highWaterMark := True, highWaterMark := 3\<rparr>"
  have "conn_state ?c = kConnected" "isWriting (channel ?c)" "buffer_inv (outputBuffer ?c)" "has_highWaterMark ?c"
    by (simp_all add: demo_conn_def isWriting_def new_TcpConnection_def)
  from high_water_mark_once [OF this, of "epoll_vtable list_ctl" "[''ab'', ''cd'']"] show ?thesis
    by (auto simp: demo_conn_def high_water_calls_def new_TcpConnection_def)
qed

text \<open>C19: a connection goes through its whole life without a failed assertion: established from a fresh
  channel, any interleaving of sends and writable events, closed by the peer or not, then destroyed.
  Unless the poller refuses an update, \<^verbatim>\<open>connectDestroyed\<close> finds all events disabled, the channel
  ends up unknown to the poller, and the assertions of \<^verbatim>\<open>~Channel\<close> hold. The user's callbacks may do
  anything but touch the channel, the poller or the buffers.\<close>

theorem conn_lifecycle:
  assumes "poller V chans ok" "ok p (new_Channel addr loop f)"
    "quiet (connectionCallback cb)" "quiet (conn_closeCallback cb)"
    "c0 = (new_TcpConnection addr loop f p)\<lparr>write_script := ws, has_writeComplete := wc\<rparr>"
  shows "case bind_abort (connectEstablished V cb c0) (\<lambda>c1.
           bind_abort (conn_run V es c1) (\<lambda>c2.
           bind_abort (if peer_closes then handleClose V cb c2 else Inr c2) (connectDestroyed V cb))) of
      Inl a \<Rightarrow> refused V ok a
    | Inr c' \<Rightarrow> conn_state c' \<noteq> kConnected \<and> index (channel c') = kNew
        \<and> delete_Channel inLoop (chans (poller_state c')) (channel c') = Inr ()"
proof -
  have "case connectEstablished V cb c0 of Inl a \<Rightarrow> refused V ok a
    | Inr c1 \<Rightarrow> conn_inv ok c1 \<and> conn_state c1 = kConnected \<and> index (channel c1) \<noteq> kNew
        \<and> eventHandling (channel c1) = eventHandling (channel c0) \<and> isReading (channel c1)"
    using assms(2,3) by (intro poller.connectEstablished_spec [OF assms(1)])
      (simp_all add: assms(5) new_TcpConnection_def new_Channel_def)
  note est = this
  have nh: "\<not> eventHandling (channel c0)" by (simp add: assms(5) new_TcpConnection_def new_Channel_def)
  show ?thesis
  proof (rule bind_abort_rule [OF est], rule bind_abort_rule [where P = "closable ok"], goal_cases)
    case (1 c1)
    then have c1: "conn_inv ok c1" "conn_state c1 = kConnected" "index (channel c1) \<noteq> kNew"
        "\<not> eventHandling (channel c1)" using nh by auto
    show ?case using poller.conn_run_spec [OF assms(1) c1(1,2), of es] c1(3,4)
      by (cases "conn_run V es c1") (simp_all add: closable_def conn_inv_def chan_keeps_def)
  next
    case (2 c1 c2)
    then have cl: "ok (poller_state c2) (channel c2)" "\<not> eventHandling (channel c2)" by (simp_all add: closable_def)
    have "case (if peer_closes then handleClose V cb c2 else Inr c2) of Inl a \<Rightarrow> refused V ok a | Inr c3 \<Rightarrow> closable ok c3"
      using poller.handleClose_closable [OF assms(1) cl assms(3,4)] 2(2) by (auto split: sum.splits)
    then show ?case
    proof (rule bind_abort_rule, goal_cases)
      case (1 c3)
      from poller.connectDestroyed_spec [OF assms(1) this assms(3), of inLoop]
      show ?case by (cases "connectDestroyed V cb c3") simp_all
    qed
  qed
qed

theorem conn_lifecycle_witness:
  "\<exists>c'. bind_abort (connectEstablished (epoll_vtable list_ctl) demo_callbacks
          ((new_TcpConnection 100 1 7 (new_EPollPoller (\<lambda>_. None)) :: (_, unit) TcpConnection)
             \<lparr>write_script := [Accept 1], has_writeComplete := True\<rparr>)) (\<lambda>c1.
      bind_abort (conn_run (epoll_vtable list_ctl) [SendMsg ''abc'', WritableEvent] c1) (\<lambda>c2.
      bind_abort (if True then handleClose (epoll_vtable list_ctl) demo_callbacks c2 else Inr c2)
        (connectDestroyed (epoll_vtable list_ctl) demo_callbacks))) = Inr c'
     \<and> index (channel c') = kNew"
proof -
  have ok: "epoll_ok (\<lambda>k. k) (new_EPollPoller (\<lambda>_. None)) (new_Channel 100 1 7)"
    by (simp add: epoll_ok_def new_EPollPoller_def new_Channel_def kNew_def)
  have "\<exists>y. r = Inr y \<and> P y" if "case r of Inl a \<Rightarrow> refused (epoll_vtable list_ctl) (epoll_ok (\<lambda>k. k)) a
      | Inr y \<Rightarrow> Q y \<and> P y \<and> R y" for r :: "abort + 'a" and P Q R
    using that list_reliable.not_refused by (cases r) auto
  from this [OF conn_lifecycle [OF list_epoll.ep.poller_axioms ok demo_callbacks_quiet refl]]
  show ?thesis by blast
qed

text \<open>C28: \<^verbatim>\<open>shutdown\<close> tests for the wrong state. On a connection that is up, it does nothing: neither the
  state nor the socket changes, now or when the queued work runs. On a connection that is already
  disconnected it goes back to \<^verbatim>\<open>kDisconnecting\<close>, and then \<^verbatim>\<open>sendInLoop\<close> no longer refuses to write.\<close>

theorem shutdown_inverted:
  "(conn_state c \<noteq> kDisconnected \<longrightarrow> conn_shutdown inLoop c = c)
   \<and> (conn_state c = kDisconnected \<longrightarrow> conn_state (conn_shutdown inLoop c) = kDisconnecting
      \<and> (\<not> isWriting (channel c) \<longrightarrow> write_shut (conn_shutdown True c))
      \<and> (write_script c = Accept (length data) # s \<longrightarrow> \<not> isWriting (channel c) \<longrightarrow> readableBytes (outputBuffer c) = 0 \<longrightarrow>
           sendInLoop V data c = Inr c
           \<and> (\<exists>c'. sendInLoop V data (conn_shutdown inLoop c) = Inr c' \<and> sock_out c' = sock_out c @ data)))"
  by (auto simp: conn_shutdown_def setState_def shutdownInLoop_def conn_queueInLoop_def Let_def sendInLoop_def
      send_direct_def sock_write_def)

theorem shutdown_inverted_witness:
  "conn_shutdown True (demo_conn []) = demo_conn []
   \<and> conn_state (conn_shutdown True ((demo_conn [])\<lparr>conn_state := kDisconnected\<rparr>)) = kDisconnecting"
  using shutdown_inverted [of "demo_conn []" True] shutdown_inverted [of "(demo_conn [])\<lparr>conn_state := kDisconnected\<rparr>" True]
  by (simp add: demo_conn_inv)

section \<open>Sending from other threads\<close>

text \<open>Messages with the addresses of their characters, sent by threads that do not run the loop.\<close>

fun send_all :: "'p Poller \<Rightarrow> (nat \<times> string) list \<Rightarrow> ('p, 'c) TcpConnection \<Rightarrow> abort + ('p, 'c) TcpConnection" where
  "send_all V [] c = Inr c"
| "send_all V (x # xs) c = bind_abort (send V False (fst x) (snd x) c) (send_all V xs)"

definition in_memory :: "('p, 'c) TcpConnection \<Rightarrow> (nat \<times> string) list \<Rightarrow> bool" where
  "in_memory c xs \<longleftrightarrow> (\<forall>x \<in> set xs. heap c (fst x) = Some (snd x))"

abbreviation send_functors :: "(nat \<times> string) list \<Rightarrow> conn_functor list" where
  "send_functors xs \<equiv> map (\<lambda>x. SendInLoop (fst x) (length (snd x))) xs"

lemma send_all_queues:
  "conn_state c = kConnected \<Longrightarrow> send_all V xs c = Inr (c\<lparr>pendingFunctors := pendingFunctors c @ send_functors xs\<rparr>)"
  by (induction xs arbitrary: c) (simp_all add: send_def conn_queueInLoop_def)

context poller
begin

lemma run_sends:
  assumes "conn_inv ok c" "conn_state c = kConnected"
  shows "case run_functors V cb (send_functors xs) c of
      Inl a \<Rightarrow> refused V ok a \<or> a = Bad_access \<and> \<not> in_memory c xs
    | Inr c' \<Rightarrow> conn_inv ok c' \<and> conn_state c' = kConnected \<and> (\<forall>x \<in> set xs. heap c (fst x) \<noteq> None)
        \<and> (in_memory c xs \<longrightarrow> \<not> peer_gone (write_script c) \<longrightarrow> conn_stream c' = conn_stream c @ concat (map snd xs))"
  using assms
proof (induction xs arbitrary: c)
  case (Cons x xs)
  show ?case
  proof (cases "run_functor V cb (SendInLoop (fst x) (length (snd x))) c")
    case (Inl a)
    have "refused V ok a \<or> a = Bad_access \<and> heap c (fst x) \<noteq> Some (snd x)"
    proof (cases "heap c (fst x)")
      case (Some s)
      then show ?thesis using Inl sendInLoop_spec [of c "take (length (snd x)) s"] Cons.prems
        by (cases "length (snd x) \<le> length s") auto
    qed (use Inl in simp)
    then show ?thesis using Inl by (auto simp: in_memory_def)
  next
    case (Inr d)
    then obtain s where s: "heap c (fst x) = Some s" "length (snd x) \<le> length s" "sendInLoop V (take (length (snd x)) s) c = Inr d"
      by (auto split: option.splits if_splits)
    let ?m = "take (length (snd x)) s"
    have d: "conn_inv ok d" "conn_state d = kConnected" "set (write_script d) \<subseteq> set (write_script c)"
        "conn_stream d = conn_stream c @ ?m \<or> peer_gone (write_script c)" "heap d = heap c"
      using sendInLoop_spec [of c ?m] s(3) Cons.prems sendInLoop_input [OF s(3)] by (auto simp: same_input_def)
    have pg: "\<not> peer_gone (write_script c) \<Longrightarrow> \<not> peer_gone (write_script d)" using peer_gone_mono [OF _ d(3)] by blast
    have mem: "in_memory d xs = in_memory c xs" by (simp add: in_memory_def d(5))
    have "in_memory c (x # xs) \<Longrightarrow> ?m = snd x" using s(1) by (simp add: in_memory_def)
    with Cons.IH [OF d(1,2)] d(4) pg s(1) Inr mem show ?thesis
      by (cases "run_functors V cb (send_functors xs) d") (auto simp: d(5) in_memory_def)
  qed
qed (simp add: in_memory_def)

end



end
