(* ===== verification/Ymuduo_EchoServer.thy ===== *)
theory Ymuduo_EchoServer
  imports Ymuduo_TcpConnection
begin

text \<open>
  The echo server (\<^verbatim>\<open>src/echo/echo_server.cc\<close>): its two callbacks, and the connection they run on.
  The properties follow the bytes from the socket through input buffer, callback and output buffer
  back to the socket.
\<close>

section \<open>The callbacks\<close>

definition echo_onConnection :: "('p, 'c) TcpConnection \<Rightarrow> abort + ('p, 'c) TcpConnection" where
  "echo_onConnection c = (if connected c then Inr c else Inr (conn_shutdown True c))"

definition echo_onMessage ::
  "'p Poller \<Rightarrow> Timestamp \<Rightarrow> ('p, 'c) TcpConnection \<Rightarrow> abort + ('p, 'c) TcpConnection" where
  "echo_onMessage V t c =
     (case retrieveAllAsString (inputBuffer c) of
        Inl e \<Rightarrow> Inl Bad_access
      | Inr (msg, b) \<Rightarrow> send V True 0 msg (c\<lparr>inputBuffer := b\<rparr>))"

definition echo_callbacks ::
  "'p Poller \<Rightarrow> (('p, 'c) TcpConnection \<Rightarrow> abort + ('p, 'c) TcpConnection) \<Rightarrow> ('p, 'c) conn_callbacks" where
  "echo_callbacks V closeCb =
     \<lparr>connectionCallback = echo_onConnection, messageCallback = echo_onMessage V, conn_closeCallback = closeCb,
      writeCompleteCallback = Inr, highWaterMarkCallback = (\<lambda>_. Inr)\<rparr>"

section \<open>Bytes on their way\<close>

text \<open>The bytes the peer has sent that were not read yet.\<close>

fun incoming :: "read_result list \<Rightarrow> string" where
  "incoming [] = []"
| "incoming (ReadErr e # s) = incoming s"
| "incoming (ReadOk d # s) = d @ incoming s"

datatype echo_event = Readable Timestamp | Writable

fun echo_run ::
  "'p Poller \<Rightarrow> (('p, 'c) TcpConnection \<Rightarrow> abort + ('p, 'c) TcpConnection) \<Rightarrow> echo_event list
   \<Rightarrow> ('p, 'c) TcpConnection \<Rightarrow> abort + ('p, 'c) TcpConnection" where
  "echo_run V closeCb [] c = Inr c"
| "echo_run V closeCb (Readable t # es) c = bind_abort (handleRead V (echo_callbacks V closeCb) t c) (echo_run V closeCb es)"
| "echo_run V closeCb (Writable # es) c = bind_abort (handleWrite V c) (echo_run V closeCb es)"

definition echo_inv :: "('p \<Rightarrow> Channel \<Rightarrow> bool) \<Rightarrow> ('p, 'c) TcpConnection \<Rightarrow> bool" where
  "echo_inv ok c \<longleftrightarrow> conn_inv ok c \<and> conn_state c = kConnected \<and> readable (inputBuffer c) = []
     \<and> ReadOk [] \<notin> set (read_script c) \<and> \<not> peer_gone (write_script c)"

context poller
begin

lemma echo_send:
  assumes "conn_inv ok c" "conn_state c = kConnected" "\<not> peer_gone (write_script c)"
  shows "case echo_onMessage V t c of Inl a \<Rightarrow> refused V ok a
    | Inr c' \<Rightarrow> conn_inv ok c' \<and> conn_state c' = kConnected \<and> readable (inputBuffer c') = []
        \<and> read_script c' = read_script c \<and> \<not> peer_gone (write_script c')
        \<and> conn_stream c' = conn_stream c @ readable (inputBuffer c)"
proof -
  let ?c1 = "c\<lparr>inputBuffer := retrieve (inputBuffer c) (readableBytes (inputBuffer c))\<rparr>"
  have inv: "buffer_inv (inputBuffer c)" using assms(1) by (simp add: conn_inv_def)
  have c1: "conn_inv ok ?c1" using assms(1) by (simp add: conn_inv_def)
  have eq: "echo_onMessage V t c = sendInLoop V (readable (inputBuffer c)) ?c1"
    using inv assms(2) by (simp add: echo_onMessage_def retrieveAllAsString_eq send_def)
  have str: "conn_stream ?c1 = conn_stream c" by (simp add: conn_stream_def)
  have emp: "readable (inputBuffer ?c1) = []" using inv by (simp add: buf_simps)
  have sp: "case sendInLoop V (readable (inputBuffer c)) ?c1 of Inl a \<Rightarrow> refused V ok a
    | Inr c' \<Rightarrow> conn_inv ok c' \<and> conn_state c' = conn_state ?c1 \<and> set (write_script c') \<subseteq> set (write_script ?c1)
        \<and> (conn_stream c' = conn_stream ?c1 @ readable (inputBuffer c)
           \<or> conn_stream c' = conn_stream ?c1 \<and> peer_gone (write_script ?c1))
        \<and> chan_keeps (channel ?c1) (channel c')"
    using assms(2) by (intro sendInLoop_spec [OF c1]) simp
  show ?thesis
  proof (cases "sendInLoop V (readable (inputBuffer c)) ?c1")
    case (Inr c')
    then have "conn_inv ok c'" "conn_state c' = kConnected" "\<not> peer_gone (write_script c')"
        "conn_stream c' = conn_stream c @ readable (inputBuffer c)"
      using sp assms(2,3) peer_gone_mono [of "write_script c'" "write_script c"] str
      by (simp_all del: append_assoc) blast
    moreover have "readable (inputBuffer c') = []" "read_script c' = read_script c"
      using sendInLoop_input [OF Inr] emp by (simp_all add: same_input_def)
    ultimately show ?thesis using eq Inr by simp
  qed (use eq sp in simp)
qed

lemma echo_error:
  "echo_inv ok (handleError c) = echo_inv ok c" "conn_stream (handleError c) = conn_stream c"
  "read_script (handleError c) = read_script c"
  by (simp_all add: handleError_def echo_inv_def conn_inv_def conn_stream_def)

lemma echo_read:
  assumes "echo_inv ok c"
  shows "case handleRead V (echo_callbacks V closeCb) t c of Inl a \<Rightarrow> refused V ok a
    | Inr c' \<Rightarrow> echo_inv ok c' \<and> conn_stream c' @ incoming (read_script c') = conn_stream c @ incoming (read_script c)"
proof (cases "read_script c")
  case Nil
  then have "handleRead V (echo_callbacks V closeCb) t c = Inr (handleError c)"
    by (simp add: handleRead_def sock_readv_def readFd_def Let_def)
  then show ?thesis using assms by (simp add: echo_error)
next
  case (Cons r s)
  show ?thesis
  proof (cases r)
    case (ReadErr e)
    let ?c = "c\<lparr>read_script := s\<rparr>"
    have "handleRead V (echo_callbacks V closeCb) t c = Inr (handleError ?c)"
      using Cons ReadErr by (simp add: handleRead_def sock_readv_def readFd_def Let_def)
    moreover have "echo_inv ok ?c" using assms Cons by (simp add: echo_inv_def)
    moreover have "conn_stream ?c = conn_stream c" "incoming s = incoming (read_script c)"
      using Cons ReadErr by (simp_all add: conn_stream_def)
    ultimately show ?thesis by (simp add: echo_error)
  next
    case (ReadOk d)
    have d: "d \<noteq> []" using assms Cons ReadOk by (auto simp: echo_inv_def)
    obtain d' s' where split: "handleRead V (echo_callbacks V closeCb) t c =
        echo_onMessage V t (c\<lparr>read_script := s', inputBuffer := after_read (inputBuffer c) d'\<rparr>)"
        "d' @ incoming s' = d @ incoming s" "ReadOk [] \<notin> set s'"
    proof (cases "length d \<le> readv_room (inputBuffer c)")
      case True
      then show thesis using that [of d s] handleRead_data [of c d s V "echo_callbacks V closeCb" t] Cons ReadOk d assms
        by (auto simp: echo_callbacks_def echo_inv_def)
    next
      case False
      let ?n = "readv_room (inputBuffer c)"
      show thesis using that [of "take ?n d" "ReadOk (drop ?n d) # s"]
          handleRead_cut [of c d s V "echo_callbacks V closeCb" t] Cons ReadOk d False assms
        by (auto simp: echo_callbacks_def echo_inv_def)
    qed
    let ?c1 = "c\<lparr>read_script := s', inputBuffer := after_read (inputBuffer c) d'\<rparr>"
    have inv: "buffer_inv (inputBuffer c)" "readable (inputBuffer c) = []"
      using assms unfolding echo_inv_def conn_inv_def by blast+
    have "conn_inv ok ?c1" "conn_state ?c1 = kConnected" "\<not> peer_gone (write_script ?c1)"
      using assms inv by (simp_all add: echo_inv_def)
    from echo_send [OF this, of t] inv split(2,3) Cons ReadOk show ?thesis unfolding split(1)
      by (cases "echo_onMessage V t ?c1") (simp_all add: echo_inv_def, simp_all add: conn_stream_def)
  qed
qed

lemma echo_run_conserves:
  assumes "echo_inv ok c"
  shows "case echo_run V closeCb es c of Inl a \<Rightarrow> refused V ok a
    | Inr c' \<Rightarrow> echo_inv ok c' \<and> conn_stream c' @ incoming (read_script c') = conn_stream c @ incoming (read_script c)"
  using assms
proof (induction es arbitrary: c)
  case (Cons e es)
  have step: "case (case e of Readable t \<Rightarrow> handleRead V (echo_callbacks V closeCb) t c | Writable \<Rightarrow> handleWrite V c) of
      Inl a \<Rightarrow> refused V ok a
    | Inr c1 \<Rightarrow> echo_inv ok c1 \<and> conn_stream c1 @ incoming (read_script c1) = conn_stream c @ incoming (read_script c)"
  proof (cases e)
    case Writable
    have ci: "conn_inv ok c" using Cons.prems by (simp add: echo_inv_def)
    show ?thesis
    proof (cases "handleWrite V c")
      case (Inr c1)
      then show ?thesis using handleWrite_spec [OF ci] handleWrite_input [OF Inr] Cons.prems Writable
          peer_gone_mono [of "write_script c1" "write_script c"]
        by (auto simp: echo_inv_def same_input_def)
    qed (use handleWrite_spec [OF ci] Writable in simp)
  qed (use echo_read [OF Cons.prems, of closeCb] in simp)
  have eq: "echo_run V closeCb (e # es) c =
      bind_abort (case e of Readable t \<Rightarrow> handleRead V (echo_callbacks V closeCb) t c | Writable \<Rightarrow> handleWrite V c)
        (echo_run V closeCb es)"
    by (cases e) simp_all
  show ?case unfolding eq
  proof (rule bind_abort_rule [OF step], goal_cases)
    case (1 c1)
    then show ?case using Cons.IH [of c1] by (cases "echo_run V closeCb es c1") simp_all
  qed
qed simp

end

section \<open>Properties\<close>



text \<open>When the peer closes, the connection callback of the echo server calls \<^verbatim>\<open>shutdown\<close> on the
  connection that has just become \<^verbatim>\<open>kDisconnected\<close>: it is moved back to \<^verbatim>\<open>kDisconnecting\<close> and its write
  side is shut, with every event of the channel disabled.\<close>

theorem echo_peer_close:
  assumes "reliable_poller V chans ok" "conn_inv ok c" "read_script c = ReadOk [] # s"
  shows "\<exists>c'. handleRead V (echo_callbacks V Inr) t c = Inr c' \<and> conn_state c' = kDisconnecting \<and> write_shut c'
    \<and> isNoneEvent (channel c') \<and> ok (poller_state c') (channel c')"
proof -
  define c1 where "c1 = c\<lparr>read_script := s, inputBuffer := after_read (inputBuffer c) []\<rparr>"
  have eq: "handleRead V (echo_callbacks V Inr) t c = handleClose V (echo_callbacks V Inr) c1"
    using assms(3) by (simp add: handleRead_def sock_readv_def readFd_def Let_def c1_def after_read_def)
  have p: "poller V chans ok" using assms(1) by (rule reliable_poller.axioms)
  have "ok (poller_state (setState c1 kDisconnected)) (channel (setState c1 kDisconnected))"
    using assms(2) by (simp add: c1_def setState_def conn_inv_def)
  from poller.on_chan_step [OF p this, of DisableAll] reliable_poller.not_refused [OF assms(1)]
  obtain p' ch where c2: "on_chan (disableAll V) (setState c1 kDisconnected)
      = Inr ((setState c1 kDisconnected)\<lparr>poller_state := p', channel := ch\<rparr>)" "ok p' ch" "events ch = kNoneEvent"
    by (auto split: sum.splits)
  then have "\<not> isWriting ch" by (simp add: isWriting_def)
  with c2 show ?thesis unfolding eq
    by (simp add: handleClose_def echo_callbacks_def echo_onConnection_def connected_def setState_def conn_shutdown_def
        shutdownInLoop_def isNoneEvent_def)
qed

theorem echo_peer_close_witness:
  "\<exists>c'. handleRead (epoll_vtable list_ctl) (echo_callbacks (epoll_vtable list_ctl) Inr) (Timestamp 1)
      ((demo_conn [])\<lparr>read_script := [ReadOk '''']\<rparr>) = Inr c' \<and> conn_state c' = kDisconnecting"
proof -
  have "conn_inv (epoll_ok (\<lambda>k. k)) ((demo_conn [])\<lparr>read_script := [ReadOk '''']\<rparr>)"
    using demo_conn_inv(1) [of "[]"] by (simp add: conn_inv_def)
  from echo_peer_close [OF list_reliable.reliable_poller_axioms this, of "[]" "Timestamp 1"] show ?thesis by auto
qed

end
