(* ===== verification/Ymuduo_HttpRequest.thy ===== *)
theory Ymuduo_HttpRequest
  imports Ymuduo_Timestamp
begin

text \<open>
  A parsed HTTP request (\<^verbatim>\<open>src/http/HttpRequest.h\<close>). A pair of pointers into the receive buffer is
  the string between them. An \<^verbatim>\<open>assert\<close> that fails is the error \<open>AssertFailed\<close>.
\<close>

section \<open>State and operations\<close>

datatype Method = kInvalid | kGet | kPost | kHead | kPut | kDelete
datatype Version = kUnknown | kHttpV10 | kHttpV11

datatype http_error = AssertFailed

record HttpRequest =
  http_method :: Method
  version :: Version
  path :: string
  query :: string
  receiveTime :: Timestamp
  headers :: "(string, string) std_map"

definition new_HttpRequest :: HttpRequest where
  "new_HttpRequest = \<lparr>http_method = kInvalid, version = kUnknown, path = '''', query = '''',
     receiveTime = new_Timestamp, headers = []\<rparr>"

definition setVersion :: "HttpRequest \<Rightarrow> Version \<Rightarrow> HttpRequest" where
  "setVersion r v = r\<lparr>version := v\<rparr>"

definition getVersion :: "HttpRequest \<Rightarrow> Version" where
  "getVersion r = version r"

definition setMethod :: "HttpRequest \<Rightarrow> string \<Rightarrow> http_error + (bool \<times> HttpRequest)" where
  "setMethod r m =
     (if http_method r \<noteq> kInvalid then Inl AssertFailed
      else let mt = (if m = ''GET'' then kGet
                     else if m = ''POST'' then kPost
                     else if m = ''HEAD'' then kHead
                     else if m = ''PUT'' then kPut
                     else if m = ''DELETE'' then kDelete
                     else kInvalid)
           in Inr (mt \<noteq> kInvalid, r\<lparr>http_method := mt\<rparr>))"

definition methodString :: "HttpRequest \<Rightarrow> string" where
  "methodString r =
     (case http_method r of
        kGet \<Rightarrow> ''GET'' | kPost \<Rightarrow> ''POST'' | kHead \<Rightarrow> ''HEAD'' | kPut \<Rightarrow> ''PUT'' | kDelete \<Rightarrow> ''DELETE''
      | kInvalid \<Rightarrow> ''UNKNOWN'')"

definition setPath :: "HttpRequest \<Rightarrow> string \<Rightarrow> HttpRequest" where
  "setPath r s = r\<lparr>path := s\<rparr>"

definition setQuery :: "HttpRequest \<Rightarrow> string \<Rightarrow> HttpRequest" where
  "setQuery r s = r\<lparr>query := s\<rparr>"

definition setReceiveTime :: "HttpRequest \<Rightarrow> Timestamp \<Rightarrow> HttpRequest" where
  "setReceiveTime r t = r\<lparr>receiveTime := t\<rparr>"

text \<open>\<^verbatim>\<open>isspace\<close> in the C locale: blank, tab, newline, vertical tab, form feed, carriage return.\<close>

definition isspace :: "char \<Rightarrow> bool" where
  "isspace c \<longleftrightarrow> c \<in> {CHR '' '', CHR 0x09, CHR 0x0A, CHR 0x0B, CHR 0x0C, CHR 0x0D}"

fun skip_space :: "string \<Rightarrow> string" where
  "skip_space [] = []"
| "skip_space (c # cs) = (if isspace c then skip_space cs else c # cs)"

function drop_trailing_space :: "string \<Rightarrow> string" where
  "drop_trailing_space v =
     (if v \<noteq> [] \<and> isspace (last v) then drop_trailing_space (butlast v) else v)"
  by pat_completeness auto
termination
  by (relation "measure length") auto

declare drop_trailing_space.simps [simp del]

text \<open>\<open>addHeader r line colon\<close>: the header line and the offset of its colon.\<close>

definition addHeader :: "HttpRequest \<Rightarrow> string \<Rightarrow> nat \<Rightarrow> HttpRequest" where
  "addHeader r line colon =
     (let field = take colon line;
          value = drop_trailing_space (skip_space (drop (Suc colon) line))
      in r\<lparr>headers := map_assign field value (headers r)\<rparr>)"

definition getHeader :: "HttpRequest \<Rightarrow> string \<Rightarrow> string" where
  "getHeader r field = (case map_of (headers r) field of Some v \<Rightarrow> v | None \<Rightarrow> '''')"

definition swap_HttpRequest :: "HttpRequest \<Rightarrow> HttpRequest \<Rightarrow> HttpRequest \<times> HttpRequest" where
  "swap_HttpRequest r that = (that, r)"

section \<open>Lemmas\<close>

lemma isspace_CR [simp]: "isspace (CHR 0x0D)"
  by (simp add: isspace_def)

definition trimmed :: "string \<Rightarrow> bool" where
  "trimmed v \<longleftrightarrow> v = [] \<or> (\<not> isspace (hd v) \<and> \<not> isspace (last v))"

lemma drop_trailing_space_id: "v = [] \<or> \<not> isspace (last v) \<Longrightarrow> drop_trailing_space v = v"
  by (subst drop_trailing_space.simps) auto

lemma skip_space_id: "v = [] \<or> \<not> isspace (hd v) \<Longrightarrow> skip_space v = v"
  by (cases v) auto

lemma trim_id [simp]: "trimmed v \<Longrightarrow> drop_trailing_space (skip_space v) = v"
  by (auto simp: trimmed_def skip_space_id drop_trailing_space_id)

lemma last_drop_trailing_space:
  "drop_trailing_space v = [] \<or> \<not> isspace (last (drop_trailing_space v))"
proof (induction v rule: drop_trailing_space.induct)
  case (1 v)
  then show ?case
    by (cases "v \<noteq> [] \<and> isspace (last v)") (auto simp: drop_trailing_space.simps [of v])
qed

lemma prefix_drop_trailing_space: "prefix (drop_trailing_space v) v"
proof (induction v rule: drop_trailing_space.induct)
  case (1 v)
  show ?case
  proof (cases "v \<noteq> [] \<and> isspace (last v)")
    case True
    then have "prefix (drop_trailing_space (butlast v)) (butlast v)" by (rule 1)
    moreover have "prefix (butlast v) v" by (rule prefixeq_butlast)
    ultimately show ?thesis using True
      by (metis drop_trailing_space.simps prefix_order.trans)
  qed (auto simp: drop_trailing_space.simps [of v])
qed

lemma hd_skip_space: "skip_space v = [] \<or> \<not> isspace (hd (skip_space v))"
  by (induction v) auto

lemma trimmed_trim: "trimmed (drop_trailing_space (skip_space v))"
proof -
  let ?w = "skip_space v"
  obtain z where "?w = drop_trailing_space ?w @ z"
    using prefix_drop_trailing_space [of ?w] by (auto simp: prefix_def)
  then have "drop_trailing_space ?w \<noteq> [] \<Longrightarrow> hd (drop_trailing_space ?w) = hd ?w"
    by (metis hd_append2)
  moreover have "drop_trailing_space ?w \<noteq> [] \<Longrightarrow> ?w \<noteq> []"
    by (metis drop_trailing_space.simps)
  ultimately show ?thesis
    using hd_skip_space [of v] last_drop_trailing_space [of ?w] by (auto simp: trimmed_def)
qed

lemma getHeader_addHeader:
  "getHeader (addHeader r line colon) f =
     (if f = take colon line then drop_trailing_space (skip_space (drop (Suc colon) line))
      else getHeader r f)"
  by (simp add: getHeader_def addHeader_def Let_def)

section \<open>Properties\<close>

text \<open>After \<^verbatim>\<open>addHeader\<close> on the line \<open>field:value\<close>, \<^verbatim>\<open>getHeader\<close> returns the value without its
  surrounding white space for that field and is unchanged for every other field; the map of headers
  stays ordered with unique keys; the value stored never begins or ends with white space.\<close>

theorem addHeader_getHeader:
  assumes "CHR '':'' \<notin> set field" "sorted_wrt (<) (map fst (headers r))"
  shows "let line = field @ '':'' @ v; r' = addHeader r line (std_find (CHR '':'') line) in
    getHeader r' field = drop_trailing_space (skip_space v)
    \<and> trimmed (getHeader r' field)
    \<and> (\<forall>f. f \<noteq> field \<longrightarrow> getHeader r' f = getHeader r f)
    \<and> sorted_wrt (<) (map fst (headers r'))"
  using assms
  by (simp add: Let_def std_find_append getHeader_addHeader trimmed_trim) (simp add: addHeader_def)

theorem addHeader_getHeader_witness:
  "getHeader (addHeader new_HttpRequest ''Host: a '' (std_find (CHR '':'') ''Host: a '')) ''Host'' = ''a''"
proof -
  have h: "CHR '':'' \<notin> set ''Host''" "sorted_wrt (<) (map fst (headers new_HttpRequest))"
    by (simp_all add: new_HttpRequest_def)
  have v: "drop_trailing_space (skip_space '' a '') = ''a''" by code_simp
  show ?thesis using addHeader_getHeader [OF h, of "'' a ''"] unfolding v by (simp add: Let_def)
qed

end
