(* ===== verification/Ymuduo_HttpContext.thy ===== *)
theory Ymuduo_HttpContext
  imports Ymuduo_HttpRequest Ymuduo_Buffer
begin

text \<open>
  The incremental HTTP parser (\<^verbatim>\<open>src/http/HttpContext.h\<close>, \<^verbatim>\<open>src/http/HttpContext.cc\<close>).
  \<open>parseRequest\<close> is the loop of the source on a \<open>Buffer\<close>; it returns \<open>None\<close> when the loop does not
  end. \<open>parse_spec\<close> is the same protocol on the sequence of unread bytes, line by line; the loop
  is shown to return and to refine it, and the properties of the protocol are proved on
  \<open>parse_spec\<close>.
\<close>

section \<open>State and operations\<close>

datatype HttpRequestParseState = kExpectRequestLine | kExpectHeaders | kExpectBody | kGotAll

record HttpContext =
  parse_state :: HttpRequestParseState
  request :: HttpRequest

definition new_HttpContext :: HttpContext where
  "new_HttpContext = \<lparr>parse_state = kExpectRequestLine, request = new_HttpRequest\<rparr>"

definition gotAll :: "HttpContext \<Rightarrow> bool" where
  "gotAll c \<longleftrightarrow> parse_state c = kGotAll"

definition reset_HttpContext :: "HttpContext \<Rightarrow> HttpContext" where
  "reset_HttpContext c =
     c\<lparr>parse_state := kExpectRequestLine, request := fst (swap_HttpRequest (request c) new_HttpRequest)\<rparr>"

text \<open>\<open>line\<close> is the range from \<^verbatim>\<open>begin\<close> to \<^verbatim>\<open>end\<close>; a position in it is its offset. The target
  between the two blanks and the version after the second one are treated by \<open>requestTarget\<close> and
  \<open>requestVersion\<close>.\<close>

definition requestTarget :: "HttpRequest \<Rightarrow> string \<Rightarrow> HttpRequest" where
  "requestTarget r target =
     (let question = std_find (CHR ''?'') target
      in if question \<noteq> length target
         then setQuery (setPath r (take question target)) (drop question target)
         else setPath r target)"

definition requestVersion :: "HttpRequest \<Rightarrow> string \<Rightarrow> bool \<times> HttpRequest" where
  "requestVersion r ver =
     (if length ver = 8 \<and> take 7 ver = ''HTTP/1.''
      then if last ver = CHR ''1'' then (True, setVersion r kHttpV11)
           else if last ver = CHR ''0'' then (True, setVersion r kHttpV10)
           else (False, r)
      else (False, r))"

definition processRequestLine :: "HttpContext \<Rightarrow> string \<Rightarrow> http_error + (bool \<times> HttpContext)" where
  "processRequestLine c line =
     (let space = std_find (CHR '' '') line
      in if space = length line then Inr (False, c)
         else case setMethod (request c) (take space line) of
           Inl e \<Rightarrow> Inl e
         | Inr (okm, r1) \<Rightarrow>
             if \<not> okm then Inr (False, c\<lparr>request := r1\<rparr>)
             else let start = drop (Suc space) line;
                      space2 = std_find (CHR '' '') start
               in if space2 = length start then Inr (False, c\<lparr>request := r1\<rparr>)
                  else case requestVersion (requestTarget r1 (take space2 start)) (drop (Suc space2) start) of
                    (succeed, r2) \<Rightarrow> Inr (succeed, c\<lparr>request := r2\<rparr>))"

partial_function (option) parseRequest ::
  "Timestamp \<Rightarrow> HttpContext \<Rightarrow> Buffer \<Rightarrow> (http_error + (bool \<times> HttpContext \<times> Buffer)) option" where
  "parseRequest receive c buf =
     (if parse_state c = kExpectRequestLine then
        (case findCRLF buf of
           None \<Rightarrow> Some (Inr (True, c, buf))
         | Some crlf \<Rightarrow>
             (case processRequestLine c (subrange (peek buf) crlf (buffer buf)) of
                Inl e \<Rightarrow> Some (Inl e)
              | Inr (ok, c1) \<Rightarrow>
                  if ok then parseRequest receive
                       (c1\<lparr>request := setReceiveTime (request c1) receive, parse_state := kExpectHeaders\<rparr>)
                       (retrieveUntil buf (crlf + 2))
                  else Some (Inr (False, c1, buf))))
      else if parse_state c = kExpectHeaders then
        (case findCRLF buf of
           None \<Rightarrow> Some (Inr (True, c, buf))
         | Some crlf \<Rightarrow>
             (let line = subrange (peek buf) crlf (buffer buf); colon = std_find (CHR '':'') line
              in if colon \<noteq> length line
                 then parseRequest receive (c\<lparr>request := addHeader (request c) line colon\<rparr>)
                        (retrieveUntil buf (crlf + 2))
                 else Some (Inr (True, c\<lparr>parse_state := kGotAll\<rparr>, retrieveUntil buf (crlf + 2)))))
      else parseRequest receive c buf)"

section \<open>The protocol on byte sequences\<close>

definition next_line :: "string \<Rightarrow> (string \<times> string) option" where
  "next_line s = (let i = std_search kCRLF s in
     if i = length s then None else Some (take i s, drop (i + 2) s))"

lemma next_line_decreasing: "next_line s = Some (l, rest) \<Longrightarrow> length rest < length s"
proof -
  assume a: "next_line s = Some (l, rest)"
  then have "std_search kCRLF s \<noteq> length s" "rest = drop (std_search kCRLF s + 2) s"
    by (auto simp: next_line_def Let_def split: if_splits)
  moreover from this(1) have "std_search kCRLF s < length s"
    using std_search_le [of kCRLF s] by linarith
  ultimately show ?thesis by simp
qed

function parse_spec ::
  "Timestamp \<Rightarrow> HttpContext \<Rightarrow> string \<Rightarrow> http_error + (bool \<times> HttpContext \<times> string)" where
  "parse_spec receive c s =
     (case next_line s of
        None \<Rightarrow> Inr (True, c, s)
      | Some (line, rest) \<Rightarrow>
          if parse_state c = kExpectRequestLine
          then (case processRequestLine c line of
                  Inl e \<Rightarrow> Inl e
                | Inr (ok, c1) \<Rightarrow>
                    if ok then parse_spec receive
                      (c1\<lparr>request := setReceiveTime (request c1) receive, parse_state := kExpectHeaders\<rparr>) rest
                    else Inr (False, c1, s))
          else if CHR '':'' \<in> set line
          then parse_spec receive (c\<lparr>request := addHeader (request c) line (std_find (CHR '':'') line)\<rparr>) rest
          else Inr (True, c\<lparr>parse_state := kGotAll\<rparr>, rest))"
  by pat_completeness auto
termination
  by (relation "measure (\<lambda>(receive, c, s). length s)") (auto dest: next_line_decreasing)

declare parse_spec.simps [simp del]

definition parsing :: "HttpContext \<Rightarrow> bool" where
  "parsing c \<longleftrightarrow> parse_state c = kExpectRequestLine \<or> parse_state c = kExpectHeaders"

definition view_result ::
  "http_error + (bool \<times> HttpContext \<times> Buffer) \<Rightarrow> http_error + (bool \<times> HttpContext \<times> string)" where
  "view_result r = (case r of Inl e \<Rightarrow> Inl e | Inr (ok, c, b) \<Rightarrow> Inr (ok, c, readable b))"

text \<open>What a buffer needs for the parser: its invariant, and a vector below \<open>2 ^ 63\<close> bytes.\<close>

definition parse_buffer :: "Buffer \<Rightarrow> bool" where
  "parse_buffer b \<longleftrightarrow> buffer_inv b \<and> length (buffer b) < 2 ^ 63"

section \<open>The loop refines the protocol\<close>

lemma next_line_findCRLF:
  assumes "buffer_inv b"
  shows "next_line (readable b) = (case findCRLF b of None \<Rightarrow> None
    | Some crlf \<Rightarrow> Some (subrange (peek b) crlf (buffer b), drop (crlf - peek b + 2) (readable b)))"
proof -
  let ?i = "std_search kCRLF (readable b)"
  have "?i \<le> writerIndex b - readerIndex b"
    using std_search_le [of kCRLF "readable b"] length_readable [OF assms]
    unfolding readableBytes_def by linarith
  then have "take ?i (readable b) = subrange (peek b) (peek b + ?i) (buffer b)"
    by (simp add: readable_def [of b] subrange_def peek_def min_absorb1)
  then show ?thesis using assms
    by (simp add: findCRLF_readable next_line_def Let_def peek_def)
qed

lemma findCRLF_bounds: "buffer_inv b \<Longrightarrow> findCRLF b = Some p \<Longrightarrow> \<exists>i<length (readable b). p = readerIndex b + i"
  using std_search_le [of kCRLF "readable b"]
  by (auto simp: findCRLF_readable Let_def simp del: std_search_le split: if_splits)

lemma retrieveUntil_CRLF:
  assumes "parse_buffer b" "findCRLF b = Some crlf"
  shows "parse_buffer (retrieveUntil b (crlf + 2))"
    and "readable (retrieveUntil b (crlf + 2)) = drop (crlf - peek b + 2) (readable b)"
proof -
  obtain i where i: "i < length (readable b)" "crlf = readerIndex b + i"
    using findCRLF_bounds assms by (auto simp: parse_buffer_def)
  have "length (readable b) \<le> length (buffer b)" by (simp add: readable_def subrange_def)
  then have "i + 2 < 2 ^ 64" using i assms(1) by (simp add: parse_buffer_def)
  then have eq: "retrieveUntil b (crlf + 2) = retrieve b (i + 2)"
    using retrieveUntil_offset [of "i + 2" b] i(2) by (simp add: add.assoc)
  have "buffer (retrieve b (i + 2)) = buffer b" by (simp add: retrieve_def retrieveAll_def)
  then show "parse_buffer (retrieveUntil b (crlf + 2))"
    using assms(1) unfolding eq by (simp add: parse_buffer_def)
  show "readable (retrieveUntil b (crlf + 2)) = drop (crlf - peek b + 2) (readable b)"
    using assms(1) i(2) unfolding eq by (simp add: parse_buffer_def buf_simps peek_def)
qed

lemma parseRequest_line_state:
  "parse_state c = kExpectRequestLine \<Longrightarrow> parseRequest t c b =
    (case findCRLF b of None \<Rightarrow> Some (Inr (True, c, b)) | Some crlf \<Rightarrow>
      (case processRequestLine c (subrange (peek b) crlf (buffer b)) of Inl e \<Rightarrow> Some (Inl e)
       | Inr (ok, c1) \<Rightarrow>
           if ok then parseRequest t
             (c1\<lparr>request := setReceiveTime (request c1) t, parse_state := kExpectHeaders\<rparr>)
             (retrieveUntil b (crlf + 2))
           else Some (Inr (False, c1, b))))"
  by (subst parseRequest.simps) simp

lemma parseRequest_header_state:
  "parse_state c = kExpectHeaders \<Longrightarrow> parseRequest t c b =
    (case findCRLF b of None \<Rightarrow> Some (Inr (True, c, b)) | Some crlf \<Rightarrow>
      (let line = subrange (peek b) crlf (buffer b) in
       if CHR '':'' \<in> set line
       then parseRequest t (c\<lparr>request := addHeader (request c) line (std_find (CHR '':'') line)\<rparr>)
              (retrieveUntil b (crlf + 2))
       else Some (Inr (True, c\<lparr>parse_state := kGotAll\<rparr>, retrieveUntil b (crlf + 2)))))"
  by (subst parseRequest.simps) (simp add: Let_def std_find_eq_length_iff split: option.split)

lemmas parseRequest_states = parseRequest_line_state parseRequest_header_state

lemma processRequestLine_state:
  "processRequestLine c line = Inr (ok, c1) \<Longrightarrow> parse_state c1 = parse_state c"
  by (auto simp: processRequestLine_def Let_def split: if_splits sum.splits prod.splits)

lemma parseRequest_refines:
  assumes "parse_buffer b" "parsing c"
  shows "\<exists>r. parseRequest t c b = Some r \<and> view_result r = parse_spec t c (readable b)
    \<and> (\<forall>ok c' b'. r = Inr (ok, c', b') \<longrightarrow> parse_buffer b')"
  using assms
proof (induction t c "readable b" arbitrary: b rule: parse_spec.induct)
  case (1 t c b)
  note ps = parse_spec.simps [of t c "readable b"] and pr = parseRequest_states [of c t b]
  have inv: "buffer_inv b" using "1.prems"(1) by (simp add: parse_buffer_def)
  note nl = next_line_findCRLF [OF inv]
  show ?case
  proof (cases "findCRLF b")
    case None
    then show ?thesis using "1.prems" by (auto simp: ps pr nl parsing_def view_result_def)
  next
    case (Some crlf)
    let ?line = "subrange (peek b) crlf (buffer b)" and ?b' = "retrieveUntil b (crlf + 2)"
    note ru = retrieveUntil_CRLF [OF "1.prems"(1) Some]
    have nl': "next_line (readable b) = Some (?line, readable ?b')" by (simp only: nl Some ru(2) option.case)
    show ?thesis
    proof (cases "parse_state c = kExpectRequestLine")
      case req: True
      show ?thesis
      proof (cases "processRequestLine c ?line")
        case (Inl e)
        then show ?thesis using req Some by (simp add: ps pr nl' view_result_def)
      next
        case (Inr okc)
        obtain ok c1 where okc: "okc = (ok, c1)" by force
        show ?thesis
        proof (cases ok)
          case True
          let ?c1 = "c1\<lparr>request := setReceiveTime (request c1) t, parse_state := kExpectHeaders\<rparr>"
          have "\<exists>r. parseRequest t ?c1 ?b' = Some r \<and> view_result r = parse_spec t ?c1 (readable ?b')
              \<and> (\<forall>ok c' b'. r = Inr (ok, c', b') \<longrightarrow> parse_buffer b')"
            using "1.hyps"(1) [OF nl' refl req Inr okc [symmetric]] True ru(1) by (auto simp: parsing_def)
          then show ?thesis using req Some Inr okc True by (simp add: ps pr nl')
        next
          case False
          then show ?thesis using req Some Inr okc "1.prems"(1) by (simp add: ps pr nl' view_result_def)
        qed
      qed
    next
      case hdr: False
      then have st: "parse_state c = kExpectHeaders" using "1.prems"(2) by (simp add: parsing_def)
      show ?thesis
      proof (cases "CHR '':'' \<in> set ?line")
        case True
        let ?c1 = "c\<lparr>request := addHeader (request c) ?line (std_find (CHR '':'') ?line)\<rparr>"
        have "\<exists>r. parseRequest t ?c1 ?b' = Some r \<and> view_result r = parse_spec t ?c1 (readable ?b')
            \<and> (\<forall>ok c' b'. r = Inr (ok, c', b') \<longrightarrow> parse_buffer b')"
          using "1.hyps"(2) [OF nl' refl hdr True] ru(1) st by (simp add: parsing_def)
        then show ?thesis using st Some True
          by (simp add: ps pr nl' Let_def)
      next
        case False
        then show ?thesis using st Some ru(1) by (simp add: ps pr nl' Let_def view_result_def)
      qed
    qed
  qed
qed

section \<open>Resuming a parse\<close>

text \<open>A request's time stamp is the time of the read that completed its request line; the other
  fields do not depend on when the bytes arrived.\<close>

definition forget_time :: "HttpContext \<Rightarrow> HttpContext" where
  "forget_time c = c\<lparr>request := (request c)\<lparr>receiveTime := invalid\<rparr>\<rparr>"

definition forget_result ::
  "http_error + (bool \<times> HttpContext \<times> string) \<Rightarrow> http_error + (bool \<times> HttpContext \<times> string)" where
  "forget_result r = (case r of Inl e \<Rightarrow> Inl e | Inr (ok, c, s) \<Rightarrow> Inr (ok, forget_time c, s))"

lemma forget_time_sel [simp]:
  "parse_state (forget_time c) = parse_state c"
  "request (forget_time c) = (request c)\<lparr>receiveTime := invalid\<rparr>"
  by (simp_all add: forget_time_def)

lemma forget_time_setReceiveTime [simp]:
  "forget_time (c\<lparr>request := setReceiveTime r t, parse_state := st\<rparr>)
   = forget_time (c\<lparr>request := r, parse_state := st\<rparr>)"
  by (simp add: forget_time_def setReceiveTime_def)

lemma requestVersion_time:
  "requestVersion (r\<lparr>receiveTime := t\<rparr>) v
   = (case requestVersion r v of (ok, r') \<Rightarrow> (ok, r'\<lparr>receiveTime := t\<rparr>))"
  by (simp add: requestVersion_def setVersion_def)

lemma requestTarget_time: "requestTarget (r\<lparr>receiveTime := t\<rparr>) v = (requestTarget r v)\<lparr>receiveTime := t\<rparr>"
  by (simp add: requestTarget_def setPath_def setQuery_def Let_def)

lemma setMethod_time:
  "setMethod (r\<lparr>receiveTime := t\<rparr>) m
   = (case setMethod r m of Inl e \<Rightarrow> Inl e | Inr (ok, r') \<Rightarrow> Inr (ok, r'\<lparr>receiveTime := t\<rparr>))"
  by (simp add: setMethod_def Let_def)

lemma processRequestLine_forget:
  "processRequestLine (forget_time c) line
   = (case processRequestLine c line of Inl e \<Rightarrow> Inl e | Inr (ok, c') \<Rightarrow> Inr (ok, forget_time c'))"
  by (auto simp: processRequestLine_def Let_def setMethod_time requestTarget_time requestVersion_time
      forget_time_def split: sum.splits prod.splits)

lemma addHeader_forget:
  "addHeader (r\<lparr>receiveTime := t\<rparr>) line k = (addHeader r line k)\<lparr>receiveTime := t\<rparr>"
  by (simp add: addHeader_def Let_def)

lemma forget_time_eq_iff:
  "forget_time c = forget_time d \<longleftrightarrow> parse_state c = parse_state d
     \<and> (request c)\<lparr>receiveTime := invalid\<rparr> = (request d)\<lparr>receiveTime := invalid\<rparr>"
  by (cases c; cases d) (simp add: forget_time_def)

lemma forget_time_update:
  assumes "forget_time c = forget_time d"
  shows "forget_time (c\<lparr>request := addHeader (request c) line k\<rparr>)
    = forget_time (d\<lparr>request := addHeader (request d) line k\<rparr>)"
  using assms addHeader_forget [of invalid "request c" line k]
    addHeader_forget [of invalid "request d" line k]
  by (simp add: forget_time_eq_iff)

lemma parse_spec_time:
  assumes "forget_time c = forget_time d"
  shows "forget_result (parse_spec t c s) = forget_result (parse_spec u d s)"
  using assms
proof (induction t c s arbitrary: d rule: parse_spec.induct)
  case (1 t c s)
  note eq = parse_spec.simps [of t c s] parse_spec.simps [of u d s]
  have st: "parse_state c = parse_state d" using "1.prems" by (simp add: forget_time_eq_iff)
  show ?case
  proof (cases "next_line s")
    case None
    then show ?thesis using "1.prems" by (simp add: eq forget_result_def)
  next
    case (Some lr)
    obtain line rest where lr: "lr = (line, rest)" by force
    show ?thesis
    proof (cases "parse_state c = kExpectRequestLine")
      case req: True
      have "processRequestLine (forget_time c) line = processRequestLine (forget_time d) line"
        using "1.prems" by simp
      then consider e where "processRequestLine c line = Inl e" "processRequestLine d line = Inl e"
        | ok c1 d1 where "processRequestLine c line = Inr (ok, c1)" "processRequestLine d line = Inr (ok, d1)"
            "forget_time c1 = forget_time d1"
        unfolding processRequestLine_forget by (auto split: sum.splits prod.splits)
      then show ?thesis
      proof cases
        case 1
        then show ?thesis using req st Some lr by (simp add: eq)
      next
        case (2 ok c1 d1)
        then show ?thesis using req st Some lr "1.IH"(1) [OF Some lr [symmetric] req 2(1) refl]
          by (auto simp: eq forget_result_def [of "Inr _"] forget_time_eq_iff setReceiveTime_def)
      qed
    next
      case hdr: False
      show ?thesis
      proof (cases "CHR '':'' \<in> set line")
        case True
        then show ?thesis
          using "1.IH"(2) [OF Some lr [symmetric] hdr True forget_time_update [OF "1.prems"]] hdr st Some lr
          by (simp add: eq)
      next
        case False
        then show ?thesis using hdr st Some lr "1.prems"
          by (simp add: eq forget_result_def forget_time_eq_iff)
      qed
    qed
  qed
qed

lemma next_line_append:
  assumes "next_line s = Some (line, rest)"
  shows "next_line (s @ z) = Some (line, rest @ z)"
proof -
  let ?i = "std_search kCRLF s"
  have i: "?i \<noteq> length s" "line = take ?i s" "rest = drop (?i + 2) s"
    using assms by (auto simp: next_line_def Let_def split: if_splits)
  then have lt: "?i < length s" using std_search_le [of kCRLF s] by linarith
  then have "length kCRLF \<le> length (drop ?i s)" by (intro prefix_length_le std_search_prefix)
  then have "?i + 2 \<le> length s" using lt by simp
  with i lt show ?thesis by (simp add: next_line_def Let_def std_search_append)
qed

lemma parse_spec_resume:
  assumes "parse_spec t c a = Inr (True, c', rest)" "parsing c" "\<not> gotAll c'"
  shows "parse_spec t c (a @ z) = parse_spec t c' (rest @ z)"
  using assms
proof (induction t c a rule: parse_spec.induct)
  case (1 t c a)
  show ?case
  proof (cases "next_line a")
    case None
    with "1.prems"(1) show ?thesis by (simp add: parse_spec.simps [of t c a])
  next
    case (Some lr)
    obtain line rest1 where lr: "lr = (line, rest1)" by force
    note nl = Some [unfolded lr]
    note eq = parse_spec.simps [of t c a] parse_spec.simps [of t c "a @ z"] next_line_append [OF nl, of z] nl
    show ?thesis
    proof (cases "parse_state c = kExpectRequestLine")
      case req: True
      then obtain ok c1 where pl: "processRequestLine c line = Inr (ok, c1)"
        using "1.prems"(1) by (cases "processRequestLine c line") (auto simp: eq)
      then have ok: "ok" using "1.prems"(1) req by (auto simp: eq split: if_splits)
      show ?thesis
        using "1.IH"(1) [OF Some lr [symmetric] req pl refl ok] "1.prems" pl ok req
        by (simp add: eq parsing_def)
    next
      case hdr: False
      show ?thesis
      proof (cases "CHR '':'' \<in> set line")
        case True
        then show ?thesis using "1.IH"(2) [OF Some lr [symmetric] hdr True] "1.prems" hdr
          by (simp add: eq parsing_def)
      next
        case False
        then show ?thesis using "1.prems" hdr by (auto simp: eq gotAll_def)
      qed
    qed
  qed
qed

section \<open>Well-formed requests\<close>

definition request_text :: "string \<Rightarrow> string \<Rightarrow> string \<Rightarrow> (string \<times> string) list \<Rightarrow> string" where
  "request_text m target ver hs =
     (m @ '' '' @ target @ '' '' @ ver) @ kCRLF @
     concat (map (\<lambda>(f, v). (f @ '': '' @ v) @ kCRLF) hs) @ kCRLF"

definition good_header :: "string \<times> string \<Rightarrow> bool" where
  "good_header = (\<lambda>(f, v). CHR '':'' \<notin> set f \<and> CHR 0x0D \<notin> set f \<and> CHR 0x0D \<notin> set v \<and> trimmed v)"

definition known_methods :: "string list" where
  "known_methods = [''GET'', ''POST'', ''HEAD'', ''PUT'', ''DELETE'']"

definition good_target :: "string \<Rightarrow> bool" where
  "good_target u \<longleftrightarrow> CHR '' '' \<notin> set u \<and> CHR 0x0D \<notin> set u"

lemma next_line_text:
  assumes "CHR 0x0D \<notin> set l"
  shows "next_line (l @ kCRLF @ rest) = Some (l, rest)"
proof -
  have "std_search kCRLF (l @ kCRLF @ rest) = length l"
  proof (rule std_search_unique)
    show "\<not> prefix kCRLF (drop j (l @ kCRLF @ rest))" if "j < length l" for j
    proof -
      have "drop j (l @ kCRLF @ rest) = l ! j # drop (Suc j) l @ kCRLF @ rest"
        using that by (simp add: Cons_nth_drop_Suc [symmetric])
      moreover have "l ! j \<noteq> CHR 0x0D" using assms that by (metis nth_mem)
      ultimately show ?thesis by (simp add: kCRLF_def)
    qed
  qed (simp_all add: kCRLF_def)
  then show ?thesis by (simp add: next_line_def)
qed

lemma addHeader_line:
  assumes "good_header (f, v)"
  shows "addHeader r (f @ '': '' @ v) (std_find (CHR '':'') (f @ '': '' @ v))
    = r\<lparr>headers := map_assign f v (headers r)\<rparr>"
  using assms std_find_append [of "CHR '':''" f "'' '' @ v"]
  by (simp add: addHeader_def good_header_def isspace_def Let_def)

lemma parse_headers:
  assumes "parse_state c = kExpectHeaders" "\<forall>h \<in> set hs. good_header h"
  shows "parse_spec t c (concat (map (\<lambda>(f, v). (f @ '': '' @ v) @ kCRLF) hs) @ kCRLF @ rest)
    = Inr (True, c\<lparr>parse_state := kGotAll,
        request := (request c)\<lparr>headers := foldl (\<lambda>m (f, v). map_assign f v m) (headers (request c)) hs\<rparr>\<rparr>, rest)"
  using assms
proof (induction hs arbitrary: c)
  case Nil
  then show ?case using next_line_text [of "[]" rest]
    by (subst parse_spec.simps) (simp add: std_find_def)
next
  case (Cons h hs)
  obtain f v where h: "h = (f, v)" by force
  let ?tail = "concat (map (\<lambda>(f, v). (f @ '': '' @ v) @ kCRLF) hs) @ kCRLF @ rest"
  have g: "good_header (f, v)" using Cons.prems(2) h by simp
  then have "CHR 0x0D \<notin> set (f @ '': '' @ v)" by (auto simp: good_header_def)
  from next_line_text [OF this, of ?tail]
  have "next_line ((f @ '': '' @ v) @ kCRLF @ ?tail) = Some (f @ '': '' @ v, ?tail)" .
  then show ?case using Cons h addHeader_line [OF g]
    by (subst parse_spec.simps) simp
qed

lemma setMethod_known:
  assumes "http_method r0 = kInvalid" "m \<in> set known_methods"
  shows "\<exists>mt. methodString (r\<lparr>http_method := mt\<rparr>) = m
    \<and> setMethod r0 m = Inr (True, r0\<lparr>http_method := mt\<rparr>)"
proof -
  define mt where "mt = (if m = ''GET'' then kGet else if m = ''POST'' then kPost
    else if m = ''HEAD'' then kHead else if m = ''PUT'' then kPut else kDelete)"
  have "m = ''GET'' \<or> m = ''POST'' \<or> m = ''HEAD'' \<or> m = ''PUT'' \<or> m = ''DELETE''"
    using assms(2) by (simp add: known_methods_def)
  then have "methodString (r\<lparr>http_method := mt\<rparr>) = m
      \<and> setMethod r0 m = Inr (True, r0\<lparr>http_method := mt\<rparr>)"
    using assms(1) by (elim disjE) (simp_all add: mt_def setMethod_def methodString_def)
  then show ?thesis by blast
qed

lemma processRequestLine_good:
  assumes "http_method (request c) = kInvalid" "m \<in> set known_methods" "CHR '' '' \<notin> set target"
    "ver = ''HTTP/1.0'' \<or> ver = ''HTTP/1.1''"
  shows "\<exists>mt. methodString (r\<lparr>http_method := mt\<rparr>) = m \<and>
    processRequestLine c (m @ '' '' @ target @ '' '' @ ver)
    = Inr (True, c\<lparr>request := (request c)\<lparr>http_method := mt,
        path := take (std_find (CHR ''?'') target) target,
        query := (if CHR ''?'' \<in> set target then drop (std_find (CHR ''?'') target) target else query (request c)),
        version := (if ver = ''HTTP/1.1'' then kHttpV11 else kHttpV10)\<rparr>\<rparr>)"
proof -
  have "CHR '' '' \<notin> set m" using assms(2) by (auto simp: known_methods_def)
  then have sp: "std_find (CHR '' '') (m @ '' '' @ target @ '' '' @ ver) = length m"
    "std_find (CHR '' '') (target @ '' '' @ ver) = length target"
    using assms(3) std_find_append [of "CHR '' ''" m "target @ '' '' @ ver"]
      std_find_append [of "CHR '' ''" target ver] by simp_all
  obtain mt where mt: "methodString (r\<lparr>http_method := mt\<rparr>) = m"
    "setMethod (request c) m = Inr (True, (request c)\<lparr>http_method := mt\<rparr>)"
    using setMethod_known [OF assms(1,2)] by blast
  have "requestVersion r' ver = (True, r'\<lparr>version := (if ver = ''HTTP/1.1'' then kHttpV11 else kHttpV10)\<rparr>)" for r'
    using assms(4) by (auto simp: requestVersion_def setVersion_def numeral_eq_Suc)
  then have "processRequestLine c (m @ '' '' @ target @ '' '' @ ver)
      = Inr (True, c\<lparr>request := (requestTarget ((request c)\<lparr>http_method := mt\<rparr>) target)
          \<lparr>version := (if ver = ''HTTP/1.1'' then kHttpV11 else kHttpV10)\<rparr>\<rparr>)"
    by (simp add: processRequestLine_def sp [simplified] mt(2))
  with mt(1) show ?thesis
    by (auto simp: requestTarget_def setPath_def setQuery_def Let_def std_find_eq_length_iff)
qed

lemma map_of_foldl_assign:
  "map_of (foldl (\<lambda>m (f, v). map_assign f v m) m0 hs) = map_of m0 ++ map_of (rev hs)"
  by (induction hs arbitrary: m0) (auto simp: map_add_def fun_eq_iff split: option.splits)

lemma parse_spec_request_text:
  assumes "m \<in> set known_methods" "good_target target"
    "ver = ''HTTP/1.0'' \<or> ver = ''HTTP/1.1''" "\<forall>h \<in> set hs. good_header h"
  shows "\<exists>c'. parse_spec t new_HttpContext (request_text m target ver hs @ rest) = Inr (True, c', rest)
    \<and> gotAll c' \<and> methodString (request c') = m \<and> receiveTime (request c') = t
    \<and> version (request c') = (if ver = ''HTTP/1.1'' then kHttpV11 else kHttpV10)
    \<and> path (request c') @ query (request c') = target \<and> CHR ''?'' \<notin> set (path (request c'))
    \<and> (\<forall>f. getHeader (request c') f = (case map_of (rev hs) f of Some v \<Rightarrow> v | None \<Rightarrow> ''''))"
proof -
  define line where "line = m @ '' '' @ target @ '' '' @ ver"
  define tail where "tail = concat (map (\<lambda>(f, v). (f @ '': '' @ v) @ kCRLF) hs) @ kCRLF @ rest"
  have cr: "CHR 0x0D \<notin> set line"
    using assms(1-3) by (auto simp: line_def known_methods_def good_target_def)
  have text_eq: "request_text m target ver hs @ rest = line @ kCRLF @ tail" by (simp add: request_text_def line_def tail_def)
  have c0: "parse_state new_HttpContext = kExpectRequestLine" "http_method (request new_HttpContext) = kInvalid"
    "query (request new_HttpContext) = ''''" "headers (request new_HttpContext) = []"
    by (simp_all add: new_HttpContext_def new_HttpRequest_def)
  obtain mt where mt: "methodString (new_HttpRequest\<lparr>http_method := mt\<rparr>) = m"
    and pl: "processRequestLine new_HttpContext line
      = Inr (True, new_HttpContext\<lparr>request := (request new_HttpContext)\<lparr>http_method := mt,
          path := take (std_find (CHR ''?'') target) target,
          query := (if CHR ''?'' \<in> set target then drop (std_find (CHR ''?'') target) target else ''''),
          version := (if ver = ''HTTP/1.1'' then kHttpV11 else kHttpV10)\<rparr>\<rparr>)"
    using processRequestLine_good [OF c0(2) assms(1) _ assms(3), of target new_HttpRequest] assms(2) c0(3)
    by (auto simp: good_target_def line_def)
  note ph = parse_headers [OF _ assms(4), of _ t rest, folded tail_def]
  have q: "take (std_find (CHR ''?'') target) target
      @ (if CHR ''?'' \<in> set target then drop (std_find (CHR ''?'') target) target else '''') = target"
    by simp
  have nq: "CHR ''?'' \<notin> set (take (std_find (CHR ''?'') target) target)"
    unfolding std_find_def takeWhile_eq_take [symmetric] by (auto dest: set_takeWhileD)
  let ?hm = "foldl (\<lambda>m (f, v). map_assign f v m) [] hs"
  have "\<exists>c'. parse_spec t new_HttpContext (line @ kCRLF @ tail) = Inr (True, c', rest)
      \<and> parse_state c' = kGotAll \<and> http_method (request c') = mt \<and> receiveTime (request c') = t
      \<and> version (request c') = (if ver = ''HTTP/1.1'' then kHttpV11 else kHttpV10)
      \<and> path (request c') @ query (request c') = target \<and> CHR ''?'' \<notin> set (path (request c'))
      \<and> headers (request c') = ?hm"
    using q nq c0 next_line_text [OF cr, of tail]
    by (subst parse_spec.simps) (simp add: pl ph setReceiveTime_def)
  then show ?thesis using mt unfolding text_eq
    by (elim exE) (auto simp: gotAll_def methodString_def getHeader_def map_of_foldl_assign)
qed

lemma parse_spec_parsing:
  "parse_spec t c s = Inr (ok, c', rest) \<Longrightarrow> parsing c \<Longrightarrow> parsing c' \<or> parse_state c' = kGotAll"
proof (induction t c s rule: parse_spec.induct)
  case (1 t c s)
  show ?case
    using "1.prems" "1.IH"
    by (fastforce simp: parse_spec.simps [of t c s] parsing_def dest: processRequestLine_state
        split: option.splits if_splits sum.splits prod.splits)
qed

lemma next_line_suffix: "next_line s = Some (l, rest) \<Longrightarrow> suffix rest s"
  by (auto simp: next_line_def Let_def suffix_drop split: if_splits)

lemma parse_spec_suffix: "parse_spec t c s = Inr (ok, c', rest) \<Longrightarrow> suffix rest s"
proof (induction t c s rule: parse_spec.induct)
  case (1 t c s)
  show ?case
  proof (cases "next_line s")
    case None
    then show ?thesis using "1.prems" by (simp add: parse_spec.simps [of t c s])
  next
    case (Some lr)
    obtain line s1 where lr: "lr = (line, s1)" by force
    then have "suffix s1 s" using Some next_line_suffix by blast
    then show ?thesis
      using "1.prems" "1.IH" [OF Some lr [symmetric]] Some lr
      by (force simp: parse_spec.simps [of t c s] dest: suffix_order.trans
          split: if_splits sum.splits prod.splits)
  qed
qed

lemma parseRequest_returns_parsing:
  assumes ret: "parseRequest t c b = Some r"
  shows "parsing c"
proof (rule parseRequest.raw_induct [where P = "\<lambda>t c b r. parsing c", OF _ ret])
  fix f :: "Timestamp \<Rightarrow> HttpContext \<Rightarrow> Buffer \<Rightarrow> (http_error + (bool \<times> HttpContext \<times> Buffer)) option"
    and t c b r
  assume IH: "\<And>t c b r. f t c b = Some r \<Longrightarrow> parsing c"
  show "parsing c" if "(if parse_state c = kExpectRequestLine then
        (case findCRLF b of None \<Rightarrow> Some (Inr (True, c, b)) | Some crlf \<Rightarrow>
             (case processRequestLine c (subrange (peek b) crlf (buffer b)) of Inl e \<Rightarrow> Some (Inl e)
              | Inr (ok, c1) \<Rightarrow>
                  if ok then f t
                       (c1\<lparr>request := setReceiveTime (request c1) t, parse_state := kExpectHeaders\<rparr>)
                       (retrieveUntil b (crlf + 2))
                  else Some (Inr (False, c1, b))))
      else if parse_state c = kExpectHeaders then
        (case findCRLF b of None \<Rightarrow> Some (Inr (True, c, b)) | Some crlf \<Rightarrow>
             (let line = subrange (peek b) crlf (buffer b); colon = std_find (CHR '':'') line
              in if colon \<noteq> length line
                 then f t (c\<lparr>request := addHeader (request c) line colon\<rparr>) (retrieveUntil b (crlf + 2))
                 else Some (Inr (True, c\<lparr>parse_state := kGotAll\<rparr>, retrieveUntil b (crlf + 2)))))
      else f t c b) = Some r"
    using that IH by (auto simp: parsing_def split: if_splits)
qed

lemma processRequestLine_assert:
  assumes "processRequestLine c line = Inr (False, c1)" "http_method (request c1) \<noteq> kInvalid"
    "http_method (request c) = kInvalid"
  shows "processRequestLine c1 line = Inl AssertFailed"
proof -
  have "std_find (CHR '' '') line \<noteq> length line"
    using assms by (auto simp: processRequestLine_def Let_def)
  then show ?thesis using assms(2) by (simp add: processRequestLine_def setMethod_def)
qed

lemma parse_spec_fails_only_on_line:
  "parse_spec t c s = Inr (False, c1, s1) \<Longrightarrow> parsing c \<Longrightarrow>
   s1 = s \<and> parse_state c = kExpectRequestLine \<and> parse_state c1 = kExpectRequestLine
   \<and> (\<exists>line rest. next_line s = Some (line, rest) \<and> processRequestLine c line = Inr (False, c1))"
proof (induction t c s rule: parse_spec.induct)
  case (1 t c s)
  note eq = parse_spec.simps [of t c s]
  obtain line rest where nl: "next_line s = Some (line, rest)"
    using "1.prems"(1) by (cases "next_line s") (auto simp: eq)
  show ?case
  proof (cases "parse_state c = kExpectRequestLine")
    case req: True
    obtain ok c2 where pl: "processRequestLine c line = Inr (ok, c2)"
      using "1.prems"(1) nl req by (cases "processRequestLine c line") (auto simp: eq)
    show ?thesis
    proof (cases ok)
      case True
      then have "parse_spec t (c2\<lparr>request := setReceiveTime (request c2) t, parse_state := kExpectHeaders\<rparr>) rest
          = Inr (False, c1, s1)"
        using "1.prems"(1) nl req pl by (simp add: eq)
      then show ?thesis using "1.IH"(1) [OF nl refl req pl refl True] by (simp add: parsing_def)
    next
      case False
      then show ?thesis using "1.prems"(1) nl req pl processRequestLine_state [OF pl] by (simp add: eq)
    qed
  next
    case hdr: False
    then have st: "parse_state c = kExpectHeaders" using "1.prems"(2) by (simp add: parsing_def)
    show ?thesis
    proof (cases "CHR '':'' \<in> set line")
      case True
      then show ?thesis using "1.IH"(2) [OF nl refl hdr True] "1.prems"(1) nl st
        by (simp add: eq parsing_def)
    qed (use "1.prems"(1) nl hdr in \<open>simp add: eq\<close>)
  qed
qed

lemma parse_buffer_append:
  assumes "buffer_inv b" "length (buffer b) + length s < 2 ^ 63"
  shows "parse_buffer (append_buf b s)"
  using assms length_append_buf [OF assms(1), of s] by (simp add: parse_buffer_def)

lemma parse_buffer_of_string: "n + length s < 2 ^ 60 \<Longrightarrow> parse_buffer (append_buf (new_Buffer n) s)"
  by (rule parse_buffer_append [OF new_Buffer_inv]) (simp add: new_Buffer_def kCheapPrepend_def)

lemma parsing_new [simp]: "parsing new_HttpContext"
  by (simp add: parsing_def new_HttpContext_def)

section \<open>Properties\<close>

text \<open>C4: \<^verbatim>\<open>parseRequest\<close> returns, for every buffer content, when it is entered while expecting a
  request line or headers: its result is that of the line protocol on the unread bytes, and what it
  leaves unread is a suffix of what was there (no byte is skipped, invented or put back).\<close>

theorem parseRequest_terminates:
  assumes "parse_buffer b" "parsing c"
  shows "\<exists>r. parseRequest t c b = Some r \<and> view_result r = parse_spec t c (readable b)
    \<and> (\<forall>ok c' b'. r = Inr (ok, c', b') \<longrightarrow> parse_buffer b' \<and> suffix (readable b') (readable b))"
proof -
  obtain r where r: "parseRequest t c b = Some r" "view_result r = parse_spec t c (readable b)"
    "\<forall>ok c' b'. r = Inr (ok, c', b') \<longrightarrow> parse_buffer b'"
    using parseRequest_refines [OF assms] by blast
  have "suffix (readable b') (readable b)" if "r = Inr (ok, c', b')" for ok c' b'
    using r(2) that by (intro parse_spec_suffix [of t c "readable b" ok c']) (simp add: view_result_def)
  with r show ?thesis by blast
qed

theorem parseRequest_terminates_witness:
  "parse_buffer (append_buf (new_Buffer 16) ''GET /'') \<and> parsing new_HttpContext
   \<and> (\<exists>r. parseRequest (Timestamp 1) new_HttpContext (append_buf (new_Buffer 16) ''GET /'') = Some r)"
proof -
  have h: "parse_buffer (append_buf (new_Buffer 16) ''GET /'')" by (simp add: parse_buffer_of_string)
  show ?thesis using h parseRequest_terminates [OF h parsing_new, of "Timestamp 1"] by auto
qed

text \<open>Entered in the state \<^verbatim>\<open>kGotAll\<close> or \<^verbatim>\<open>kExpectBody\<close> the loop of \<^verbatim>\<open>parseRequest\<close> has no branch
  that clears \<^verbatim>\<open>hasMore\<close>, so it does not return; it returns exactly in the other two states. The
  caller has to reset the context after each complete request.\<close>

theorem parseRequest_returns_iff:
  assumes "parse_buffer b"
  shows "parseRequest t c b \<noteq> None \<longleftrightarrow> parse_state c \<notin> {kExpectBody, kGotAll}"
proof -
  have "parsing c \<longleftrightarrow> parse_state c \<notin> {kExpectBody, kGotAll}"
    by (cases "parse_state c") (simp_all add: parsing_def)
  then show ?thesis
    using parseRequest_refines [OF assms, of c t] parseRequest_returns_parsing [of t c b] by fastforce
qed

theorem parseRequest_returns_iff_witness:
  "parse_buffer (append_buf (new_Buffer 16) '''')
   \<and> parseRequest (Timestamp 1) (new_HttpContext\<lparr>parse_state := kGotAll\<rparr>) (append_buf (new_Buffer 16) '''') = None"
proof -
  have h: "parse_buffer (append_buf (new_Buffer 16) '''')" by (simp add: parse_buffer_of_string)
  show ?thesis
    using h parseRequest_returns_iff [OF h, of "Timestamp 1" "new_HttpContext\<lparr>parse_state := kGotAll\<rparr>"] by simp
qed

text \<open>C17: a well-formed request, followed by anything, is parsed completely from a fresh context:
  method, version, path and query, receive time and every header come out as they were written (the
  last one for a repeated field), and exactly the bytes after the blank line stay unread.\<close>

theorem parseRequest_roundtrip:
  assumes "parse_buffer b" "readable b = request_text m target ver hs @ rest"
    "m \<in> set known_methods" "good_target target" "ver = ''HTTP/1.0'' \<or> ver = ''HTTP/1.1''"
    "\<forall>h \<in> set hs. good_header h"
  shows "\<exists>c' b'. parseRequest t new_HttpContext b = Some (Inr (True, c', b')) \<and> readable b' = rest
    \<and> gotAll c' \<and> methodString (request c') = m \<and> receiveTime (request c') = t
    \<and> version (request c') = (if ver = ''HTTP/1.1'' then kHttpV11 else kHttpV10)
    \<and> path (request c') @ query (request c') = target \<and> CHR ''?'' \<notin> set (path (request c'))
    \<and> (\<forall>f. getHeader (request c') f = (case map_of (rev hs) f of Some v \<Rightarrow> v | None \<Rightarrow> ''''))"
proof -
  obtain r where r: "parseRequest t new_HttpContext b = Some r"
    "view_result r = parse_spec t new_HttpContext (request_text m target ver hs @ rest)"
    using parseRequest_refines [OF assms(1) parsing_new, of t] assms(2) by auto
  then show ?thesis using parse_spec_request_text [OF assms(3-6), of t rest]
    by (fastforce simp: view_result_def split: sum.splits prod.splits)
qed

theorem parseRequest_roundtrip_witness:
  "\<exists>c' b'. parseRequest (Timestamp 7) new_HttpContext
      (append_buf (new_Buffer 64) (request_text ''GET'' ''/a?b=1'' ''HTTP/1.1'' [(''Host'', ''x'')] @ ''next''))
      = Some (Inr (True, c', b')) \<and> readable b' = ''next'' \<and> getHeader (request c') ''Host'' = ''x''"
proof -
  let ?s = "request_text ''GET'' ''/a?b=1'' ''HTTP/1.1'' [(''Host'', ''x'')] @ ''next''"
  have "length ?s = 36" by (simp add: request_text_def)
  then have h: "parse_buffer (append_buf (new_Buffer 64) ?s)" by (intro parse_buffer_of_string) simp
  have rd: "readable (append_buf (new_Buffer 64) ?s) = ?s" by (simp add: buf_simps)
  have g: "''GET'' \<in> set known_methods" "good_target ''/a?b=1''" "\<forall>h \<in> set [(''Host'', ''x'')]. good_header h"
    by (simp_all add: known_methods_def good_target_def good_header_def trimmed_def isspace_def)
  show ?thesis using parseRequest_roundtrip [OF h rd g(1,2) _ g(3), of "Timestamp 7"] by fastforce
qed

text \<open>C21: parsing is incremental. If the bytes so far leave the request incomplete, then appending
  more bytes and calling \<^verbatim>\<open>parseRequest\<close> again on the saved context and buffer gives the result
  (verdict, request, unread bytes) that one call on all the bytes gives; only the receive time may
  differ.\<close>

theorem parseRequest_incremental:
  assumes "parse_buffer b" "parsing c" "parseRequest t c b = Some (Inr (True, c1, b1))" "\<not> gotAll c1"
    "length (buffer b) + length later < 2 ^ 63" "length (buffer b1) + length later < 2 ^ 63"
  shows "\<exists>r1 r2. parseRequest u c1 (append_buf b1 later) = Some r1
    \<and> parseRequest t c (append_buf b later) = Some r2
    \<and> forget_result (view_result r1) = forget_result (view_result r2)"
proof -
  have inv: "buffer_inv b" "parse_buffer b1"
    using assms(1) parseRequest_refines [OF assms(1,2), of t] assms(3) by (auto simp: parse_buffer_def)
  have p1: "parse_spec t c (readable b) = Inr (True, c1, readable b1)"
    using parseRequest_refines [OF assms(1,2), of t] assms(3) by (auto simp: view_result_def)
  have inv1: "buffer_inv b1" using inv(2) by (simp add: parse_buffer_def)
  have pc1: "parsing c1"
    using parse_spec_parsing [OF p1 assms(2)] assms(4) by (auto simp: gotAll_def)
  obtain r1 where r1: "parseRequest u c1 (append_buf b1 later) = Some r1"
    "view_result r1 = parse_spec u c1 (readable b1 @ later)"
    using parseRequest_refines [OF parse_buffer_append [OF inv1 assms(6)] pc1, of u] inv1
    by (auto simp: buf_simps)
  obtain r2 where r2: "parseRequest t c (append_buf b later) = Some r2"
    "view_result r2 = parse_spec t c (readable b @ later)"
    using parseRequest_refines [OF parse_buffer_append [OF inv(1) assms(5)] assms(2), of t] inv(1)
    by (auto simp: buf_simps)
  have "forget_result (view_result r1) = forget_result (view_result r2)"
    using parse_spec_time [of c1 c1 u "readable b1 @ later" t] parse_spec_resume [OF p1 assms(2,4), of later]
    by (simp add: r1(2) r2(2))
  with r1 r2 show ?thesis by blast
qed

theorem parseRequest_incremental_witness:
  "\<exists>r1 r2. parseRequest (Timestamp 2) new_HttpContext (append_buf (append_buf (new_Buffer 64) ''GE'') ''T / HTTP/1.1'') = Some r1
    \<and> parseRequest (Timestamp 1) new_HttpContext (append_buf (append_buf (new_Buffer 64) ''GE'') ''T / HTTP/1.1'') = Some r2
    \<and> forget_result (view_result r1) = forget_result (view_result r2)"
proof -
  let ?b = "append_buf (new_Buffer 64) ''GE''"
  have h: "parse_buffer ?b" by (simp add: parse_buffer_of_string)
  have "findCRLF ?b = None"
    by (simp add: findCRLF_readable buf_simps kCRLF_def)
  then have p: "parseRequest (Timestamp 1) new_HttpContext ?b = Some (Inr (True, new_HttpContext, ?b))"
    by (simp add: parseRequest_line_state new_HttpContext_def)
  have l: "length (buffer ?b) + length ''T / HTTP/1.1'' < 2 ^ 63"
    by (simp add: append_buf_def new_Buffer_def ensureWritableBytes_def writableBytes_def
        kCheapPrepend_def beginWrite_def std_copy_def Let_def)
  have g: "\<not> gotAll new_HttpContext" by (simp add: gotAll_def new_HttpContext_def)
  show ?thesis by (rule parseRequest_incremental [OF h parsing_new p g l l])
qed

text \<open>A request line whose method is known but whose rest is not acceptable makes
  \<^verbatim>\<open>parseRequest\<close> fail with the line left in the buffer and the method left in the context. Since
  nothing resets the context, the next call on that connection, whatever bytes have arrived, stops the
  process at \<^verbatim>\<open>assert(method_ == kInvalid)\<close> in \<^verbatim>\<open>setMethod\<close>.\<close>

theorem bad_request_aborts_next_parse:
  assumes "parse_buffer b" "parseRequest t new_HttpContext b = Some (Inr (False, c1, b1))"
    "http_method (request c1) \<noteq> kInvalid" "length (buffer b1) + length later < 2 ^ 63"
  shows "readable b1 = readable b
    \<and> parseRequest u c1 (append_buf b1 later) = Some (Inl AssertFailed)"
proof -
  have p1: "parse_spec t new_HttpContext (readable b) = Inr (False, c1, readable b1)"
    and b1: "parse_buffer b1"
    using parseRequest_refines [OF assms(1) parsing_new, of t] assms(2) by (auto simp: view_result_def)
  obtain line rest where line: "readable b1 = readable b" "parse_state c1 = kExpectRequestLine"
      "next_line (readable b) = Some (line, rest)" "processRequestLine new_HttpContext line = Inr (False, c1)"
    using parse_spec_fails_only_on_line [OF p1 parsing_new] by blast
  have "processRequestLine c1 line = Inl AssertFailed"
    using processRequestLine_assert [OF line(4) assms(3)] by (simp add: new_HttpContext_def new_HttpRequest_def)
  then have fail: "parse_spec u c1 (readable b1 @ later) = Inl AssertFailed"
    using next_line_append [OF line(3), of later] line(1,2) by (simp add: parse_spec.simps)
  have inv1: "buffer_inv b1" using b1 by (simp add: parse_buffer_def)
  have "parsing c1" using line(2) by (simp add: parsing_def)
  from parseRequest_refines [OF parse_buffer_append [OF inv1 assms(4)] this, of u]
  obtain r where "parseRequest u c1 (append_buf b1 later) = Some r" "view_result r = Inl AssertFailed"
    using fail inv1 by (auto simp: buf_simps)
  with line(1) show ?thesis by (cases r) (auto simp: view_result_def)
qed

theorem bad_request_aborts_next_parse_witness:
  "\<exists>c1 b1. parseRequest (Timestamp 1) new_HttpContext (append_buf (new_Buffer 64) (''GET / HTTP/2.0'' @ kCRLF))
        = Some (Inr (False, c1, b1))
    \<and> parseRequest (Timestamp 2) c1 (append_buf b1 '''') = Some (Inl AssertFailed)"
proof -
  let ?b = "append_buf (new_Buffer 64) (''GET / HTTP/2.0'' @ kCRLF)"
  let ?c1 = "new_HttpContext\<lparr>request := new_HttpRequest\<lparr>http_method := kGet, path := ''/''\<rparr>\<rparr>"
  have h: "parse_buffer ?b" by (simp add: parse_buffer_of_string)
  have nl: "next_line (''GET / HTTP/2.0'' @ kCRLF) = Some (''GET / HTTP/2.0'', '''')"
    using next_line_text [of "''GET / HTTP/2.0''" "''''"] by simp
  have pl: "processRequestLine new_HttpContext ''GET / HTTP/2.0'' = Inr (False, ?c1)"
    by code_simp
  have st: "parse_state new_HttpContext = kExpectRequestLine" by (simp add: new_HttpContext_def)
  have ps: "parse_spec (Timestamp 1) new_HttpContext (''GET / HTTP/2.0'' @ kCRLF)
      = Inr (False, ?c1, ''GET / HTTP/2.0'' @ kCRLF)"
    by (subst parse_spec.simps) (simp only: nl pl st option.case prod.case sum.case simp_thms if_True if_False)
  obtain r where r: "parseRequest (Timestamp 1) new_HttpContext ?b = Some r"
    "view_result r = Inr (False, ?c1, ''GET / HTTP/2.0'' @ kCRLF)"
    using parseRequest_refines [OF h parsing_new, of "Timestamp 1"] ps by (auto simp: buf_simps)
  then obtain b1 where b1: "r = Inr (False, ?c1, b1)" by (auto simp: view_result_def split: sum.splits prod.splits)
  have m: "http_method (request ?c1) \<noteq> kInvalid" by simp
  have "parse_buffer b1"
    using parseRequest_refines [OF h parsing_new, of "Timestamp 1"] r b1 by auto
  then have l: "length (buffer b1) + length '''' < 2 ^ 63" by (simp add: parse_buffer_def)
  show ?thesis
    using bad_request_aborts_next_parse [OF h r(1) [unfolded b1] m l, of "Timestamp 2"] r(1) b1 by blast
qed

end
