(* ===== verification/Ymuduo_HttpResponse.thy ===== *)
theory Ymuduo_HttpResponse
  imports Ymuduo_Buffer
begin

text \<open>
  An HTTP response and its serialisation into a \<open>Buffer\<close> (\<^verbatim>\<open>src/http/HttpResponse.h\<close>,
  \<^verbatim>\<open>src/http/HttpResponse.cc\<close>). The 32-byte scratch array of \<^verbatim>\<open>appendToBuffer\<close> is kept: what
  \<^verbatim>\<open>snprintf\<close> does not fit is cut off.
\<close>

section \<open>State and operations\<close>

datatype HttpStatusCode = kUnknownStatus | kOk | kMovedPermanently | kBadRequest | kNotFound

fun status_value :: "HttpStatusCode \<Rightarrow> nat" where
  "status_value kUnknownStatus = 0"
| "status_value kOk = 200"
| "status_value kMovedPermanently = 301"
| "status_value kBadRequest = 400"
| "status_value kNotFound = 404"

record HttpResponse =
  resp_headers :: "(string, string) std_map"
  statusCode :: HttpStatusCode
  statusMessage :: string
  closeConnection :: bool
  body :: string

definition new_HttpResponse :: "bool \<Rightarrow> HttpResponse" where
  "new_HttpResponse close = \<lparr>resp_headers = [], statusCode = kUnknownStatus, statusMessage = '''',
     closeConnection = close, body = ''''\<rparr>"

definition setStatusCode :: "HttpResponse \<Rightarrow> HttpStatusCode \<Rightarrow> HttpResponse" where
  "setStatusCode r code = r\<lparr>statusCode := code\<rparr>"

definition setStatusMessage :: "HttpResponse \<Rightarrow> string \<Rightarrow> HttpResponse" where
  "setStatusMessage r message = r\<lparr>statusMessage := message\<rparr>"

definition setCloseConnection :: "HttpResponse \<Rightarrow> bool \<Rightarrow> HttpResponse" where
  "setCloseConnection r on = r\<lparr>closeConnection := on\<rparr>"

definition addHeader_resp :: "HttpResponse \<Rightarrow> string \<Rightarrow> string \<Rightarrow> HttpResponse" where
  "addHeader_resp r key v = r\<lparr>resp_headers := map_assign key v (resp_headers r)\<rparr>"

definition setContentType :: "HttpResponse \<Rightarrow> string \<Rightarrow> HttpResponse" where
  "setContentType r contentType = addHeader_resp r ''Content-Type'' contentType"

definition setBody :: "HttpResponse \<Rightarrow> string \<Rightarrow> HttpResponse" where
  "setBody r s = r\<lparr>body := s\<rparr>"

fun append_headers :: "Buffer \<Rightarrow> (string, string) std_map \<Rightarrow> Buffer" where
  "append_headers out [] = out"
| "append_headers out ((k, v) # hs) =
     append_headers (append_buf (append_buf (append_buf (append_buf out k) '': '') v) kCRLF) hs"

definition appendToBuffer :: "HttpResponse \<Rightarrow> Buffer \<Rightarrow> Buffer" where
  "appendToBuffer r out =
     (let b1 = append_buf out (snprintf 32 (''HTTP/1.1 '' @ show_nat (status_value (statusCode r)) @ '' ''));
          b2 = append_buf (append_buf b1 (statusMessage r)) kCRLF;
          b3 = (if closeConnection r
                then append_buf b2 (''Connection: close'' @ kCRLF)
                else append_buf
                  (append_buf b2 (snprintf 32 (''Content-Length: '' @ show_nat (length (body r)) @ kCRLF)))
                  (''Connection: Keep-Alive'' @ kCRLF));
          b4 = append_headers b3 (resp_headers r)
      in append_buf (append_buf b4 kCRLF) (body r))"

section \<open>Layout\<close>

definition header_text :: "(string, string) std_map \<Rightarrow> string" where
  "header_text hs = concat (map (\<lambda>(k, v). k @ '': '' @ v @ kCRLF) hs)"

definition response_text :: "HttpResponse \<Rightarrow> string" where
  "response_text r =
     ''HTTP/1.1 '' @ show_nat (status_value (statusCode r)) @ '' '' @ statusMessage r @ kCRLF @
     (if closeConnection r then ''Connection: close'' @ kCRLF
      else ''Content-Length: '' @ show_nat (length (body r)) @ kCRLF @ ''Connection: Keep-Alive'' @ kCRLF) @
     header_text (resp_headers r) @ kCRLF @ body r"

lemma append_headers_inv [simp]: "buffer_inv b \<Longrightarrow> buffer_inv (append_headers b hs)"
  by (induction b hs rule: append_headers.induct) simp_all

lemma readable_append_headers [buf_simps]:
  "buffer_inv b \<Longrightarrow> readable (append_headers b hs) = readable b @ header_text hs"
  by (induction b hs rule: append_headers.induct) (simp_all add: buf_simps header_text_def)

lemma appendToBuffer_inv [simp]: "buffer_inv b \<Longrightarrow> buffer_inv (appendToBuffer r b)"
  by (simp add: appendToBuffer_def Let_def)

lemma status_line_fits: "length (show_nat (status_value c)) \<le> 3"
  by (rule length_show_nat) (cases c; simp)+

lemma resp_headers_sorted:
  "sorted_wrt (<) (map fst (resp_headers r)) \<Longrightarrow>
   sorted_wrt (<) (map fst (resp_headers (addHeader_resp r k v)))"
  by (simp add: addHeader_resp_def)

lemma readable_appendToBuffer:
  assumes "buffer_inv b" "length (body r) < 10 ^ 13"
  shows "readable (appendToBuffer r b) = readable b @ response_text r"
proof -
  let ?st = "''HTTP/1.1 '' @ show_nat (status_value (statusCode r)) @ '' ''"
  let ?cl = "''Content-Length: '' @ show_nat (length (body r)) @ kCRLF"
  have st: "snprintf 32 ?st = ?st" using status_line_fits [of "statusCode r"] by (intro snprintf_short) simp
  have "length (show_nat (length (body r))) \<le> 13" using assms(2) by (intro length_show_nat) simp
  then have cl: "snprintf 32 ?cl = ?cl" by (intro snprintf_short) simp
  show ?thesis using assms(1)
    unfolding appendToBuffer_def response_text_def Let_def st cl by (simp add: buf_simps)
qed

section \<open>Properties\<close>

text \<open>For every body of less than \<open>10 ^ 13\<close> bytes, \<^verbatim>\<open>appendToBuffer\<close> adds exactly the response text
  to what the buffer held: status line, \<^verbatim>\<open>Connection\<close> header, every header of the map, blank line and
  body, with nothing cut off by the 32-byte scratch array; for a connection that is kept alive the
  \<^verbatim>\<open>Content-Length\<close> it announces reads back as the length of the body.\<close>

theorem appendToBuffer_layout:
  assumes "buffer_inv b" "length (body r) < 10 ^ 13"
  shows "buffer_inv (appendToBuffer r b)
    \<and> readable (appendToBuffer r b) = readable b @ response_text r
    \<and> (\<not> closeConnection r \<longrightarrow>
         (\<exists>pre n post. response_text r = pre @ kCRLF @ ''Content-Length: '' @ n @ kCRLF @ post
            \<and> read_nat n = length (body r) \<and> suffix (kCRLF @ body r) post))"
proof (intro conjI impI)
  show "\<exists>pre n post. response_text r = pre @ kCRLF @ ''Content-Length: '' @ n @ kCRLF @ post
      \<and> read_nat n = length (body r) \<and> suffix (kCRLF @ body r) post" if "\<not> closeConnection r"
  proof (intro exI conjI)
    let ?post = "''Connection: Keep-Alive'' @ kCRLF @ header_text (resp_headers r) @ kCRLF @ body r"
    show "response_text r = (''HTTP/1.1 '' @ show_nat (status_value (statusCode r)) @ '' '' @ statusMessage r)
        @ kCRLF @ ''Content-Length: '' @ show_nat (length (body r)) @ kCRLF @ ?post"
      using that by (simp add: response_text_def)
    show "suffix (kCRLF @ body r) ?post"
      by (auto simp: suffix_def)
  qed simp
qed (use assms in \<open>simp_all add: readable_appendToBuffer\<close>)

theorem appendToBuffer_layout_witness:
  "readable (appendToBuffer (setBody (new_HttpResponse False) ''hi'') (new_Buffer 8))
   = response_text (setBody (new_HttpResponse False) ''hi'')"
  using appendToBuffer_layout [of "new_Buffer 8" "setBody (new_HttpResponse False) ''hi''"]
  by (simp add: setBody_def new_HttpResponse_def)

end
