(* ===== verification/Ymuduo_Favicon.thy ===== *)
theory Ymuduo_Favicon
  imports Ymuduo_Prelude
begin

text \<open>
  The icon that the HTTP demonstration serves (\<^verbatim>\<open>src/http/Favicon.h\<close>): an array of 555 characters with no
  terminating zero, which the demonstration turns into a string by its \<^verbatim>\<open>sizeof\<close>. The lemmas check
  that the array is a whole PNG file: the signature and the chunks fill it exactly.
\<close>

section \<open>The array\<close>

definition favicon_codes :: "nat list" where
  "favicon_codes =
    [137, 80, 78, 71, 13, 10, 26, 10, 0, 0, 0, 13, 73, 72, 68, 82, 0, 0, 0, 16,
     0, 0, 0, 16, 8, 6, 0, 0, 0, 31, 243, 255, 97, 0, 0, 0, 25, 116, 69, 88,
     116, 83, 111, 102, 116, 119, 97, 114, 101, 0, 65, 100, 111, 98, 101, 32, 73, 109, 97, 103,
     101, 82, 101, 97, 100, 121, 113, 201, 101, 60, 0, 0, 1, 205, 73, 68, 65, 84, 120, 218,
     148, 147, 57, 72, 3, 65, 20, 134, 255, 93, 98, 167, 4, 82, 196, 109, 34, 30, 160, 70,
     36, 8, 22, 22, 118, 10, 54, 186, 74, 154, 128, 8, 65, 180, 113, 133, 88, 137, 71, 176,
     73, 169, 81, 36, 205, 166, 8, 164, 72, 99, 145, 66, 11, 175, 86, 193, 70, 180, 21, 207,
     34, 88, 152, 11, 84, 72, 138, 100, 147, 141, 251, 70, 103, 201, 26, 20, 125, 240, 102, 118,
     102, 223, 124, 239, 231, 103, 70, 168, 213, 106, 72, 36, 18, 42, 0, 5, 191, 71, 212, 239,
     247, 47, 54, 236, 18, 32, 30, 143, 215, 170, 213, 234, 175, 73, 53, 70, 170, 84, 95, 159,
     34, 65, 42, 149, 10, 131, 229, 114, 57, 100, 179, 89, 150, 153, 76, 6, 233, 116, 154, 37,
     133, 44, 203, 84, 167, 196, 98, 49, 181, 94, 0, 3, 104, 154, 198, 22, 130, 32, 88, 82,
     20, 69, 54, 83, 148, 203, 101, 120, 189, 94, 170, 85, 84, 35, 76, 192, 224, 226, 193, 143,
     0, 158, 188, 9, 65, 124, 62, 31, 131, 68, 34, 17, 213, 84, 64, 63, 56, 128, 119, 229,
     51, 7, 184, 92, 46, 72, 146, 4, 135, 195, 129, 64, 32, 64, 103, 152, 233, 54, 26, 166,
     103, 21, 4, 227, 215, 200, 189, 21, 225, 105, 183, 67, 171, 234, 120, 47, 106, 88, 146, 187,
     24, 32, 159, 207, 51, 195, 184, 233, 78, 167, 211, 108, 74, 0, 105, 54, 124, 142, 225, 254,
     86, 132, 231, 60, 159, 114, 43, 58, 66, 123, 55, 102, 119, 174, 142, 14, 243, 189, 82, 169,
     100, 2, 66, 175, 133, 50, 102, 70, 186, 12, 217, 159, 29, 154, 108, 34, 230, 199, 58, 44,
     128, 239, 193, 21, 144, 7, 147, 162, 40, 160, 83, 106, 177, 184, 223, 41, 53, 67, 14, 63,
     88, 252, 152, 218, 121, 106, 80, 64, 0, 135, 174, 27, 23, 66, 180, 58, 63, 190, 121, 199,
     10, 38, 182, 238, 217, 154, 96, 20, 147, 219, 143, 13, 10, 46, 233, 35, 149, 41, 88, 0,
     39, 235, 110, 86, 112, 188, 214, 203, 214, 71, 171, 61, 108, 125, 184, 210, 221, 160, 96, 131,
     186, 239, 95, 164, 234, 204, 2, 78, 174, 94, 112, 26, 236, 179, 64, 57, 172, 254, 242, 145,
     137, 103, 145, 133, 33, 168, 135, 183, 88, 126, 126, 133, 187, 205, 78, 78, 98, 116, 64, 250,
     147, 137, 236, 30, 236, 134, 2, 72, 38, 147, 208, 117, 29, 127, 9, 50, 149, 191, 31, 219,
     215, 99, 138, 26, 247, 92, 193, 255, 34, 74, 195, 135, 0, 3, 0, 75, 187, 248, 214, 42,
     118, 152, 73, 0, 0, 0, 0, 73, 69, 78, 68, 174, 66, 96, 130]"

definition favicon :: string where
  "favicon = map char_of favicon_codes"

lemma length_favicon [simp]: "length favicon = 555"
  by (simp add: favicon_def favicon_codes_def)

text \<open>Every code is one of a byte, so that no two codes become the same character.\<close>

lemma favicon_bytes: "map of_char favicon = favicon_codes"
  by (simp add: favicon_def favicon_codes_def)

section \<open>The file format\<close>

text \<open>A PNG file is a signature and a sequence of chunks: a length, a type, that many bytes, and a checksum.\<close>

definition be32 :: "nat list \<Rightarrow> nat" where
  "be32 bs = foldl (\<lambda>n b. 256 * n + b) 0 (take 4 bs)"

function png_chunks :: "nat list \<Rightarrow> (nat list \<times> nat) list option" where
  "png_chunks bs =
     (if bs = [] then Some []
      else if length bs < 12 + be32 bs then None
      else map_option (\<lambda>cs. (take 4 (drop 4 bs), be32 bs) # cs) (png_chunks (drop (12 + be32 bs) bs)))"
  by auto
termination by (relation "measure length") auto

declare png_chunks.simps [simp del]

lemma favicon_signature: "take 8 favicon_codes = [137, 80, 78, 71, 13, 10, 26, 10]"
  by (simp add: favicon_codes_def)

text \<open>The chunks are \<^verbatim>\<open>IHDR\<close>, \<^verbatim>\<open>tEXt\<close>, \<^verbatim>\<open>IDAT\<close> and \<^verbatim>\<open>IEND\<close>.\<close>

lemma favicon_chunks:
  "png_chunks (drop 8 favicon_codes) = Some [([73, 72, 68, 82], 13), ([116, 69, 88, 116], 25), ([73, 68, 65, 84], 461), ([73, 69, 78, 68], 0)]"
  by (simp add: favicon_codes_def png_chunks.simps be32_def)

end
