(* ===== verification/Ymuduo_HttpServer.thy ===== *)
theory Ymuduo_HttpServer
  imports Ymuduo_HttpContext Ymuduo_HttpResponse Ymuduo_Favicon Ymuduo_TcpConnection
begin

text \<open>
  The HTTP server (\<^verbatim>\<open>src/http/HttpServer.h\<close>, \<^verbatim>\<open>src/http/HttpServer.cc\<close>) and the demo application
  (\<^verbatim>\<open>src/http/http-server.cc\<close>): callbacks on a connection whose context is the parser state. The
  properties run from the bytes that arrive to the bytes of the response.
\<close>

section \<open>Operations\<close>

type_synonym http_callback = "HttpRequest \<Rightarrow> HttpResponse \<Rightarrow> HttpResponse"

type_synonym 'p http_conn = "('p, HttpContext) TcpConnection"

definition defaultHttpCallback :: http_callback where
  "defaultHttpCallback req resp =
     setCloseConnection (setStatusMessage (setStatusCode resp kNotFound) ''Not Found'') True"

definition http_onConnection :: "'p http_conn \<Rightarrow> abort + 'p http_conn" where
  "http_onConnection c = Inr (if connected c then setContext new_HttpContext c else c)"

definition wants_close :: "HttpRequest \<Rightarrow> bool" where
  "wants_close req \<longleftrightarrow>
     (let connection = getHeader req ''Connection''
      in connection = ''close'' \<or> (getVersion req = kHttpV10 \<and> connection \<noteq> ''Keep-Alive''))"

definition onRequest :: "'p Poller \<Rightarrow> http_callback \<Rightarrow> HttpRequest \<Rightarrow> 'p http_conn \<Rightarrow> abort + 'p http_conn" where
  "onRequest V httpCallback req c =
     (let response = httpCallback req (new_HttpResponse (wants_close req));
          buf = appendToBuffer response (new_Buffer kInitialSize)
      in bind_abort (send V True 0 (take (readableBytes buf) (drop (peek buf) (buffer buf))) c) (\<lambda>c1.
           Inr (if closeConnection response then conn_shutdown True c1 else c1)))"

definition bad_request_text :: string where
  "bad_request_text = ''HTTP/1.1 400 Bad Request'' @ kCRLF @ kCRLF"

text \<open>\<^verbatim>\<open>any_cast\<close> on a connection without a context gives a null pointer, which is dereferenced.\<close>

definition onMessage :: "'p Poller \<Rightarrow> http_callback \<Rightarrow> Timestamp \<Rightarrow> 'p http_conn \<Rightarrow> abort + 'p http_conn" where
  "onMessage V httpCallback t c =
     (case conn_context c of
        None \<Rightarrow> Inl Bad_access
      | Some ctx \<Rightarrow>
          (case parseRequest t ctx (inputBuffer c) of
             None \<Rightarrow> Inl No_return
           | Some (Inl AssertFailed) \<Rightarrow> Inl Assert_fail
           | Some (Inr (ok, ctx1, b1)) \<Rightarrow>
               (let c1 = c\<lparr>conn_context := Some ctx1, inputBuffer := b1\<rparr>
                in bind_abort
                     (if \<not> ok
                      then bind_abort (send V True 0 bad_request_text c1) (\<lambda>c2. Inr (conn_shutdown True c2))
                      else Inr c1)
                     (\<lambda>c2. if gotAll ctx1
                           then bind_abort (onRequest V httpCallback (request ctx1) c2) (\<lambda>c3.
                                  Inr (c3\<lparr>conn_context := Some (reset_HttpContext ctx1)\<rparr>))
                           else Inr c2))))"

definition http_callbacks ::
  "'p Poller \<Rightarrow> http_callback \<Rightarrow> ('p http_conn \<Rightarrow> abort + 'p http_conn) \<Rightarrow> ('p, HttpContext) conn_callbacks" where
  "http_callbacks V httpCallback closeCb =
     \<lparr>connectionCallback = http_onConnection, messageCallback = onMessage V httpCallback, conn_closeCallback = closeCb,
      writeCompleteCallback = Inr, highWaterMarkCallback = (\<lambda>_. Inr)\<rparr>"

text \<open>The demo application; \<open>now\<close> is the formatted time.\<close>

definition yTestOnRequest :: "string \<Rightarrow> http_callback" where
  "yTestOnRequest now req resp =
     (if path req = ''/''
      then setBody (addHeader_resp (setContentType (setStatusMessage (setStatusCode resp kOk) ''OK'') ''text/html'')
                      ''Server'' ''Muduo'')
             (''<html><head><title>yichen-http-server</title></head>'' @ ''<body><h1>Hello</h1>Now is '' @ now @ ''</body></html>'')
      else if path req = ''/favicon.ico''
      then setBody (setContentType (setStatusMessage (setStatusCode resp kOk) ''OK'') ''image/png'') favicon
      else if path req = ''/hello''
      then setBody (addHeader_resp (setContentType (setStatusMessage (setStatusCode resp kOk) ''OK'') ''text/plain'')
                      ''Server'' ''yichenMuduo'')
             (''hello, world from yichen http server!'' @ [CHR 0x0A])
      else setCloseConnection (setStatusMessage (setStatusCode resp kNotFound) ''Not Found'') True)"

section \<open>The server invariant\<close>

text \<open>The parser waits for a request line with no method recorded, or for headers.\<close>

definition http_ctx_ok :: "HttpContext \<Rightarrow> bool" where
  "http_ctx_ok ctx \<longleftrightarrow> parsing ctx \<and> (parse_state ctx = kExpectRequestLine \<longrightarrow> http_method (request ctx) = kInvalid)"

lemma http_ctx_ok_new [simp]: "http_ctx_ok new_HttpContext"
  by (simp add: http_ctx_ok_def new_HttpContext_def new_HttpRequest_def parsing_def)

lemma reset_is_new: "reset_HttpContext ctx = new_HttpContext"
  by (simp add: reset_HttpContext_def swap_HttpRequest_def new_HttpContext_def)

lemma processRequestLine_no_assert:
  "http_method (request c) = kInvalid \<Longrightarrow> \<exists>ok c1. processRequestLine c line = Inr (ok, c1)"
  by (auto simp: processRequestLine_def setMethod_def Let_def split: prod.splits)

lemma parse_spec_ctx_ok:
  "http_ctx_ok c \<Longrightarrow> \<exists>ok c' rest. parse_spec t c s = Inr (ok, c', rest) \<and> (ok \<longrightarrow> gotAll c' \<or> http_ctx_ok c')"
proof (induction t c s rule: parse_spec.induct)
  case (1 t c s)
  note eq = parse_spec.simps [of t c s]
  show ?case
  proof (cases "next_line s")
    case None
    then show ?thesis using "1.prems" by (auto simp: eq intro: exI [of _ True])
  next
    case (Some lr)
    obtain line rest where lr: "lr = (line, rest)" by force
    show ?thesis
    proof (cases "parse_state c = kExpectRequestLine")
      case True
      obtain ok c1 where p: "processRequestLine c line = Inr (ok, c1)"
        using processRequestLine_no_assert "1.prems" True by (metis http_ctx_ok_def)
      then show ?thesis
        using "1.IH"(1) [OF Some lr [symmetric] True p refl] Some lr True
        by (cases ok) (auto simp: eq http_ctx_ok_def parsing_def)
    next
      case False
      then show ?thesis using "1.IH"(2) Some lr "1.prems"
        by (auto simp: eq http_ctx_ok_def parsing_def gotAll_def)
    qed
  qed
qed

definition http_inv :: "('p \<Rightarrow> Channel \<Rightarrow> bool) \<Rightarrow> 'p http_conn \<Rightarrow> bool" where
  "http_inv ok c \<longleftrightarrow> conn_inv ok c \<and> conn_state c = kConnected \<and> \<not> peer_gone (write_script c)
     \<and> parse_buffer (inputBuffer c)"

text \<open>The text of the answer to a request.\<close>

definition answer :: "http_callback \<Rightarrow> HttpRequest \<Rightarrow> HttpResponse" where
  "answer cb req = cb req (new_HttpResponse (wants_close req))"

context poller
begin

lemma http_send:
  assumes "http_inv ok c"
  shows "case send V True q s c of Inl a \<Rightarrow> refused V ok a
    | Inr c' \<Rightarrow> http_inv ok c' \<and> conn_stream c' = conn_stream c @ s \<and> same_input c c'"
proof (cases "sendInLoop V s c")
  case (Inl a)
  then show ?thesis using sendInLoop_spec [of c s] assms by (simp add: http_inv_def send_def)
next
  case (Inr c')
  have "conn_inv ok c" "conn_state c \<noteq> kDisconnected" "\<not> peer_gone (write_script c)"
    using assms by (simp_all add: http_inv_def)
  with sendInLoop_spec [OF this(1,2), of s] Inr
  have "conn_inv ok c'" "conn_state c' = conn_state c" "conn_stream c' = conn_stream c @ s"
      "\<not> peer_gone (write_script c')"
    using peer_gone_mono [of "write_script c'" "write_script c"] by auto
  then show ?thesis using sendInLoop_input [OF Inr] assms Inr by (simp add: http_inv_def send_def same_input_def)
qed

lemma http_shutdown: "http_inv ok c \<Longrightarrow> conn_shutdown inLoop c = c"
  by (simp add: http_inv_def conn_shutdown_def)

lemma onRequest_spec:
  assumes "http_inv ok c" "length (body (answer cb req)) < 10 ^ 13"
  shows "case onRequest V cb req c of Inl a \<Rightarrow> refused V ok a
    | Inr c' \<Rightarrow> http_inv ok c' \<and> conn_stream c' = conn_stream c @ response_text (answer cb req) \<and> same_input c c'"
proof -
  let ?buf = "appendToBuffer (answer cb req) (new_Buffer kInitialSize)"
  have "take (readableBytes ?buf) (drop (peek ?buf) (buffer ?buf)) = readable ?buf"
    by (simp add: readable_def subrange_def readableBytes_def peek_def)
  also have "\<dots> = response_text (answer cb req)" using assms(2) by (simp add: readable_appendToBuffer)
  finally have eq: "onRequest V cb req c = bind_abort (send V True 0 (response_text (answer cb req)) c) (\<lambda>c1.
      Inr (if closeConnection (answer cb req) then conn_shutdown True c1 else c1))"
    by (simp add: onRequest_def answer_def Let_def)
  show ?thesis unfolding eq
    by (rule bind_abort_rule [OF http_send [OF assms(1)]]) (auto simp: http_shutdown)
qed

lemma onMessage_spec:
  assumes "http_inv ok c" "conn_context c = Some ctx" "parsing ctx"
    "parse_spec t ctx (readable (inputBuffer c)) = Inr (okp, ctx', rest)"
    "\<forall>req. length (body (answer cb req)) < 10 ^ 13"
  shows "case onMessage V cb t c of Inl a \<Rightarrow> refused V ok a
    | Inr c' \<Rightarrow> http_inv ok c' \<and> readable (inputBuffer c') = rest \<and> read_script c' = read_script c
        \<and> conn_context c' = Some (if gotAll ctx' then new_HttpContext else ctx')
        \<and> conn_stream c' = conn_stream c @ (if \<not> okp then bad_request_text
             else if gotAll ctx' then response_text (answer cb (request ctx')) else '''')"
proof -
  have pb: "parse_buffer (inputBuffer c)" using assms(1) by (simp add: http_inv_def)
  obtain b1 where pr: "parseRequest t ctx (inputBuffer c) = Some (Inr (okp, ctx', b1))" "readable b1 = rest" "parse_buffer b1"
  proof -
    obtain r where r: "parseRequest t ctx (inputBuffer c) = Some r" "view_result r = Inr (okp, ctx', rest)"
        "\<forall>ok c' b'. r = Inr (ok, c', b') \<longrightarrow> parse_buffer b'"
      using parseRequest_refines [OF pb assms(3), of t] assms(4) by auto
    then show thesis using that by (cases r) (auto simp: view_result_def)
  qed
  define c1 where "c1 = c\<lparr>conn_context := Some ctx', inputBuffer := b1\<rparr>"
  have c1: "http_inv ok c1" "conn_stream c1 = conn_stream c" "read_script c1 = read_script c"
      "inputBuffer c1 = b1" "conn_context c1 = Some ctx'"
    using assms(1) pr(3) by (simp_all add: c1_def http_inv_def conn_stream_def parse_buffer_def)
  have bad: "\<not> gotAll ctx'" if "\<not> okp"
    using parse_spec_fails_only_on_line [of t ctx "readable (inputBuffer c)" ctx' rest] assms(3,4) that
    by (simp add: gotAll_def)
  have eq: "onMessage V cb t c = bind_abort
       (if \<not> okp then bind_abort (send V True 0 bad_request_text c1) (\<lambda>c2. Inr (conn_shutdown True c2)) else Inr c1)
       (\<lambda>c2. if gotAll ctx' then bind_abort (onRequest V cb (request ctx') c2) (\<lambda>c3.
              Inr (c3\<lparr>conn_context := Some (reset_HttpContext ctx')\<rparr>)) else Inr c2)"
    using assms(2) pr(1) by (simp add: onMessage_def c1_def Let_def)
  show ?thesis
  proof (cases okp)
    case False
    then have "onMessage V cb t c = bind_abort (send V True 0 bad_request_text c1) (\<lambda>c2. Inr (conn_shutdown True c2))"
      unfolding eq using bad by (simp add: bind_abort_def split: sum.splits)
    moreover have "case bind_abort (send V True 0 bad_request_text c1) (\<lambda>c2. Inr (conn_shutdown True c2)) of
        Inl a \<Rightarrow> refused V ok a
      | Inr c' \<Rightarrow> http_inv ok c' \<and> conn_stream c' = conn_stream c1 @ bad_request_text \<and> same_input c1 c'"
      by (rule bind_abort_rule [OF http_send [OF c1(1)]]) (auto simp: http_shutdown)
    ultimately show ?thesis using False bad c1 pr(2) by (auto simp: same_input_def split: sum.splits)
  next
    case True
    show ?thesis
    proof (cases "gotAll ctx'")
      case g: True
      have "onMessage V cb t c = bind_abort (onRequest V cb (request ctx') c1) (\<lambda>c3.
              Inr (c3\<lparr>conn_context := Some (reset_HttpContext ctx')\<rparr>))"
        unfolding eq using True g by simp
      moreover have "case bind_abort (onRequest V cb (request ctx') c1) (\<lambda>c3. Inr (c3\<lparr>conn_context := Some (reset_HttpContext ctx')\<rparr>)) of
          Inl a \<Rightarrow> refused V ok a
        | Inr c' \<Rightarrow> http_inv ok c' \<and> conn_stream c' = conn_stream c1 @ response_text (answer cb (request ctx'))
            \<and> inputBuffer c' = b1 \<and> read_script c' = read_script c \<and> conn_context c' = Some new_HttpContext"
        using assms(5) c1
        by (intro bind_abort_rule [OF onRequest_spec [OF c1(1)]])
          (auto simp: http_inv_def conn_stream_def same_input_def reset_is_new)
      ultimately show ?thesis using True g c1(2) pr(2) by (auto split: sum.splits)
    next
      case False
      then show ?thesis unfolding eq using True c1 pr(2) by simp
    qed
  qed
qed

end

lemma view_result_Inl: "view_result r = Inl e \<longleftrightarrow> r = Inl e"
  by (cases r) (auto simp: view_result_def)

text \<open>A read of \<open>d\<close> that fits the room of \<^verbatim>\<open>readFd\<close> and the address space.\<close>

definition delivers :: "'p http_conn \<Rightarrow> string \<Rightarrow> read_result list \<Rightarrow> bool" where
  "delivers c d s \<longleftrightarrow> read_script c = ReadOk d # s \<and> d \<noteq> [] \<and> length d \<le> readv_room (inputBuffer c)
     \<and> length (buffer (inputBuffer c)) + length d < 2 ^ 63"

lemma handleRead_delivers:
  assumes "http_inv ok c" "delivers c d s"
  shows "\<exists>c1. handleRead V (http_callbacks V cb closeCb) t c = onMessage V cb t c1 \<and> http_inv ok c1
    \<and> readable (inputBuffer c1) = readable (inputBuffer c) @ d \<and> conn_context c1 = conn_context c
    \<and> read_script c1 = s \<and> conn_stream c1 = conn_stream c"
proof -
  let ?c1 = "c\<lparr>read_script := s, inputBuffer := after_read (inputBuffer c) d\<rparr>"
  have inv: "buffer_inv (inputBuffer c)" using assms(1) by (simp add: http_inv_def parse_buffer_def)
  have "handleRead V (http_callbacks V cb closeCb) t c = onMessage V cb t ?c1"
    using handleRead_data [of c d s V "http_callbacks V cb closeCb" t] assms(2)
    by (simp add: delivers_def http_callbacks_def)
  moreover have "http_inv ok ?c1"
    using assms inv length_after_read [OF inv, of d] by (simp add: http_inv_def delivers_def parse_buffer_def)
  ultimately show ?thesis using inv by (intro exI [of _ ?c1]) (simp add: conn_stream_def)
qed

section \<open>A connection of the demo server\<close>

definition demo_http :: "read_result list \<Rightarrow> (int \<Rightarrow> epoll_event option) EPollPoller http_conn" where
  "demo_http rs = (new_TcpConnection 100 1 7 (new_EPollPoller (\<lambda>_. None)))
     \<lparr>conn_state := kConnected, conn_context := Some new_HttpContext, read_script := rs\<rparr>"

definition demo_app :: http_callback where
  "demo_app = yTestOnRequest ''20240101 00:00:00''"

lemma demo_http_inv: "http_inv (epoll_ok (\<lambda>k. k)) (demo_http rs)"
  by (simp add: demo_http_def http_inv_def conn_inv_def new_TcpConnection_def epoll_ok_def new_EPollPoller_def new_Channel_def
      kNew_def isWriting_def peer_gone_def parse_buffer_def, simp add: new_Buffer_def kInitialSize_def kCheapPrepend_def)

lemma demo_http_sel:
  "conn_context (demo_http rs) = Some new_HttpContext" "readable (inputBuffer (demo_http rs)) = []"
  "sock_out (demo_http rs) = []" "readable (outputBuffer (demo_http rs)) = []"
  by (simp_all add: demo_http_def new_TcpConnection_def)

lemma demo_http_delivers: "d \<noteq> [] \<Longrightarrow> length d \<le> 60000 \<Longrightarrow> delivers (demo_http (ReadOk d # rs)) d rs"
  by (simp add: delivers_def demo_http_def new_TcpConnection_def readv_room_def extrabuf_size_def writableBytes_def
      new_Buffer_def kInitialSize_def kCheapPrepend_def Let_def)

lemma demo_app_short: "\<forall>req. length (body (answer demo_app req)) < 10 ^ 13"
  by (simp add: demo_app_def answer_def yTestOnRequest_def setBody_def addHeader_resp_def setContentType_def
      setStatusMessage_def setStatusCode_def setCloseConnection_def new_HttpResponse_def)

text \<open>The icon is sent whole: the announced length is that of the array, zero bytes included.\<close>

lemma favicon_answer:
  assumes "path req = ''/favicon.ico''" "\<not> wants_close req"
  shows "response_text (answer (yTestOnRequest now) req) = ''HTTP/1.1 200 OK'' @ kCRLF @ ''Content-Length: 555'' @ kCRLF @
    ''Connection: Keep-Alive'' @ kCRLF @ ''Content-Type: image/png'' @ kCRLF @ kCRLF @ favicon"
proof -
  have n: "show_nat 200 = ''200''" "show_nat 555 = ''555''" by code_simp+
  show ?thesis using assms
    by (simp add: answer_def yTestOnRequest_def setBody_def addHeader_resp_def setContentType_def setStatusMessage_def
        setStatusCode_def new_HttpResponse_def response_text_def header_text_def n)
qed

section \<open>Properties\<close>

text \<open>C3: from bytes to bytes. When a well-formed request arrives on an idle connection, the server parses
  it, calls the application once with a request that has the method, target, version and headers that
  were sent, and adds exactly the text of the application's response to the output; the parser is
  fresh again. The bytes after the request stay in the input buffer, also when they hold a further
  complete request, which is not looked at before more data arrives. The connection stays up, also when
  the response says \<^verbatim>\<open>Connection: close\<close>, because \<^verbatim>\<open>shutdown\<close> has no effect on it.\<close>

theorem http_request_answered:
  assumes "poller V chans ok" "http_inv ok c" "conn_context c = Some new_HttpContext" "readable (inputBuffer c) = []"
    "delivers c (request_text m target ver hs @ rest) s"
    "m \<in> set known_methods" "good_target target" "ver = ''HTTP/1.0'' \<or> ver = ''HTTP/1.1''"
    "\<forall>h \<in> set hs. good_header h" "\<forall>req. length (body (answer cb req)) < 10 ^ 13"
  shows "case handleRead V (http_callbacks V cb closeCb) t c of Inl a \<Rightarrow> refused V ok a
    | Inr c' \<Rightarrow> http_inv ok c' \<and> conn_context c' = Some new_HttpContext \<and> readable (inputBuffer c') = rest
        \<and> conn_state c' = kConnected
        \<and> (\<exists>req. methodString req = m \<and> path req @ query req = target \<and> receiveTime req = t
             \<and> version req = (if ver = ''HTTP/1.1'' then kHttpV11 else kHttpV10)
             \<and> (\<forall>f. getHeader req f = (case map_of (rev hs) f of Some v \<Rightarrow> v | None \<Rightarrow> ''''))
             \<and> sock_out c' @ readable (outputBuffer c')
                 = sock_out c @ readable (outputBuffer c) @ response_text (answer cb req))"
proof -
  obtain c1 where c1: "handleRead V (http_callbacks V cb closeCb) t c = onMessage V cb t c1" "http_inv ok c1"
      "readable (inputBuffer c1) = request_text m target ver hs @ rest" "conn_context c1 = Some new_HttpContext"
      "conn_stream c1 = conn_stream c"
    using handleRead_delivers [OF assms(2,5), of V cb closeCb t] assms(3,4) by auto
  obtain ctx' where ps: "parse_spec t new_HttpContext (readable (inputBuffer c1)) = Inr (True, ctx', rest)" "gotAll ctx'"
      and req: "methodString (request ctx') = m" "receiveTime (request ctx') = t"
      "version (request ctx') = (if ver = ''HTTP/1.1'' then kHttpV11 else kHttpV10)"
      "path (request ctx') @ query (request ctx') = target"
      "\<forall>f. getHeader (request ctx') f = (case map_of (rev hs) f of Some v \<Rightarrow> v | None \<Rightarrow> '''')"
    using parse_spec_request_text [OF assms(6-9), of t rest] c1(3) by auto
  from poller.onMessage_spec [OF assms(1) c1(2,4) parsing_new ps(1) assms(10)] ps(2) c1(5)
  have sp: "case onMessage V cb t c1 of Inl a \<Rightarrow> refused V ok a
    | Inr c' \<Rightarrow> http_inv ok c' \<and> conn_context c' = Some new_HttpContext \<and> readable (inputBuffer c') = rest
        \<and> conn_stream c' = conn_stream c @ response_text (answer cb (request ctx'))"
    by (cases "onMessage V cb t c1") simp_all
  show ?thesis
  proof (cases "onMessage V cb t c1")
    case (Inl a)
    then show ?thesis using sp c1(1) by simp
  next
    case (Inr c')
    then have "http_inv ok c'" "conn_context c' = Some new_HttpContext" "readable (inputBuffer c') = rest"
        "sock_out c' @ readable (outputBuffer c')
           = sock_out c @ readable (outputBuffer c) @ response_text (answer cb (request ctx'))"
      using sp by (simp_all add: conn_stream_def)
    moreover from this(1) have "conn_state c' = kConnected" by (simp add: http_inv_def)
    ultimately show ?thesis using req unfolding c1(1) Inr sum.case by blast
  qed
qed

theorem http_request_answered_witness:
  "\<exists>c' req. handleRead (epoll_vtable list_ctl) (http_callbacks (epoll_vtable list_ctl) demo_app Inr) (Timestamp 7)
       (demo_http [ReadOk (request_text ''GET'' ''/hello'' ''HTTP/1.0'' [(''Host'', ''x'')] @ ''GET'')]) = Inr c'
     \<and> path req @ query req = ''/hello'' \<and> sock_out c' @ readable (outputBuffer c') = response_text (answer demo_app req)
     \<and> readable (inputBuffer c') = ''GET'' \<and> conn_state c' = kConnected"
proof -
  let ?d = "request_text ''GET'' ''/hello'' ''HTTP/1.0'' [(''Host'', ''x'')] @ ''GET''"
  have g: "''GET'' \<in> set known_methods" "good_target ''/hello''" "\<forall>h \<in> set [(''Host'', ''x'')]. good_header h"
    by (simp_all add: known_methods_def good_target_def good_header_def trimmed_def isspace_def)
  have l: "length ?d \<le> 60000" "?d \<noteq> []" by (simp_all add: request_text_def)
  note t = http_request_answered [OF list_epoll.ep.poller_axioms demo_http_inv demo_http_sel(1,2)
      demo_http_delivers [OF l(2,1), of "[]"] g(1,2) disjI1 [OF refl] g(3) demo_app_short,
      where t = "Timestamp 7" and closeCb = Inr, unfolded demo_http_sel append_Nil]
  show ?thesis
  proof (cases "handleRead (epoll_vtable list_ctl) (http_callbacks (epoll_vtable list_ctl) demo_app Inr) (Timestamp 7)
      (demo_http [ReadOk ?d])")
    case (Inl a)
    then show ?thesis using t list_reliable.not_refused by simp
  next
    case (Inr c')
    then show ?thesis using t unfolding Inr sum.case by blast
  qed
qed

text \<open>C23: for any bytes whatever, a connection whose parser is in a regular state handles a read without
  running into an assertion, a null pointer or an endless loop: afterwards the parser is in a regular
  state again, or the request line was rejected and the 400 answer is in the output.\<close>

theorem http_any_input_safe:
  assumes "poller V chans ok" "http_inv ok c" "conn_context c = Some ctx" "http_ctx_ok ctx" "delivers c d s"
    "\<forall>req. length (body (answer cb req)) < 10 ^ 13"
  shows "case handleRead V (http_callbacks V cb closeCb) t c of Inl a \<Rightarrow> refused V ok a
    | Inr c' \<Rightarrow> http_inv ok c' \<and> read_script c' = s
        \<and> (\<exists>ctx'. conn_context c' = Some ctx' \<and>
             (http_ctx_ok ctx' \<or> sock_out c' @ readable (outputBuffer c') = sock_out c @ readable (outputBuffer c) @ bad_request_text))"
proof -
  obtain c1 where c1: "handleRead V (http_callbacks V cb closeCb) t c = onMessage V cb t c1" "http_inv ok c1"
      "conn_context c1 = Some ctx" "read_script c1 = s" "conn_stream c1 = conn_stream c"
    using handleRead_delivers [OF assms(2,5), of V cb closeCb t] assms(3) by auto
  obtain okp ctx' rest where ps: "parse_spec t ctx (readable (inputBuffer c1)) = Inr (okp, ctx', rest)"
      "okp \<longrightarrow> gotAll ctx' \<or> http_ctx_ok ctx'"
    using parse_spec_ctx_ok [OF assms(4)] by blast
  have "parsing ctx" using assms(4) by (simp add: http_ctx_ok_def)
  from poller.onMessage_spec [OF assms(1) c1(2,3) this ps(1) assms(6)] ps(2) c1(4,5) show ?thesis unfolding c1(1)
    by (cases "onMessage V cb t c1") (auto simp: conn_stream_def)
qed

theorem http_any_input_safe_witness:
  "\<exists>c'. handleRead (epoll_vtable list_ctl) (http_callbacks (epoll_vtable list_ctl) demo_app Inr) (Timestamp 7)
       (demo_http [ReadOk ''nonsense'']) = Inr c' \<and> read_script c' = []"
proof -
  have d: "delivers (demo_http [ReadOk ''nonsense'']) ''nonsense'' []" by (rule demo_http_delivers) simp_all
  show ?thesis
    using http_any_input_safe [OF list_epoll.ep.poller_axioms demo_http_inv demo_http_sel(1) http_ctx_ok_new d demo_app_short,
        where t = "Timestamp 7" and closeCb = Inr] list_reliable.not_refused
    by (cases "handleRead (epoll_vtable list_ctl) (http_callbacks (epoll_vtable list_ctl) demo_app Inr) (Timestamp 7)
       (demo_http [ReadOk ''nonsense''])") auto
qed

text \<open>C24: one malformed request can stop the whole server. When a request line starts with a known method
  and is malformed after it, the 400 answer goes out, but the connection is not shut down and its
  parser keeps the method; whatever the client sends next runs into the assertion of \<^verbatim>\<open>setMethod\<close>, and
  the process aborts.\<close>

theorem http_bad_request_stops_server:
  assumes "reliable_poller V chans ok" "http_inv ok c" "conn_context c = Some new_HttpContext" "readable (inputBuffer c) = []"
    "delivers c (line @ kCRLF @ rest) s" "CHR 0x0D \<notin> set line"
    "processRequestLine new_HttpContext line = Inr (False, ctx1)" "http_method (request ctx1) \<noteq> kInvalid"
    "\<forall>req. length (body (answer cb req)) < 10 ^ 13"
  shows "\<exists>c'. handleRead V (http_callbacks V cb closeCb) t c = Inr c' \<and> conn_state c' = kConnected
    \<and> sock_out c' @ readable (outputBuffer c') = sock_out c @ readable (outputBuffer c) @ bad_request_text
    \<and> (\<forall>d s' u c2. delivers c2 d s' \<longrightarrow> http_inv ok c2 \<longrightarrow> conn_context c2 = conn_context c'
          \<longrightarrow> inputBuffer c2 = inputBuffer c' \<longrightarrow>
          handleRead V (http_callbacks V cb closeCb) u c2 = Inl Assert_fail)"
proof -
  have p: "poller V chans ok" using assms(1) by (rule reliable_poller.axioms)
  obtain c1 where c1: "handleRead V (http_callbacks V cb closeCb) t c = onMessage V cb t c1" "http_inv ok c1"
      "readable (inputBuffer c1) = line @ kCRLF @ rest" "conn_context c1 = Some new_HttpContext"
      "conn_stream c1 = conn_stream c"
    using handleRead_delivers [OF assms(2,5), of V cb closeCb t] assms(3,4) by auto
  have nl: "next_line (line @ kCRLF @ x) = Some (line, x)" for x using next_line_text [OF assms(6)] by simp
  have st: "parse_state new_HttpContext = kExpectRequestLine" "http_method (request new_HttpContext) = kInvalid"
    by (simp_all add: new_HttpContext_def new_HttpRequest_def)
  have ps: "parse_spec t new_HttpContext (readable (inputBuffer c1)) = Inr (False, ctx1, line @ kCRLF @ rest)"
    unfolding c1(3) using nl st assms(7) by (simp add: parse_spec.simps [of t new_HttpContext])
  have s1: "parse_state ctx1 = kExpectRequestLine" using processRequestLine_state [OF assms(7)] st by simp
  then have ng: "\<not> gotAll ctx1" by (simp add: gotAll_def)
  from poller.onMessage_spec [OF p c1(2,4) parsing_new ps assms(9)] reliable_poller.not_refused [OF assms(1)] ng c1(5)
  obtain c' where c': "onMessage V cb t c1 = Inr c'" "http_inv ok c'" "readable (inputBuffer c') = line @ kCRLF @ rest"
      "conn_context c' = Some ctx1" "conn_stream c' = conn_stream c @ bad_request_text"
    by (cases "onMessage V cb t c1") auto
  have again: "handleRead V (http_callbacks V cb closeCb) u c2 = Inl Assert_fail"
    if h: "delivers c2 d s'" "http_inv ok c2" "conn_context c2 = conn_context c'" "inputBuffer c2 = inputBuffer c'" for d s' u c2
  proof -
    obtain c3 where c3: "handleRead V (http_callbacks V cb closeCb) u c2 = onMessage V cb u c3" "http_inv ok c3"
        "readable (inputBuffer c3) = line @ kCRLF @ rest @ d" "conn_context c3 = Some ctx1"
      using handleRead_delivers [OF h(2,1), of V cb closeCb u] h(3,4) c'(3,4) by auto
    have pg: "parsing ctx1" using s1 by (simp add: parsing_def)
    have "parse_spec u ctx1 (readable (inputBuffer c3)) = Inl AssertFailed"
      unfolding c3(3) using nl s1 processRequestLine_assert [OF assms(7,8) st(2)]
      by (simp add: parse_spec.simps [of u ctx1])
    moreover have "parse_buffer (inputBuffer c3)" using c3(2) by (simp add: http_inv_def)
    ultimately have "parseRequest u ctx1 (inputBuffer c3) = Some (Inl AssertFailed)"
      using parseRequest_refines [of "inputBuffer c3" ctx1 u] pg view_result_Inl by metis
    then show ?thesis unfolding c3(1) by (simp add: onMessage_def c3(4))
  qed
  have "conn_state c' = kConnected" using c'(2) by (simp add: http_inv_def)
  with c1(1) c'(1,5) again show ?thesis by (auto simp: conn_stream_def)
qed

theorem http_bad_request_stops_server_witness:
  "\<exists>c'. handleRead (epoll_vtable list_ctl) (http_callbacks (epoll_vtable list_ctl) demo_app Inr) (Timestamp 7)
       (demo_http [ReadOk (''GET / HTTP/2.0'' @ kCRLF @ [])]) = Inr c'
     \<and> sock_out c' @ readable (outputBuffer c') = bad_request_text"
proof -
  let ?c1 = "new_HttpContext\<lparr>request := new_HttpRequest\<lparr>http_method := kGet, path := ''/''\<rparr>\<rparr>"
  have d: "delivers (demo_http [ReadOk (''GET / HTTP/2.0'' @ kCRLF @ [])]) (''GET / HTTP/2.0'' @ kCRLF @ []) []"
    by (rule demo_http_delivers) simp_all
  have cr: "CHR 0x0D \<notin> set ''GET / HTTP/2.0''" by simp
  have pl: "processRequestLine new_HttpContext ''GET / HTTP/2.0'' = Inr (False, ?c1)" by code_simp
  have m: "http_method (request ?c1) \<noteq> kInvalid" by simp
  show ?thesis
    using http_bad_request_stops_server [OF list_reliable.reliable_poller_axioms demo_http_inv demo_http_sel(1,2) d cr pl m
        demo_app_short, where t = "Timestamp 7" and closeCb = Inr]
    unfolding demo_http_sel append_Nil by blast
qed

end
