(* ===== verification/Ymuduo_TimerQueue.thy ===== *)
theory Ymuduo_TimerQueue
  imports Ymuduo_Channel
begin

text \<open>
  Timers (\<^verbatim>\<open>src/include/Timer.h\<close>, \<^verbatim>\<open>src/include/TimerId.h\<close>, \<^verbatim>\<open>src/src/Timer.cc\<close>) and the timer queue
  (\<^verbatim>\<open>src/include/TimerQueue.h\<close>, \<^verbatim>\<open>src/src/TimerQueue.cc\<close>). Timers are objects on a heap, addressed by
  the pointers that the two ordered sets of the queue and the user's \<^verbatim>\<open>TimerId\<close>s hold; using the address
  of a deleted timer is \<open>Bad_access\<close>. A timer callback is the list of operations it performs on the
  queue, which may depend on the timer and the state. \<^verbatim>\<open>operator new\<close> is the parameter \<open>alloc\<close>, and the
  readings of the clock are arguments.
\<close>

section \<open>Timers\<close>

record Timer =
  expiration :: Timestamp
  interval :: double
  repeat :: bool
  sequece :: int

definition timer_restart :: "Timer \<Rightarrow> Timestamp \<Rightarrow> Timer" where
  "timer_restart t now = t\<lparr>expiration := (if repeat t then addTime now (interval t) else invalid)\<rparr>"

datatype TimerId = TimerId (timer_ptr: nat) (timer_sequence: int)

definition null_TimerId :: TimerId where "null_TimerId = TimerId 0 0"

section \<open>State\<close>

type_synonym timer_heap = "nat \<Rightarrow> Timer option"

text \<open>\<open>armed\<close> is what \<^verbatim>\<open>timerfd_settime\<close> was last called with, and when; the kernel disarms the descriptor
  when it fires. \<open>run_log\<close> records the sequence numbers of the timers whose callbacks were run, and
  \<open>tq_functors\<close> are the functors that other threads have queued in the loop for this queue.\<close>

datatype timer_functor = AddTimerInLoop nat | CancelInLoop TimerId

record TimerQueue =
  timers :: "(Timestamp \<times> nat) list"
  activeTimers :: "(nat \<times> int) list"
  callingExpiredTimers :: bool
  cancelingTimers :: "(nat \<times> int) list"
  theap :: timer_heap
  numCreated :: int
  armed :: "(int \<times> int \<times> int) option"
  tq_functors :: "timer_functor list"
  run_log :: "int list"

definition new_TimerQueue :: TimerQueue where
  "new_TimerQueue = \<lparr>timers = [], activeTimers = [], callingExpiredTimers = False, cancelingTimers = [],
     theap = (\<lambda>_. None), numCreated = 0, armed = None, tq_functors = [], run_log = []\<rparr>"

text \<open>The timers that wait for their insertion.\<close>

fun added_timers :: "timer_functor list \<Rightarrow> nat list" where
  "added_timers [] = []"
| "added_timers (AddTimerInLoop a # fs) = a # added_timers fs"
| "added_timers (CancelInLoop i # fs) = added_timers fs"

definition pend :: "TimerQueue \<Rightarrow> nat list" where
  "pend q = added_timers (tq_functors q)"

lemma added_timers_append [simp]: "added_timers (fs @ gs) = added_timers fs @ added_timers gs"
  by (induction fs rule: added_timers.induct) simp_all

lemma pend_frame [simp]:
  "pend (q\<lparr>timers := x1\<rparr>) = pend q" "pend (q\<lparr>activeTimers := x2\<rparr>) = pend q" "pend (q\<lparr>callingExpiredTimers := x3\<rparr>) = pend q"
  "pend (q\<lparr>cancelingTimers := x4\<rparr>) = pend q" "pend (q\<lparr>theap := x5\<rparr>) = pend q" "pend (q\<lparr>numCreated := x6\<rparr>) = pend q"
  "pend (q\<lparr>armed := x7\<rparr>) = pend q" "pend (q\<lparr>run_log := x8\<rparr>) = pend q" "pend (q\<lparr>tq_functors := fs\<rparr>) = added_timers fs"
  by (simp_all add: pend_def)

definition UINTPTR_MAX :: nat where "UINTPTR_MAX = 2 ^ 64 - 1"

type_synonym allocator = "timer_heap \<Rightarrow> nat option"

section \<open>The timer descriptor\<close>

definition howMuchTimeFromNow :: "int \<Rightarrow> Timestamp \<Rightarrow> int \<times> int" where
  "howMuchTimeFromNow clk when =
     (let d = microSecondsSinceEpoch when - clk;
          microseconds = (if d < 100 then 100 else d)
      in (microseconds sdiv kMicroSecondsPerSecond, (microseconds smod kMicroSecondsPerSecond) * 1000))"

definition resetTimerfd :: "int \<Rightarrow> Timestamp \<Rightarrow> TimerQueue \<Rightarrow> TimerQueue" where
  "resetTimerfd clk when q = q\<lparr>armed := Some (clk, howMuchTimeFromNow clk when)\<rparr>"

definition readTimerfd :: "TimerQueue \<Rightarrow> TimerQueue" where
  "readTimerfd q = q\<lparr>armed := None\<rparr>"

section \<open>Operations\<close>

definition deref :: "TimerQueue \<Rightarrow> nat \<Rightarrow> abort + Timer" where
  "deref q a = (case theap q a of None \<Rightarrow> Inl Bad_access | Some t \<Rightarrow> Inr t)"

definition new_Timer :: "allocator \<Rightarrow> Timestamp \<Rightarrow> double \<Rightarrow> TimerQueue \<Rightarrow> abort + (nat \<times> TimerQueue)" where
  "new_Timer alloc when iv q =
     (case alloc (theap q) of
        None \<Rightarrow> Inl Bad_alloc
      | Some a \<Rightarrow> Inr (a, q\<lparr>theap := (theap q)(a \<mapsto> \<lparr>expiration = when, interval = iv, repeat = (iv > 0), sequece = numCreated q + 1\<rparr>),
                          numCreated := numCreated q + 1\<rparr>))"

definition insert_timer :: "nat \<Rightarrow> TimerQueue \<Rightarrow> abort + (bool \<times> TimerQueue)" where
  "insert_timer a q =
     bind_abort (deref q a) (\<lambda>t.
       let when = expiration t;
           earliestChanged = (timers q = [] \<or> when < fst (hd (timers q)))
       in Inr (earliestChanged,
               q\<lparr>timers := set_insert (when, a) (timers q), activeTimers := set_insert (a, sequece t) (activeTimers q)\<rparr>))"

definition addTimerInLoop :: "int \<Rightarrow> nat \<Rightarrow> TimerQueue \<Rightarrow> abort + TimerQueue" where
  "addTimerInLoop clk a q =
     bind_abort (insert_timer a q) (\<lambda>(earliestChanged, q1).
       if earliestChanged then bind_abort (deref q1 a) (\<lambda>t. Inr (resetTimerfd clk (expiration t) q1))
       else Inr q1)"

text \<open>The identifier is read from the timer after it was handed to the loop; \<open>timer_id_of\<close> is that last step.\<close>

definition timer_id_of :: "nat \<Rightarrow> TimerQueue \<Rightarrow> abort + TimerId" where
  "timer_id_of a q = bind_abort (deref q a) (\<lambda>t. Inr (TimerId a (sequece t)))"

definition addTimer ::
  "allocator \<Rightarrow> int \<Rightarrow> bool \<Rightarrow> Timestamp \<Rightarrow> double \<Rightarrow> TimerQueue \<Rightarrow> abort + (TimerId \<times> TimerQueue)" where
  "addTimer alloc clk inLoop when iv q =
     bind_abort (new_Timer alloc when iv q) (\<lambda>(a, q1).
     bind_abort (if inLoop then addTimerInLoop clk a q1 else Inr (q1\<lparr>tq_functors := tq_functors q1 @ [AddTimerInLoop a]\<rparr>)) (\<lambda>q2.
     bind_abort (timer_id_of a q2) (\<lambda>i. Inr (i, q2))))"

definition cancelInLoop :: "TimerId \<Rightarrow> TimerQueue \<Rightarrow> abort + TimerQueue" where
  "cancelInLoop timerId q =
     (let timer = (timer_ptr timerId, timer_sequence timerId)
      in if timer \<in> set (activeTimers q)
         then bind_abort (deref q (fst timer)) (\<lambda>t.
           Inr (q\<lparr>timers := set_erase (expiration t, fst timer) (timers q),
                  theap := (theap q)(fst timer := None),
                  activeTimers := set_erase timer (activeTimers q)\<rparr>))
         else if callingExpiredTimers q
         then Inr (q\<lparr>cancelingTimers := set_insert timer (cancelingTimers q)\<rparr>)
         else Inr q)"

definition timer_cancel :: "bool \<Rightarrow> TimerId \<Rightarrow> TimerQueue \<Rightarrow> abort + TimerQueue" where
  "timer_cancel inLoop timerId q =
     (if inLoop then cancelInLoop timerId q else Inr (q\<lparr>tq_functors := tq_functors q @ [CancelInLoop timerId]\<rparr>))"

fun exec_timer_functor :: "int \<Rightarrow> timer_functor \<Rightarrow> TimerQueue \<Rightarrow> abort + TimerQueue" where
  "exec_timer_functor clk (AddTimerInLoop a) q = addTimerInLoop clk a q"
| "exec_timer_functor clk (CancelInLoop i) q = cancelInLoop i q"

fun erase_active :: "(Timestamp \<times> nat) list \<Rightarrow> TimerQueue \<Rightarrow> abort + TimerQueue" where
  "erase_active [] q = Inr q"
| "erase_active (e # es) q =
     bind_abort (deref q (snd e)) (\<lambda>t.
       erase_active es (q\<lparr>activeTimers := set_erase (snd e, sequece t) (activeTimers q)\<rparr>))"

definition getExpired :: "Timestamp \<Rightarrow> TimerQueue \<Rightarrow> abort + ((Timestamp \<times> nat) list \<times> TimerQueue)" where
  "getExpired now q =
     (let end = lower_bound (timers q) (now, UINTPTR_MAX);
          expired = take end (timers q)
      in bind_abort (erase_active expired (q\<lparr>timers := drop end (timers q)\<rparr>)) (\<lambda>q1. Inr (expired, q1)))"

fun reset_entries :: "Timestamp \<Rightarrow> (Timestamp \<times> nat) list \<Rightarrow> TimerQueue \<Rightarrow> abort + TimerQueue" where
  "reset_entries now [] q = Inr q"
| "reset_entries now (e # es) q =
     bind_abort (deref q (snd e)) (\<lambda>t.
       if repeat t \<and> (snd e, sequece t) \<notin> set (cancelingTimers q)
       then bind_abort (insert_timer (snd e) (q\<lparr>theap := (theap q)(snd e \<mapsto> timer_restart t now)\<rparr>)) (\<lambda>(_, q1).
              reset_entries now es q1)
       else reset_entries now es (q\<lparr>theap := (theap q)(snd e := None)\<rparr>))"

definition reset_timers :: "int \<Rightarrow> (Timestamp \<times> nat) list \<Rightarrow> Timestamp \<Rightarrow> TimerQueue \<Rightarrow> abort + TimerQueue" where
  "reset_timers clk expired now q =
     bind_abort (reset_entries now expired q) (\<lambda>q1.
     bind_abort (if timers q1 \<noteq> [] then bind_abort (deref q1 (snd (hd (timers q1)))) (\<lambda>t. Inr (expiration t))
                 else Inr new_Timestamp) (\<lambda>nextExpire.
     Inr (if valid nextExpire then resetTimerfd clk nextExpire q1 else q1)))"

text \<open>What a callback does on the queue, in the loop's thread.\<close>

datatype tq_op = OpAdd Timestamp double | OpCancel TimerId

fun run_ops :: "allocator \<Rightarrow> int \<Rightarrow> tq_op list \<Rightarrow> TimerQueue \<Rightarrow> abort + TimerQueue" where
  "run_ops alloc clk [] q = Inr q"
| "run_ops alloc clk (OpAdd when iv # ops) q =
     bind_abort (addTimer alloc clk True when iv q) (\<lambda>(_, q1). run_ops alloc clk ops q1)"
| "run_ops alloc clk (OpCancel i # ops) q = bind_abort (cancelInLoop i q) (run_ops alloc clk ops)"

type_synonym timer_callback = "Timer \<Rightarrow> TimerQueue \<Rightarrow> tq_op list"

fun run_expired ::
  "allocator \<Rightarrow> timer_callback \<Rightarrow> int \<Rightarrow> (Timestamp \<times> nat) list \<Rightarrow> TimerQueue \<Rightarrow> abort + TimerQueue" where
  "run_expired alloc cb clk [] q = Inr q"
| "run_expired alloc cb clk (e # es) q =
     bind_abort (deref q (snd e)) (\<lambda>t.
     bind_abort (run_ops alloc clk (cb t q) (q\<lparr>run_log := run_log q @ [sequece t]\<rparr>)) (\<lambda>q1.
     run_expired alloc cb clk es q1))"

text \<open>\<open>now\<close> is the reading of the clock at the start, \<open>clk\<close> the one the callbacks and \<^verbatim>\<open>reset\<close> see.\<close>

definition timer_handleRead :: "allocator \<Rightarrow> timer_callback \<Rightarrow> int \<Rightarrow> int \<Rightarrow> TimerQueue \<Rightarrow> abort + TimerQueue" where
  "timer_handleRead alloc cb now clk q =
     bind_abort (getExpired (Timestamp now) (readTimerfd q)) (\<lambda>(expired, q1).
     bind_abort (run_expired alloc cb clk expired (q1\<lparr>callingExpiredTimers := True, cancelingTimers := []\<rparr>)) (\<lambda>q2.
     reset_timers clk expired (Timestamp now) (q2\<lparr>callingExpiredTimers := False\<rparr>)))"

text \<open>The loop over \<^verbatim>\<open>timers_\<close> in the destructor.\<close>

fun delete_timers :: "(Timestamp \<times> nat) list \<Rightarrow> TimerQueue \<Rightarrow> abort + TimerQueue" where
  "delete_timers [] q = Inr q"
| "delete_timers (e # es) q =
     bind_abort (deref q (snd e)) (\<lambda>_. delete_timers es (q\<lparr>theap := (theap q)(snd e := None)\<rparr>))"

definition delete_TimerQueue :: "TimerQueue \<Rightarrow> abort + TimerQueue" where
  "delete_TimerQueue q = delete_timers (timers q) q"

text \<open>What happens to a queue: calls in the loop's thread, calls from other threads and the loop running
  what they queued, and the descriptor becoming readable. Each with a reading of the clock.\<close>

datatype tq_event = AddTimer Timestamp double | AddTimerOffLoop Timestamp double | RunPending
  | Cancel TimerId | CancelOffLoop TimerId | Fire int

fun tq_step :: "allocator \<Rightarrow> timer_callback \<Rightarrow> int \<times> tq_event \<Rightarrow> TimerQueue \<Rightarrow> abort + TimerQueue" where
  "tq_step alloc cb (clk, AddTimer when iv) q = bind_abort (addTimer alloc clk True when iv q) (\<lambda>(_, q1). Inr q1)"
| "tq_step alloc cb (clk, AddTimerOffLoop when iv) q = bind_abort (addTimer alloc clk False when iv q) (\<lambda>(_, q1). Inr q1)"
| "tq_step alloc cb (clk, RunPending) q =
     (case tq_functors q of [] \<Rightarrow> Inr q | f # fs \<Rightarrow> exec_timer_functor clk f (q\<lparr>tq_functors := fs\<rparr>))"
| "tq_step alloc cb (clk, Cancel i) q = timer_cancel True i q"
| "tq_step alloc cb (clk, CancelOffLoop i) q = timer_cancel False i q"
| "tq_step alloc cb (now, Fire clk) q = timer_handleRead alloc cb now clk q"

fun tq_run :: "allocator \<Rightarrow> timer_callback \<Rightarrow> (int \<times> tq_event) list \<Rightarrow> TimerQueue \<Rightarrow> abort + TimerQueue" where
  "tq_run alloc cb [] q = Inr q"
| "tq_run alloc cb (e # es) q = bind_abort (tq_step alloc cb e q) (tq_run alloc cb es)"

section \<open>The invariant\<close>

text \<open>\<open>E\<close> lists the timers taken out of the queue by \<^verbatim>\<open>getExpired\<close> or just created: live, but not in the
  queue. Every live timer is in the queue, in \<open>E\<close>, or waiting to be inserted, and in only one of
  them; the two ordered sets agree with each other and with the timers.\<close>

definition tq_inv :: "nat list \<Rightarrow> TimerQueue \<Rightarrow> bool" where
  "tq_inv E q \<longleftrightarrow> sorted_wrt (<) (timers q) \<and> sorted_wrt (<) (activeTimers q)
     \<and> (\<forall>(w, a) \<in> set (timers q). \<exists>t. theap q a = Some t \<and> expiration t = w)
     \<and> set (activeTimers q) = {(a, s). \<exists>w t. (w, a) \<in> set (timers q) \<and> theap q a = Some t \<and> s = sequece t}
     \<and> dom (theap q) = snd ` set (timers q) \<union> set E \<union> set (pend q)
     \<and> distinct (E @ pend q) \<and> (set E \<union> set (pend q)) \<inter> snd ` set (timers q) = {}
     \<and> (\<forall>a t. theap q a = Some t \<longrightarrow> 0 < a \<and> a < UINTPTR_MAX \<and> (repeat t \<longrightarrow> 0 < interval t))"

locale timer_allocator =
  fixes alloc :: allocator
  assumes alloc_fresh: "alloc h = Some a \<Longrightarrow> h a = None \<and> 0 < a \<and> a < UINTPTR_MAX"

lemma tq_inv_new [simp]: "tq_inv [] new_TimerQueue"
  by (simp add: tq_inv_def new_TimerQueue_def pend_def)

lemma tq_inv_frame [simp]:
  "tq_inv E (q\<lparr>armed := x\<rparr>) = tq_inv E q" "tq_inv E (q\<lparr>callingExpiredTimers := b\<rparr>) = tq_inv E q"
  "tq_inv E (q\<lparr>cancelingTimers := cs\<rparr>) = tq_inv E q" "tq_inv E (q\<lparr>run_log := l\<rparr>) = tq_inv E q"
  "tq_inv E (q\<lparr>numCreated := n\<rparr>) = tq_inv E q"
  by (simp_all add: tq_inv_def)

lemma tq_inv_resetTimerfd [simp]: "tq_inv E (resetTimerfd clk w q) = tq_inv E q"
  by (simp add: resetTimerfd_def)

lemma tq_inv_readTimerfd [simp]: "tq_inv E (readTimerfd q) = tq_inv E q"
  by (simp add: readTimerfd_def)

lemma tq_live:
  assumes "tq_inv E q" "a \<in> snd ` set (timers q) \<union> set E \<union> set (pend q)"
  obtains t where "theap q a = Some t" "deref q a = Inr t"
proof -
  have "a \<in> dom (theap q)" using assms unfolding tq_inv_def by (elim conjE) (simp only:)
  then show thesis using that by (auto simp: deref_def)
qed

lemma tq_timers_unique:
  "tq_inv E q \<Longrightarrow> (w, a) \<in> set (timers q) \<Longrightarrow> theap q a = Some t \<Longrightarrow> w = expiration t"
  unfolding tq_inv_def by fastforce

lemma tq_invD:
  assumes "tq_inv E q"
  shows "(w, a) \<in> set (timers q) \<Longrightarrow> \<exists>t. theap q a = Some t \<and> expiration t = w"
    and "set (activeTimers q) = {(a, s). \<exists>w t. (w, a) \<in> set (timers q) \<and> theap q a = Some t \<and> s = sequece t}"
    and "dom (theap q) = snd ` set (timers q) \<union> set E \<union> set (pend q)"
    and "distinct (E @ pend q)"
    and "(set E \<union> set (pend q)) \<inter> snd ` set (timers q) = {}"
    and "theap q a = Some t \<Longrightarrow> 0 < a \<and> a < UINTPTR_MAX \<and> (repeat t \<longrightarrow> 0 < interval t)"
proof -
  note inv = assms [unfolded tq_inv_def, THEN conjunct2, THEN conjunct2]
  show "\<exists>t. theap q a = Some t \<and> expiration t = w" if "(w, a) \<in> set (timers q)"
    using bspec [OF inv [THEN conjunct1] that] by simp
  note inv = inv [THEN conjunct2]
  show "set (activeTimers q) = {(a, s). \<exists>w t. (w, a) \<in> set (timers q) \<and> theap q a = Some t \<and> s = sequece t}"
    by (rule inv [THEN conjunct1])
  note inv = inv [THEN conjunct2]
  show "dom (theap q) = snd ` set (timers q) \<union> set E \<union> set (pend q)" by (rule inv [THEN conjunct1])
  note inv = inv [THEN conjunct2]
  show "distinct (E @ pend q)" by (rule inv [THEN conjunct1])
  show "(set E \<union> set (pend q)) \<inter> snd ` set (timers q) = {}" by (rule inv [THEN conjunct2, THEN conjunct1])
  show "0 < a \<and> a < UINTPTR_MAX \<and> (repeat t \<longrightarrow> 0 < interval t)" if "theap q a = Some t"
    using inv [THEN conjunct2, THEN conjunct2] that by blast
qed

lemma insert_timer_result:
  assumes "tq_inv (a # E) q"
  obtains t q' where "theap q a = Some t"
    "insert_timer a q = Inr (timers q = [] \<or> expiration t < fst (hd (timers q)), q')"
    "q' = q\<lparr>timers := set_insert (expiration t, a) (timers q), activeTimers := set_insert (a, sequece t) (activeTimers q)\<rparr>"
    "tq_inv E q'"
proof -
  obtain t where t: "theap q a = Some t" "deref q a = Inr t" using tq_live [OF assms, of a] by auto
  let ?q = "q\<lparr>timers := set_insert (expiration t, a) (timers q), activeTimers := set_insert (a, sequece t) (activeTimers q)\<rparr>"
  have "tq_inv E ?q" using assms t(1) unfolding tq_inv_def by auto
  then show thesis using that t by (simp add: insert_timer_def Let_def)
qed

lemma new_Timer_inv:
  assumes "tq_inv E q" "theap q a = None" "0 < a" "a < UINTPTR_MAX" "repeat t \<longrightarrow> 0 < interval t"
  shows "tq_inv (a # E) (q\<lparr>theap := (theap q)(a \<mapsto> t), numCreated := n\<rparr>)"
proof -
  have dom: "dom (theap q) = snd ` set (timers q) \<union> set E \<union> set (pend q)" using assms(1) by (simp add: tq_inv_def)
  have "a \<notin> dom (theap q)" using assms(2) by auto
  then have a: "a \<notin> snd ` set (timers q)" "a \<notin> set E" "a \<notin> set (pend q)" unfolding dom by auto
  then have "\<forall>(w, b) \<in> set (timers q). b \<noteq> a" by force
  then have "{(b, s). \<exists>w u. (w, b) \<in> set (timers q) \<and> ((theap q)(a \<mapsto> t)) b = Some u \<and> s = sequece u}
      = {(b, s). \<exists>w u. (w, b) \<in> set (timers q) \<and> theap q b = Some u \<and> s = sequece u}"
    "\<forall>(w, b) \<in> set (timers q). ((theap q)(a \<mapsto> t)) b = theap q b"
    by auto
  then show ?thesis using assms(1,3,4,5) a unfolding tq_inv_def by (simp add: case_prod_unfold)
qed

lemma pend_inv: "tq_inv E q \<Longrightarrow> tq_functors q = AddTimerInLoop a # fs \<Longrightarrow> tq_inv (a # E) (q\<lparr>tq_functors := fs\<rparr>)"
  unfolding tq_inv_def by (auto simp: pend_def)

lemma pend_add_inv: "tq_inv (a # E) q \<Longrightarrow> tq_inv E (q\<lparr>tq_functors := tq_functors q @ [AddTimerInLoop a]\<rparr>)"
  unfolding tq_inv_def by (auto simp: pend_def)

lemma pend_cancel_inv: "added_timers fs = pend q \<Longrightarrow> tq_inv E (q\<lparr>tq_functors := fs\<rparr>) = tq_inv E q"
  unfolding tq_inv_def by simp

lemma cancel_inv:
  assumes "tq_inv E q"
  shows "\<exists>q'. cancelInLoop i q = Inr q' \<and> tq_inv E q'"
proof (cases "(timer_ptr i, timer_sequence i) \<in> set (activeTimers q)")
  case False
  then show ?thesis using assms by (simp add: cancelInLoop_def Let_def)
next
  case True
  let ?a = "timer_ptr i"
  have "set (activeTimers q) = {(a, s). \<exists>w t. (w, a) \<in> set (timers q) \<and> theap q a = Some t \<and> s = sequece t}"
    using assms by (simp add: tq_inv_def)
  with True obtain w t where t: "(w, ?a) \<in> set (timers q)" "theap q ?a = Some t" "timer_sequence i = sequece t" by auto
  have w: "w = expiration t" using tq_timers_unique [OF assms t(1,2)] .
  let ?q = "q\<lparr>timers := set_erase (expiration t, ?a) (timers q), theap := (theap q)(?a := None),
      activeTimers := set_erase (?a, timer_sequence i) (activeTimers q)\<rparr>"
  have rest: "set (timers ?q) = {(v, b) \<in> set (timers q). b \<noteq> ?a}"
    using tq_timers_unique [OF assms _ t(2)] by auto
  have img: "snd ` set (timers ?q) = snd ` set (timers q) - {?a}" unfolding rest by force
  have act: "set (activeTimers ?q) = {(b, s) \<in> set (activeTimers q). b \<noteq> ?a}"
    using assms t unfolding tq_inv_def by auto
  have "?a \<in> snd ` set (timers q)" using t(1) by force
  then have "tq_inv E ?q"
    using assms unfolding tq_inv_def img act rest by (simp add: case_prod_unfold) auto
  then show ?thesis using True t by (simp add: cancelInLoop_def deref_def)
qed

section \<open>The armed descriptor\<close>

text \<open>When the descriptor fires: not after the earliest timer, or 100 microseconds after it was set.\<close>

definition covered :: "TimerQueue \<Rightarrow> bool" where
  "covered q \<longleftrightarrow> timers q = [] \<or>
     (\<exists>clk s n. armed q = Some (clk, s, n)
        \<and> clk + s * kMicroSecondsPerSecond + n div 1000 \<le> max (microSecondsSinceEpoch (fst (hd (timers q)))) (clk + 100))"

text \<open>While callbacks run, a queue that is not covered will be covered by \<^verbatim>\<open>reset\<close>, since its earliest
  timer has a valid time.\<close>

definition coverable :: "TimerQueue \<Rightarrow> bool" where
  "coverable q \<longleftrightarrow> covered q \<or> valid (fst (hd (timers q)))"

lemma howMuchTimeFromNow_exact:
  assumes "howMuchTimeFromNow clk w = (s, n)"
  shows "clk + s * kMicroSecondsPerSecond + n div 1000 = max (microSecondsSinceEpoch w) (clk + 100) \<and> 0 \<le> n \<and> n < 10 ^ 9"
proof -
  let ?d = "max (microSecondsSinceEpoch w - clk) 100"
  have "s = ?d div 1000000" "n = ?d mod 1000000 * 1000"
    using assms by (auto simp: howMuchTimeFromNow_def Let_def kMicroSecondsPerSecond_def
        signed_divide_int_def signed_modulo_int_def max_def sgn_if split: if_splits)
  moreover have "?d div 1000000 * 1000000 + ?d mod 1000000 = ?d" by simp
  moreover have "0 \<le> ?d mod 1000000" "?d mod 1000000 < 1000000" by simp_all
  ultimately show ?thesis by (simp add: kMicroSecondsPerSecond_def)
qed

lemma covered_resetTimerfd: "fst (hd (timers q)) = w \<Longrightarrow> covered (resetTimerfd clk w q)"
  using howMuchTimeFromNow_exact [of clk w]
  by (cases "howMuchTimeFromNow clk w") (auto simp: covered_def resetTimerfd_def)

lemma fst_hd_set_insert:
  "fst (hd (set_insert (w, a) ts)) = (if ts = [] \<or> w < fst (hd ts) then w else fst (hd ts))"
  by (cases ts) (auto simp: less_prod_def)

lemma set_insert_not_Nil [simp]: "set_insert x ts \<noteq> []"
  by (cases ts) simp_all

lemma fst_hd_set_erase:
  assumes "sorted_wrt (<) ts" "set_erase x ts \<noteq> []"
  shows "fst (hd ts) \<le> fst (hd (set_erase x ts) :: Timestamp \<times> nat)"
proof -
  have "hd (set_erase x ts) \<in> set (set_erase x ts)" using assms(2) by (rule hd_in_set)
  then have "hd (set_erase x ts) \<in> set ts" by simp
  then have "hd ts \<le> hd (set_erase x ts)" using assms(1) by (cases ts) auto
  then show ?thesis by (auto simp: less_eq_prod_def)
qed

lemma covered_cong:
  "timers q' = timers q \<Longrightarrow> armed q' = armed q \<Longrightarrow> covered q' = covered q"
  "timers q' = timers q \<Longrightarrow> armed q' = armed q \<Longrightarrow> coverable q' = coverable q"
  by (simp_all add: covered_def coverable_def)

lemma covered_later:
  assumes "covered q" "timers q \<noteq> []" "armed q' = armed q"
    "timers q' \<noteq> [] \<Longrightarrow> fst (hd (timers q)) \<le> fst (hd (timers q'))"
  shows "covered q'"
  using assms by (fastforce simp: covered_def less_eq_Timestamp_def)

lemma coverable_later:
  assumes "coverable q" "timers q \<noteq> []" "armed q' = armed q"
    "timers q' \<noteq> [] \<Longrightarrow> fst (hd (timers q)) \<le> fst (hd (timers q'))"
  shows "coverable q'"
proof (cases "covered q \<or> timers q' = []")
  case True
  then show ?thesis using covered_later [OF _ assms(2,3,4)] by (auto simp: coverable_def covered_def)
next
  case False
  then show ?thesis using assms by (auto simp: coverable_def valid_def less_eq_Timestamp_def)
qed

section \<open>Operations keep both\<close>

definition tq_keeps :: "TimerQueue \<Rightarrow> TimerQueue \<Rightarrow> bool" where
  "tq_keeps q q' \<longleftrightarrow> (covered q \<longrightarrow> covered q') \<and> (coverable q \<longrightarrow> coverable q')"

lemma tq_keeps_refl [simp]: "tq_keeps q q"
  by (simp add: tq_keeps_def)

lemma tq_keeps_trans: "tq_keeps a b \<Longrightarrow> tq_keeps b c \<Longrightarrow> tq_keeps a c"
  by (simp add: tq_keeps_def)

lemma tq_keeps_same: "timers q' = timers q \<Longrightarrow> armed q' = armed q \<Longrightarrow> tq_keeps q q'"
  by (simp add: tq_keeps_def covered_cong [of q' q])

lemma insert_timer_frame:
  "insert_timer a q = Inr (b, q') \<Longrightarrow> callingExpiredTimers q' = callingExpiredTimers q \<and> cancelingTimers q' = cancelingTimers q
     \<and> theap q' = theap q \<and> (\<exists>t. theap q a = Some t \<and> set (activeTimers q') = insert (a, sequece t) (set (activeTimers q)))"
  by (auto simp: insert_timer_def deref_def Let_def split: option.splits)

lemma addTimerInLoop_frame:
  "addTimerInLoop clk a q = Inr q' \<Longrightarrow> callingExpiredTimers q' = callingExpiredTimers q \<and> cancelingTimers q' = cancelingTimers q
     \<and> theap q' = theap q"
  by (auto simp: addTimerInLoop_def bind_abort_Inr resetTimerfd_def dest!: insert_timer_frame split: if_splits)

lemma addTimerInLoop_keeps:
  assumes "tq_inv (a # E) q"
  shows "\<exists>q'. addTimerInLoop clk a q = Inr q' \<and> tq_inv E q' \<and> tq_keeps q q'"
proof -
  obtain t q1 where t: "theap q a = Some t"
      "insert_timer a q = Inr (timers q = [] \<or> expiration t < fst (hd (timers q)), q1)"
      "q1 = q\<lparr>timers := set_insert (expiration t, a) (timers q), activeTimers := set_insert (a, sequece t) (activeTimers q)\<rparr>"
      "tq_inv E q1"
    using insert_timer_result [OF assms] .
  have hd1: "fst (hd (timers q1)) = (if timers q = [] \<or> expiration t < fst (hd (timers q)) then expiration t else fst (hd (timers q)))"
    using t(3) by (simp add: fst_hd_set_insert)
  show ?thesis
  proof (cases "timers q = [] \<or> expiration t < fst (hd (timers q))")
    case True
    then have eq: "addTimerInLoop clk a q = Inr (resetTimerfd clk (expiration t) q1)"
      using t by (simp add: addTimerInLoop_def deref_def)
    have "covered (resetTimerfd clk (expiration t) q1)" using hd1 True by (intro covered_resetTimerfd) simp
    then show ?thesis using eq t(4) by (simp add: tq_keeps_def coverable_def)
  next
    case False
    then have eq: "addTimerInLoop clk a q = Inr q1" using t(2) by (simp add: addTimerInLoop_def)
    have "armed q1 = armed q" "timers q \<noteq> []" "fst (hd (timers q)) \<le> fst (hd (timers q1))" using t(3) False hd1 by auto
    then have "tq_keeps q q1" using covered_later coverable_later unfolding tq_keeps_def by metis
    then show ?thesis using eq t(4) by simp
  qed
qed

lemma cancelInLoop_keeps:
  assumes "tq_inv E q"
  shows "\<exists>q'. cancelInLoop i q = Inr q' \<and> tq_inv E q' \<and> tq_keeps q q'"
proof -
  obtain q' where q': "cancelInLoop i q = Inr q'" "tq_inv E q'" using cancel_inv [OF assms] by blast
  have sorted: "sorted_wrt (<) (timers q)" using assms by (simp add: tq_inv_def)
  have "timers q' = timers q \<or> (\<exists>x. timers q' = set_erase x (timers q))" "armed q' = armed q"
    using q'(1) by (auto simp: cancelInLoop_def Let_def bind_abort_Inr simp del: split_paired_Ex split_paired_All
        split: if_splits)
  then consider "timers q' = timers q" "armed q' = armed q" | x where "timers q' = set_erase x (timers q)" "armed q' = armed q" by blast
  then have "tq_keeps q q'"
  proof cases
    case 1
    then show ?thesis by (rule tq_keeps_same)
  next
    case 2
    show ?thesis
    proof (cases "timers q = []")
      case True
      then have "timers q' = timers q" using 2 by (simp add: set_erase_def)
      then show ?thesis using 2 tq_keeps_same by blast
    next
      case False
      have "timers q' \<noteq> [] \<Longrightarrow> fst (hd (timers q)) \<le> fst (hd (timers q'))"
        using fst_hd_set_erase [OF sorted] 2 by simp
      then show ?thesis using covered_later [OF _ False 2(2)] coverable_later [OF _ False 2(2)] unfolding tq_keeps_def by blast
    qed
  qed
  with q' show ?thesis by blast
qed

context timer_allocator
begin

lemma new_Timer_spec:
  assumes "tq_inv E q"
  shows "case new_Timer alloc w iv q of Inl x \<Rightarrow> x = Bad_alloc
    | Inr (a, q') \<Rightarrow> tq_inv (a # E) q' \<and> tq_keeps q q' \<and> (\<exists>t. deref q' a = Inr t)"
proof (cases "alloc (theap q)")
  case (Some a)
  let ?t = "\<lparr>expiration = w, interval = iv, repeat = (iv > 0), sequece = numCreated q + 1\<rparr> :: Timer"
  let ?q = "q\<lparr>theap := (theap q)(a \<mapsto> ?t), numCreated := numCreated q + 1\<rparr>"
  have "tq_inv (a # E) ?q" using alloc_fresh [OF Some] by (intro new_Timer_inv [OF assms]) simp_all
  moreover have "tq_keeps q ?q" by (rule tq_keeps_same) simp_all
  ultimately show ?thesis using Some by (simp add: new_Timer_def deref_def)
qed (simp add: new_Timer_def)

lemma addTimer_spec:
  assumes "tq_inv E q"
  shows "case addTimer alloc clk inLoop w iv q of Inl x \<Rightarrow> x = Bad_alloc | Inr (i, q') \<Rightarrow> tq_inv E q' \<and> tq_keeps q q'"
proof (cases "new_Timer alloc w iv q")
  case (Inl x)
  then show ?thesis using new_Timer_spec [OF assms, of w iv] by (simp add: addTimer_def)
next
  case (Inr r)
  obtain a q1 where r: "r = (a, q1)" by force
  have n: "tq_inv (a # E) q1" "tq_keeps q q1" using new_Timer_spec [OF assms, of w iv] Inr r by auto
  obtain t where t: "deref q1 a = Inr t" using new_Timer_spec [OF assms, of w iv] Inr r by auto
  obtain q2 where q2: "addTimerInLoop clk a q1 = Inr q2" "tq_inv E q2" "tq_keeps q1 q2"
    using addTimerInLoop_keeps [OF n(1)] by blast
  have p: "tq_inv E (q1\<lparr>tq_functors := tq_functors q1 @ [AddTimerInLoop a]\<rparr>)" "tq_keeps q1 (q1\<lparr>tq_functors := tq_functors q1 @ [AddTimerInLoop a]\<rparr>)"
    using pend_add_inv [OF n(1)] by (auto intro: tq_keeps_same)
  have "deref q2 a = Inr t" "deref (q1\<lparr>tq_functors := tq_functors q1 @ [AddTimerInLoop a]\<rparr>) a = Inr t"
    using t addTimerInLoop_frame [OF q2(1)] by (simp_all add: deref_def)
  then show ?thesis using Inr r q2(1,2) p(1) tq_keeps_trans [OF n(2) q2(3)] tq_keeps_trans [OF n(2) p(2)]
    by (cases inLoop) (simp_all add: addTimer_def timer_id_of_def)
qed

lemma run_ops_spec:
  assumes "tq_inv E q"
  shows "case run_ops alloc clk ops q of Inl x \<Rightarrow> x = Bad_alloc | Inr q' \<Rightarrow> tq_inv E q' \<and> tq_keeps q q'"
  using assms
proof (induction ops arbitrary: q)
  case (Cons op ops)
  show ?case
  proof (cases op)
    case (OpAdd w iv)
    show ?thesis
    proof (cases "addTimer alloc clk True w iv q")
      case (Inl x)
      then show ?thesis using addTimer_spec [OF Cons.prems, of clk True w iv] OpAdd by simp
    next
      case (Inr r)
      obtain i q1 where r: "r = (i, q1)" by force
      have "tq_inv E q1" "tq_keeps q q1" using addTimer_spec [OF Cons.prems, of clk True w iv] Inr r by auto
      then show ?thesis using Cons.IH [of q1] Inr r OpAdd tq_keeps_trans
        by (cases "run_ops alloc clk ops q1") auto
    qed
  next
    case (OpCancel i)
    obtain q1 where "cancelInLoop i q = Inr q1" "tq_inv E q1" "tq_keeps q q1"
      using cancelInLoop_keeps [OF Cons.prems] by blast
    then show ?thesis using Cons.IH [of q1] OpCancel tq_keeps_trans
      by (cases "run_ops alloc clk ops q1") auto
  qed
qed simp

lemma run_expired_spec:
  assumes "tq_inv E q" "snd ` set es \<subseteq> set E"
  shows "case run_expired alloc cb clk es q of Inl x \<Rightarrow> x = Bad_alloc | Inr q' \<Rightarrow> tq_inv E q' \<and> tq_keeps q q'"
  using assms
proof (induction es arbitrary: q)
  case (Cons e es)
  have "snd e \<in> snd ` set (timers q) \<union> set E \<union> set (pend q)" using Cons.prems(2) by simp
  then obtain t where t: "deref q (snd e) = Inr t" using tq_live [OF Cons.prems(1)] by blast
  let ?q = "q\<lparr>run_log := run_log q @ [sequece t]\<rparr>"
  have q: "tq_inv E ?q" "tq_keeps q ?q" using Cons.prems(1) by (auto intro: tq_keeps_same)
  show ?case
  proof (cases "run_ops alloc clk (cb t q) ?q")
    case (Inl x)
    then show ?thesis using run_ops_spec [OF q(1), of clk "cb t q"] t by simp
  next
    case (Inr q1)
    then have "tq_inv E q1" "tq_keeps ?q q1" using run_ops_spec [OF q(1), of clk "cb t q"] by auto
    then show ?thesis using Cons.IH [of q1] Cons.prems(2) Inr t q(2) tq_keeps_trans
      by (cases "run_expired alloc cb clk es q1") auto
  qed
qed simp

end

section \<open>Expired timers\<close>

lemma tq_distinct: "tq_inv E q \<Longrightarrow> distinct (map snd (timers q))"
proof -
  assume inv: "tq_inv E q"
  then have "distinct (timers q)" by (auto simp: tq_inv_def strict_sorted_iff)
  moreover have "inj_on snd (set (timers q))"
  proof (rule inj_onI)
    fix x y assume xy: "x \<in> set (timers q)" "y \<in> set (timers q)" "snd x = snd y"
    obtain t where "theap q (snd x) = Some t" "expiration t = fst x" using inv xy(1) unfolding tq_inv_def by fastforce
    moreover from this(1) have "fst y = expiration t" using tq_timers_unique [OF inv, of "fst y" "snd y" t] xy(2,3) by simp
    ultimately show "x = y" using xy(3) by (simp add: prod_eq_iff)
  qed
  ultimately show ?thesis by (simp add: distinct_map)
qed

lemma lower_bound_sorted:
  assumes "sorted_wrt (<) (ts :: 'a :: linorder list)"
  shows "take (lower_bound ts x) ts = filter (\<lambda>y. y < x) ts" "drop (lower_bound ts x) ts = filter (\<lambda>y. \<not> y < x) ts"
proof -
  have "takeWhile (\<lambda>y. y < x) ts = filter (\<lambda>y. y < x) ts \<and> dropWhile (\<lambda>y. y < x) ts = filter (\<lambda>y. \<not> y < x) ts"
    using assms
  proof (induction ts)
    case (Cons y ts)
    have "\<forall>z \<in> set ts. \<not> z < x" if "\<not> y < x" using Cons.prems that by force
    then show ?case using Cons by (cases "y < x") simp_all
  qed simp
  then show "take (lower_bound ts x) ts = filter (\<lambda>y. y < x) ts" "drop (lower_bound ts x) ts = filter (\<lambda>y. \<not> y < x) ts"
    unfolding lower_bound_def by (metis takeWhile_eq_take, metis dropWhile_eq_drop)
qed

lemma erase_active_result:
  assumes "\<forall>e \<in> set es. theap q (snd e) \<noteq> None"
  shows "erase_active es q = Inr (q\<lparr>activeTimers :=
    filter (\<lambda>(a, s). \<not> (a \<in> snd ` set es \<and> map_option sequece (theap q a) = Some s)) (activeTimers q)\<rparr>)"
  using assms
proof (induction es arbitrary: q)
  case (Cons e es)
  then obtain t where t: "theap q (snd e) = Some t" by auto
  let ?q = "q\<lparr>activeTimers := set_erase (snd e, sequece t) (activeTimers q)\<rparr>"
  have "erase_active es ?q = Inr (?q\<lparr>activeTimers :=
      filter (\<lambda>(a, s). \<not> (a \<in> snd ` set es \<and> map_option sequece (theap ?q a) = Some s)) (activeTimers ?q)\<rparr>)"
    using Cons.prems by (intro Cons.IH) simp
  moreover have "filter (\<lambda>(a, s). \<not> (a \<in> snd ` set es \<and> map_option sequece (theap q a) = Some s)) (activeTimers ?q)
      = filter (\<lambda>(a, s). \<not> (a \<in> snd ` set (e # es) \<and> map_option sequece (theap q a) = Some s)) (activeTimers q)"
    using t by (auto simp: set_erase_def intro!: filter_cong)
  ultimately show ?case using t by (simp add: deref_def)
qed simp

lemma getExpired_spec:
  assumes "tq_inv [] q"
  shows "\<exists>q'. getExpired now q = Inr (filter (\<lambda>(w, a). w \<le> now) (timers q), q')
    \<and> tq_inv (map snd (filter (\<lambda>(w, a). w \<le> now) (timers q))) q'
    \<and> timers q' = filter (\<lambda>(w, a). now < w) (timers q) \<and> armed q' = armed q \<and> theap q' = theap q
    \<and> pend q' = pend q \<and> run_log q' = run_log q"
proof -
  let ?ex = "filter (\<lambda>(w, a). w \<le> now) (timers q)" and ?rest = "filter (\<lambda>(w, a). now < w) (timers q)"
  have sorted: "sorted_wrt (<) (timers q)" using assms by (simp add: tq_inv_def)
  have small: "a < UINTPTR_MAX" if "(w, a) \<in> set (timers q)" for w a
    using that assms unfolding tq_inv_def by fastforce
  have cmp: "x < (now, UINTPTR_MAX) \<longleftrightarrow> fst x \<le> now" if "x \<in> set (timers q)" for x
    using small [of "fst x" "snd x"] that by (cases x) (auto simp: less_prod_def)
  have ex: "take (lower_bound (timers q) (now, UINTPTR_MAX)) (timers q) = ?ex"
    unfolding lower_bound_sorted [OF sorted] using cmp by (intro filter_cong) auto
  have rest: "drop (lower_bound (timers q) (now, UINTPTR_MAX)) (timers q) = ?rest"
    unfolding lower_bound_sorted [OF sorted] using cmp by (intro filter_cong) auto
  let ?act = "filter (\<lambda>(a, s). \<not> (a \<in> snd ` set ?ex \<and> map_option sequece (theap q a) = Some s)) (activeTimers q)"
  let ?q' = "q\<lparr>timers := ?rest, activeTimers := ?act\<rparr>"
  have live: "\<forall>e \<in> set ?ex. theap (q\<lparr>timers := ?rest\<rparr>) (snd e) \<noteq> None"
    using assms unfolding tq_inv_def by fastforce
  have eq: "getExpired now q = Inr (?ex, ?q')"
    using erase_active_result [OF live] by (simp add: getExpired_def ex rest Let_def)
  have d: "distinct (map snd (timers q))" using tq_distinct [OF assms] .
  have split: "(w, a) \<in> set ?rest \<longleftrightarrow> (w, a) \<in> set (timers q) \<and> a \<notin> snd ` set ?ex" for w a
  proof -
    have "a \<in> snd ` set ?ex \<longleftrightarrow> w \<le> now" if wa: "(w, a) \<in> set (timers q)"
    proof
      assume "a \<in> snd ` set ?ex"
      then obtain v where v: "(v, a) \<in> set (timers q)" "v \<le> now" by auto
      with tq_invD(1) [OF assms v(1)] tq_timers_unique [OF assms wa] show "w \<le> now" by auto
    next
      assume "w \<le> now"
      with wa have "(w, a) \<in> set ?ex" by simp
      then show "a \<in> snd ` set ?ex" by (rule image_eqI [rotated]) simp
    qed
    then show ?thesis by (auto simp: not_le [symmetric])
  qed
  have act: "set ?act = {(a, s). \<exists>w t. (w, a) \<in> set ?rest \<and> theap q a = Some t \<and> s = sequece t}"
    using split unfolding tq_invD(2) [OF assms] set_filter by auto
  have dm: "dom (theap q) = snd ` set ?rest \<union> set (map snd ?ex) \<union> set (pend q)"
    using tq_invD(3) [OF assms] by (force simp: image_iff)
  have dj: "(set (map snd ?ex) \<union> set (pend q)) \<inter> snd ` set ?rest = {}"
  proof (rule equals0I)
    fix a assume a: "a \<in> (set (map snd ?ex) \<union> set (pend q)) \<inter> snd ` set ?rest"
    then obtain w where "(w, a) \<in> set ?rest" by auto
    then have "(w, a) \<in> set (timers q)" "a \<notin> snd ` set ?ex" using split by blast+
    moreover from this(1) have "a \<in> snd ` set (timers q)" by (rule image_eqI [rotated]) simp
    ultimately show False using a tq_invD(5) [OF assms] by auto
  qed
  have di: "distinct (map snd ?ex @ pend q)"
    using tq_invD(4,5) [OF assms] d by (auto simp: distinct_map_filter)
  have "tq_inv (map snd ?ex) ?q'"
    using assms act dm dj di sorted unfolding tq_inv_def by (simp add: sorted_wrt_filter)
  then show ?thesis using eq by simp
qed

section \<open>Rescheduling\<close>

lemma heap_update_inv:
  assumes "tq_inv (a # E) q" "repeat t \<longrightarrow> 0 < interval t"
  shows "tq_inv (a # E) (q\<lparr>theap := (theap q)(a \<mapsto> t)\<rparr>)"
proof -
  have "a \<notin> snd ` set (timers q)" "a \<in> dom (theap q)"
    using tq_invD(3,5) [OF assms(1)] by auto
  moreover from this(2) obtain u where "theap q a = Some u" by blast
  from tq_invD(6) [OF assms(1) this] have "0 < a" "a < UINTPTR_MAX" by blast+
  ultimately have "((theap q)(a \<mapsto> t)) b = theap q b" if "(w, b) \<in> set (timers q)" for w b using that by force
  moreover have "dom ((theap q)(a \<mapsto> t)) = dom (theap q)" using \<open>a \<in> dom (theap q)\<close> by auto
  ultimately show ?thesis using assms \<open>0 < a\<close> \<open>a < UINTPTR_MAX\<close> unfolding tq_inv_def
    by (simp add: case_prod_unfold cong: conj_cong) fastforce
qed

lemma heap_delete_inv:
  assumes "tq_inv (a # E) q"
  shows "tq_inv E (q\<lparr>theap := (theap q)(a := None)\<rparr>)"
proof -
  have a: "a \<notin> snd ` set (timers q)" "a \<notin> set E" "a \<notin> set (pend q)"
    using tq_invD(4,5) [OF assms] by auto
  then have "((theap q)(a := None)) b = theap q b" if "(w, b) \<in> set (timers q)" for w b using that by force
  moreover have "dom ((theap q)(a := None)) = snd ` set (timers q) \<union> set E \<union> set (pend q)"
    using tq_invD(3) [OF assms] a by auto
  ultimately show ?thesis using assms unfolding tq_inv_def
    by (simp add: case_prod_unfold cong: conj_cong) fastforce
qed

lemma restart_later: "0 < now \<Longrightarrow> repeat t \<Longrightarrow> 0 \<le> interval t \<Longrightarrow> valid (expiration (timer_restart t (Timestamp now)))"
  by (simp add: timer_restart_def addTime_def valid_def Let_def trunc_nonneg fl_nonneg kMicroSecondsPerSecond_def
      add_pos_nonneg)

lemma reset_entries_spec:
  assumes "tq_inv (map snd es) q" "coverable q" "0 < now"
  shows "\<exists>q'. reset_entries (Timestamp now) es q = Inr q' \<and> tq_inv [] q' \<and> coverable q'"
  using assms
proof (induction es arbitrary: q)
  case (Cons e es)
  let ?a = "snd e"
  have inv: "tq_inv (?a # map snd es) q" using Cons.prems(1) by simp
  have "?a \<in> snd ` set (timers q) \<union> set (?a # map snd es) \<union> set (pend q)" by simp
  then obtain t where t: "theap q ?a = Some t" "deref q ?a = Inr t" using tq_live [OF inv] by blast
  show ?case
  proof (cases "repeat t \<and> (?a, sequece t) \<notin> set (cancelingTimers q)")
    case True
    let ?t = "timer_restart t (Timestamp now)"
    let ?q = "q\<lparr>theap := (theap q)(?a \<mapsto> ?t)\<rparr>"
    have iv: "0 < interval t" using tq_invD(6) [OF inv t(1)] True by blast
    have "tq_inv (?a # map snd es) ?q" using iv by (intro heap_update_inv [OF inv]) (simp add: timer_restart_def)
    from insert_timer_result [OF this] obtain u q1 where q1':
        "theap ?q ?a = Some u" "insert_timer ?a ?q = Inr (timers ?q = [] \<or> expiration u < fst (hd (timers ?q)), q1)"
        "q1 = ?q\<lparr>timers := set_insert (expiration u, ?a) (timers ?q), activeTimers := set_insert (?a, sequece u) (activeTimers ?q)\<rparr>"
        "tq_inv (map snd es) q1" .
    have "u = ?t" using q1'(1) by simp
    then have q1: "\<exists>b. insert_timer ?a ?q = Inr (b, q1)" "tq_inv (map snd es) q1"
        "timers q1 = set_insert (expiration ?t, ?a) (timers q)" "armed q1 = armed q"
      using q1'(2-4) by simp_all
    have "coverable q1"
    proof (cases "timers q = [] \<or> expiration ?t < fst (hd (timers q))")
      case True
      then have "fst (hd (timers q1)) = expiration ?t" using q1(3) by (simp add: fst_hd_set_insert)
      moreover have "valid (expiration ?t)" using restart_later [OF Cons.prems(3), of t] iv
          \<open>repeat t \<and> (?a, sequece t) \<notin> set (cancelingTimers q)\<close> by simp
      ultimately show ?thesis by (simp add: coverable_def)
    next
      case False
      then have "fst (hd (timers q1)) = fst (hd (timers q))" using q1(3) by (simp add: fst_hd_set_insert)
      with False show ?thesis using coverable_later [OF Cons.prems(2) _ q1(4)] by simp
    qed
    from Cons.IH [OF q1(2) this Cons.prems(3)] True t(2) q1(1) show ?thesis by auto
  next
    case False
    let ?q = "q\<lparr>theap := (theap q)(?a := None)\<rparr>"
    have "tq_inv (map snd es) ?q" "coverable ?q"
      using heap_delete_inv [OF inv] Cons.prems(2) covered_cong(2) [of ?q q] by simp_all
    from Cons.IH [OF this Cons.prems(3)] False t(2) show ?thesis by auto
  qed
qed simp

lemma reset_timers_spec:
  assumes "tq_inv (map snd es) q" "coverable q" "0 < now"
  shows "\<exists>q'. reset_timers clk es (Timestamp now) q = Inr q' \<and> tq_inv [] q' \<and> covered q'"
proof -
  obtain q1 where q1: "reset_entries (Timestamp now) es q = Inr q1" "tq_inv [] q1" "coverable q1"
    using reset_entries_spec [OF assms] by blast
  show ?thesis
  proof (cases "timers q1 = []")
    case True
    then show ?thesis using q1 by (simp add: reset_timers_def covered_def valid_def new_Timestamp_def)
  next
    case False
    then have hd: "(fst (hd (timers q1)), snd (hd (timers q1))) \<in> set (timers q1)" by simp
    obtain t where t: "theap q1 (snd (hd (timers q1))) = Some t" "expiration t = fst (hd (timers q1))"
      using tq_invD(1) [OF q1(2) hd] by blast
    then have "reset_timers clk es (Timestamp now) q =
        Inr (if valid (fst (hd (timers q1))) then resetTimerfd clk (fst (hd (timers q1))) q1 else q1)"
      using False q1(1) by (simp add: reset_timers_def deref_def)
    then show ?thesis using q1(2,3) covered_resetTimerfd [of q1] by (auto simp: coverable_def)
  qed
qed

context timer_allocator
begin

lemma handleRead_spec:
  assumes "tq_inv [] q" "0 < now"
  shows "case timer_handleRead alloc cb now clk q of Inl x \<Rightarrow> x = Bad_alloc | Inr q' \<Rightarrow> tq_inv [] q' \<and> covered q'"
proof -
  let ?ex = "filter (\<lambda>(w, a). w \<le> Timestamp now) (timers q)"
  obtain q1 where q1: "getExpired (Timestamp now) (readTimerfd q) = Inr (?ex, q1)" "tq_inv (map snd ?ex) q1"
      "timers q1 = filter (\<lambda>(w, a). Timestamp now < w) (timers q)"
    using getExpired_spec [of "readTimerfd q" "Timestamp now"] assms(1) by (auto simp: readTimerfd_def)
  define q2 where "q2 = q1\<lparr>callingExpiredTimers := True, cancelingTimers := []\<rparr>"
  have inv2: "tq_inv (map snd ?ex) q2" using q1(2) by (simp add: q2_def)
  have cov2: "coverable q2"
  proof (cases "timers q1 = []")
    case True
    then show ?thesis by (simp add: coverable_def covered_def q2_def)
  next
    case False
    then have "hd (timers q1) \<in> set (timers q1)" by simp
    then have "Timestamp now < fst (hd (timers q1))" unfolding q1(3) by auto
    then have "valid (fst (hd (timers q1)))"
      using assms(2) by (cases "fst (hd (timers q1))") (simp add: valid_def)
    then show ?thesis by (simp add: coverable_def q2_def)
  qed
  have run: "case run_expired alloc cb clk ?ex q2 of Inl x \<Rightarrow> x = Bad_alloc
      | Inr q3 \<Rightarrow> tq_inv (map snd ?ex) q3 \<and> tq_keeps q2 q3"
    by (rule run_expired_spec [OF inv2]) simp
  have eq: "timer_handleRead alloc cb now clk q = bind_abort (run_expired alloc cb clk ?ex q2) (\<lambda>q3.
      reset_timers clk ?ex (Timestamp now) (q3\<lparr>callingExpiredTimers := False\<rparr>))"
    using q1(1) by (simp add: timer_handleRead_def q2_def)
  show ?thesis unfolding eq
  proof (rule bind_abort_rule [OF run], goal_cases)
    case (1 q3)
    let ?q = "q3\<lparr>callingExpiredTimers := False\<rparr>"
    have "tq_inv (map snd ?ex) ?q" "coverable ?q"
      using 1 cov2 covered_cong(2) [of ?q q3] by (simp_all add: tq_keeps_def)
    from reset_timers_spec [OF this assms(2), of clk] show ?case by auto
  qed
qed

lemma tq_step_spec:
  assumes "tq_inv [] q" "covered q" "0 < fst e"
  shows "case tq_step alloc cb e q of Inl x \<Rightarrow> x = Bad_alloc | Inr q' \<Rightarrow> tq_inv [] q' \<and> covered q'"
proof -
  obtain clk ev where e: "e = (clk, ev)" by force
  show ?thesis
  proof (cases ev)
    case (AddTimer w iv)
    then show ?thesis using addTimer_spec [OF assms(1), of clk True w iv] assms(2) e
      by (cases "addTimer alloc clk True w iv q") (auto simp: tq_keeps_def)
  next
    case (AddTimerOffLoop w iv)
    then show ?thesis using addTimer_spec [OF assms(1), of clk False w iv] assms(2) e
      by (cases "addTimer alloc clk False w iv q") (auto simp: tq_keeps_def)
  next
    case RunPending
    show ?thesis
    proof (cases "tq_functors q")
      case (Cons f fs)
      let ?q = "q\<lparr>tq_functors := fs\<rparr>"
      have cov: "covered ?q" using assms(2) covered_cong(1) [of ?q q] by simp
      show ?thesis
      proof (cases f)
        case (AddTimerInLoop a)
        then have "tq_inv [a] ?q" using pend_inv [OF assms(1)] Cons by simp
        then show ?thesis using addTimerInLoop_keeps [of a "[]" ?q clk] cov Cons AddTimerInLoop RunPending e
          by (auto simp: tq_keeps_def)
      next
        case (CancelInLoop i)
        then have "tq_inv [] ?q" using assms(1) Cons by (subst pend_cancel_inv) (simp_all add: pend_def)
        then show ?thesis using cancelInLoop_keeps [of "[]" ?q i] cov Cons CancelInLoop RunPending e by (auto simp: tq_keeps_def)
      qed
    qed (use RunPending assms e in simp)
  next
    case (Cancel i)
    then show ?thesis using cancelInLoop_keeps [OF assms(1), of i] assms(2) e by (auto simp: tq_keeps_def timer_cancel_def)
  next
    case (CancelOffLoop i)
    let ?q = "q\<lparr>tq_functors := tq_functors q @ [CancelInLoop i]\<rparr>"
    have "tq_inv [] ?q" using assms(1) by (subst pend_cancel_inv) (simp_all add: pend_def)
    moreover have "covered ?q" using assms(2) covered_cong(1) [of ?q q] by simp
    ultimately show ?thesis using CancelOffLoop e by (simp add: timer_cancel_def)
  next
    case (Fire c)
    then show ?thesis using handleRead_spec [OF assms(1), of clk cb c] assms(3) e by simp
  qed
qed

lemma tq_run_spec:
  assumes "tq_inv [] q" "covered q" "\<forall>e \<in> set es. 0 < fst e"
  shows "case tq_run alloc cb es q of Inl x \<Rightarrow> x = Bad_alloc | Inr q' \<Rightarrow> tq_inv [] q' \<and> covered q'"
  using assms
proof (induction es arbitrary: q)
  case (Cons e es)
  have "case tq_step alloc cb e q of Inl x \<Rightarrow> x = Bad_alloc | Inr q' \<Rightarrow> tq_inv [] q' \<and> covered q'"
    using Cons.prems by (intro tq_step_spec) simp_all
  then show ?case unfolding tq_run.simps
    by (rule bind_abort_rule) (use Cons in simp)
qed simp

end

section \<open>Cancelling from a callback\<close>

definition timer_frame :: "nat \<Rightarrow> TimerQueue \<Rightarrow> TimerQueue \<Rightarrow> bool" where
  "timer_frame a q q' \<longleftrightarrow> callingExpiredTimers q' = callingExpiredTimers q \<and> theap q' a = theap q a
     \<and> set (cancelingTimers q) \<subseteq> set (cancelingTimers q')"

lemma timer_frame_trans: "timer_frame a p q \<Longrightarrow> timer_frame a q r \<Longrightarrow> timer_frame a p r"
  by (auto simp: timer_frame_def)

text \<open>A timer that was taken out of the queue is not in the set of active timers.\<close>

lemma expired_inactive:
  assumes "tq_inv E q" "a \<in> set E"
  shows "(a, s) \<notin> set (activeTimers q)"
proof
  assume "(a, s) \<in> set (activeTimers q)"
  then have "a \<in> snd ` set (timers q)" unfolding tq_invD(2) [OF assms(1)] by force
  then show False using tq_invD(5) [OF assms(1)] assms(2) by blast
qed

lemma cancelInLoop_frame:
  assumes "tq_inv E q" "a \<in> set E" "cancelInLoop i q = Inr q'"
  shows "timer_frame a q q'"
    and "callingExpiredTimers q \<Longrightarrow> timer_ptr i = a \<Longrightarrow> (a, timer_sequence i) \<in> set (cancelingTimers q')"
proof -
  have ne: "timer_ptr i \<noteq> a" if "(timer_ptr i, timer_sequence i) \<in> set (activeTimers q)"
    using expired_inactive [OF assms(1,2), of "timer_sequence i"] that by auto
  show "timer_frame a q q'"
    using assms(3) ne by (auto simp: cancelInLoop_def Let_def bind_abort_Inr timer_frame_def split: if_splits)
  show "(a, timer_sequence i) \<in> set (cancelingTimers q')" if "callingExpiredTimers q" "timer_ptr i = a"
    using assms(3) ne that by (auto simp: cancelInLoop_def Let_def bind_abort_Inr split: if_splits)
qed

context timer_allocator
begin

lemma addTimer_frame:
  assumes "tq_inv E q" "a \<in> set E" "addTimer alloc clk inLoop w iv q = Inr (i, q')"
  shows "timer_frame a q q'"
proof -
  obtain b q1 where n: "new_Timer alloc w iv q = Inr (b, q1)"
      "addTimerInLoop clk b q1 = Inr q' \<or> q' = q1\<lparr>tq_functors := tq_functors q1 @ [AddTimerInLoop b]\<rparr>"
    using assms(3) by (auto simp: addTimer_def bind_abort_Inr split: if_splits)
  have live: "theap q a \<noteq> None" using tq_invD(3) [OF assms(1)] assms(2) by blast
  have "timer_frame a q q1"
    using n(1) live alloc_fresh [of "theap q" b] by (auto simp: new_Timer_def timer_frame_def split: option.splits)
  moreover have "timer_frame a q1 q'" using n(2) addTimerInLoop_frame [of clk b q1 q'] by (auto simp: timer_frame_def)
  ultimately show ?thesis by (rule timer_frame_trans)
qed

lemma run_ops_frame:
  assumes "tq_inv E q" "a \<in> set E" "run_ops alloc clk ops q = Inr q'"
  shows "timer_frame a q q' \<and> (callingExpiredTimers q \<longrightarrow> OpCancel (TimerId a s) \<in> set ops \<longrightarrow> (a, s) \<in> set (cancelingTimers q'))"
  using assms(1,3)
proof (induction ops arbitrary: q)
  case Nil
  then show ?case by (simp add: timer_frame_def)
next
  case (Cons op ops)
  obtain q1 where q1: "run_ops alloc clk ops q1 = Inr q'" "tq_inv E q1" "timer_frame a q q1"
      "callingExpiredTimers q \<Longrightarrow> op = OpCancel (TimerId a s) \<Longrightarrow> (a, s) \<in> set (cancelingTimers q1)"
  proof (cases op)
    case (OpAdd w iv)
    then obtain i q1 where r: "addTimer alloc clk True w iv q = Inr (i, q1)" "run_ops alloc clk ops q1 = Inr q'"
      using Cons.prems(2) by (auto simp: bind_abort_Inr)
    have "tq_inv E q1" using addTimer_spec [OF Cons.prems(1), of clk True w iv] r(1) by simp
    with that [OF r(2)] show thesis using addTimer_frame [OF Cons.prems(1) assms(2) r(1)] OpAdd by simp
  next
    case (OpCancel i)
    then obtain q1 where r: "cancelInLoop i q = Inr q1" "run_ops alloc clk ops q1 = Inr q'"
      using Cons.prems(2) by (auto simp: bind_abort_Inr)
    have "tq_inv E q1" using cancel_inv [OF Cons.prems(1), of i] r(1) by simp
    with that [OF r(2)] show thesis using cancelInLoop_frame [OF Cons.prems(1) assms(2) r(1)] OpCancel by force
  qed
  from Cons.IH [OF q1(2,1)] q1(3,4) show ?case by (auto simp: timer_frame_def)
qed

lemma run_expired_frame:
  assumes "tq_inv E q" "a \<in> set E" "snd ` set es \<subseteq> set E" "run_expired alloc cb clk es q = Inr q'"
    "callingExpiredTimers q" "theap q a = Some t" "\<forall>r. OpCancel (TimerId a s) \<in> set (cb t r)"
  shows "timer_frame a q q' \<and> tq_inv E q' \<and> (a \<in> snd ` set es \<longrightarrow> (a, s) \<in> set (cancelingTimers q'))"
  using assms(1,3,4,5,6)
proof (induction es arbitrary: q)
  case Nil
  then show ?case by (simp add: timer_frame_def)
next
  case (Cons e es)
  obtain u q1 where u: "deref q (snd e) = Inr u" "run_ops alloc clk (cb u q) (q\<lparr>run_log := run_log q @ [sequece u]\<rparr>) = Inr q1"
      "run_expired alloc cb clk es q1 = Inr q'"
    using Cons.prems(3) by (auto simp: bind_abort_Inr)
  let ?q = "q\<lparr>run_log := run_log q @ [sequece u]\<rparr>"
  have inv: "tq_inv E ?q" using Cons.prems(1) by simp
  note fr = run_ops_frame [OF inv assms(2) u(2), of s]
  have f1: "timer_frame a q q1" using fr by (simp add: timer_frame_def)
  have inv1: "tq_inv E q1" using run_ops_spec [OF inv, of clk "cb u q"] u(2) by simp
  have "callingExpiredTimers q1" "theap q1 a = Some t" using f1 Cons.prems(4,5) by (simp_all add: timer_frame_def)
  from Cons.IH [OF inv1 _ u(3) this] Cons.prems(2)
  have ih: "timer_frame a q1 q'" "tq_inv E q'" "a \<in> snd ` set es \<longrightarrow> (a, s) \<in> set (cancelingTimers q')" by simp_all
  have "(a, s) \<in> set (cancelingTimers q1)" if "snd e = a"
    using fr u(1) that Cons.prems(4,5) assms(7) by (simp add: deref_def)
  then show ?case using ih f1 timer_frame_trans [OF f1 ih(1)] by (auto simp: timer_frame_def)
qed

end

lemma reset_entries_canceled:
  assumes "reset_entries now es q = Inr q'" "(a, s) \<in> set (cancelingTimers q)" "(a, s) \<notin> set (activeTimers q)"
    "theap q a = Some t \<and> sequece t = s \<or> a \<notin> snd ` set es" "distinct (map snd es)"
  shows "(a, s) \<notin> set (activeTimers q')"
  using assms
proof (induction es arbitrary: q)
  case (Cons e es)
  obtain u where u: "theap q (snd e) = Some u" "deref q (snd e) = Inr u"
    using Cons.prems(1) by (cases "theap q (snd e)") (auto simp: deref_def)
  show ?case
  proof (cases "repeat u \<and> (snd e, sequece u) \<notin> set (cancelingTimers q)")
    case True
    let ?q = "q\<lparr>theap := (theap q)(snd e \<mapsto> timer_restart u now)\<rparr>"
    obtain b q1 where r: "insert_timer (snd e) ?q = Inr (b, q1)" "reset_entries now es q1 = Inr q'"
      using Cons.prems(1) u(2) True by (auto simp: bind_abort_Inr)
    note f = insert_timer_frame [OF r(1)]
    have ne: "snd e \<noteq> a"
    proof
      assume "snd e = a"
      then have "sequece u = s" using u(1) Cons.prems(4) by auto
      with True Cons.prems(2) \<open>snd e = a\<close> show False by simp
    qed
    from f ne Cons.prems have "(a, s) \<notin> set (activeTimers q1)" "(a, s) \<in> set (cancelingTimers q1)"
        "theap q1 a = Some t \<and> sequece t = s \<or> a \<notin> snd ` set es" by auto
    with Cons.IH [OF r(2)] Cons.prems(5) show ?thesis by simp
  next
    case False
    let ?q = "q\<lparr>theap := (theap q)(snd e := None)\<rparr>"
    have r: "reset_entries now es ?q = Inr q'" using Cons.prems(1) u(2) False by (simp split: if_splits)
    have "theap ?q a = Some t \<and> sequece t = s \<or> a \<notin> snd ` set es"
      using Cons.prems(4,5) by (cases "snd e = a") auto
    with Cons.IH [OF r] Cons.prems(2,3,5) show ?thesis by simp
  qed
qed simp

context timer_allocator
begin

lemma handleRead_canceled:
  assumes "tq_inv [] q" "0 < now" "(w, a) \<in> set (timers q)" "w \<le> Timestamp now" "theap q a = Some t"
    "\<forall>r. OpCancel (TimerId a (sequece t)) \<in> set (cb t r)" "timer_handleRead alloc cb now clk q = Inr q'"
  shows "(a, sequece t) \<notin> set (activeTimers q')"
proof -
  let ?ex = "filter (\<lambda>(w, a). w \<le> Timestamp now) (timers q)"
  obtain q1 where q1: "getExpired (Timestamp now) (readTimerfd q) = Inr (?ex, q1)" "tq_inv (map snd ?ex) q1" "theap q1 = theap q"
    using getExpired_spec [of "readTimerfd q" "Timestamp now"] assms(1) by (auto simp: readTimerfd_def)
  let ?q2 = "q1\<lparr>callingExpiredTimers := True, cancelingTimers := []\<rparr>"
  obtain q3 where q3: "run_expired alloc cb clk ?ex ?q2 = Inr q3"
      "reset_timers clk ?ex (Timestamp now) (q3\<lparr>callingExpiredTimers := False\<rparr>) = Inr q'"
    using assms(7) q1(1) by (auto simp: timer_handleRead_def bind_abort_Inr)
  have "(w, a) \<in> set ?ex" using assms(3,4) by simp
  then have a: "a \<in> snd ` set ?ex" by (rule image_eqI [rotated]) simp
  have inv2: "tq_inv (map snd ?ex) ?q2" using q1(2) by simp
  have fr: "timer_frame a ?q2 q3" "tq_inv (map snd ?ex) q3" "(a, sequece t) \<in> set (cancelingTimers q3)"
    using run_expired_frame [OF inv2 _ _ q3(1) _ _ assms(6)] a q1(3) assms(5) by simp_all
  let ?q3 = "q3\<lparr>callingExpiredTimers := False\<rparr>"
  obtain q4 where q4: "reset_entries (Timestamp now) ?ex ?q3 = Inr q4" "activeTimers q' = activeTimers q4"
    using q3(2) by (auto simp: reset_timers_def bind_abort_Inr resetTimerfd_def split: if_splits)
  have "(a, sequece t) \<notin> set (activeTimers ?q3)" using expired_inactive [OF fr(2)] a by simp
  moreover have "distinct (map snd ?ex)" using tq_invD(4) [OF fr(2)] by simp
  moreover have "theap ?q3 a = Some t" using fr(1) q1(3) assms(5) by (simp add: timer_frame_def)
  ultimately show ?thesis using reset_entries_canceled [OF q4(1), of a "sequece t" t] fr(3) q4(2) by simp
qed

end

section \<open>Deleting the queue, and a firing with quiet callbacks\<close>

lemma delete_timers_result:
  assumes "\<forall>e \<in> set es. theap q (snd e) \<noteq> None" "distinct (map snd es)"
  shows "delete_timers es q = Inr (q\<lparr>theap := (\<lambda>a. if a \<in> snd ` set es then None else theap q a)\<rparr>)"
  using assms
proof (induction es arbitrary: q)
  case (Cons e es)
  let ?q = "q\<lparr>theap := (theap q)(snd e := None)\<rparr>"
  have "\<forall>x \<in> set es. theap ?q (snd x) \<noteq> None" using Cons.prems by (auto simp: image_iff)
  from Cons.IH [OF this] Cons.prems show ?case
    by (auto simp: deref_def fun_eq_iff intro!: arg_cong [of _ _ "\<lambda>h. q\<lparr>theap := h\<rparr>"])
qed simp

lemma delete_TimerQueue_spec:
  assumes "tq_inv [] q"
  shows "\<exists>q'. delete_TimerQueue q = Inr q' \<and> dom (theap q') = set (pend q)"
proof -
  have live: "\<forall>e \<in> set (timers q). theap q (snd e) \<noteq> None" using tq_invD(1) [OF assms] by fastforce
  have "dom (\<lambda>a. if a \<in> snd ` set (timers q) then None else theap q a) = dom (theap q) - snd ` set (timers q)"
    by (force split: if_splits)
  also have "\<dots> = set (pend q)" using tq_invD(3,5) [OF assms] by auto
  finally show ?thesis using delete_timers_result [OF live tq_distinct [OF assms]] by (simp add: delete_TimerQueue_def)
qed

text \<open>Some free address among the first few, the instance used for examples.\<close>

definition demo_alloc :: allocator where
  "demo_alloc h = find (\<lambda>a. h a = None) [1, 2, 3, 4]"

interpretation demo: timer_allocator demo_alloc
proof
  fix h a assume "demo_alloc h = Some a"
  then have "h a = None" "a \<in> set [1, 2, 3, 4]" by (auto simp: demo_alloc_def split: if_splits)
  then show "h a = None \<and> 0 < a \<and> a < UINTPTR_MAX" by (auto simp: UINTPTR_MAX_def)
qed

section \<open>Properties\<close>


definition demo_events :: "(int \<times> tq_event) list" where
  "demo_events = [(10, AddTimer (Timestamp 1000) 1), (20, AddTimerOffLoop (Timestamp 500) 0), (30, RunPending),
     (2000, Fire 2001), (2002, Cancel (TimerId 1 1)), (2003, CancelOffLoop (TimerId 1 1)), (2004, RunPending)]"

definition demo_callback :: timer_callback where
  "demo_callback t q = [OpCancel (TimerId 2 (sequece t)), OpAdd (Timestamp 3000) 0]"


text \<open>C13: no timer is forgotten by the timer descriptor. After any such sequence, with the clock past the
  epoch, the descriptor is armed whenever a timer is waiting, for a moment not after the expiration of
  the earliest one, or 100 microseconds after it was armed if that is later; the \<^verbatim>\<open>tv_nsec\<close> it was
  given is a valid one.\<close>

theorem timerfd_always_armed:
  assumes "timer_allocator alloc" "\<forall>e \<in> set es. 0 < fst e" "tq_run alloc cb es new_TimerQueue = Inr q" "timers q \<noteq> []"
  shows "\<exists>clk s n. armed q = Some (clk, s, n)
    \<and> clk + s * kMicroSecondsPerSecond + n div 1000 \<le> max (microSecondsSinceEpoch (fst (hd (timers q)))) (clk + 100)
    \<and> (\<forall>(w, a) \<in> set (timers q). fst (hd (timers q)) \<le> w)"
proof -
  have "covered new_TimerQueue" by (simp add: covered_def new_TimerQueue_def)
  from timer_allocator.tq_run_spec [OF assms(1) tq_inv_new this assms(2), of cb] assms(3)
  have "covered q" "tq_inv [] q" by simp_all
  moreover have "fst (hd (timers q)) \<le> w" if "(w, a) \<in> set (timers q)" for w a
  proof -
    have "sorted_wrt (<) (timers q)" using \<open>tq_inv [] q\<close> by (simp add: tq_inv_def)
    then have "hd (timers q) \<le> (w, a)" using that by (cases "timers q") (auto simp del: less_eq_prod_simp less_prod_simp)
    then show ?thesis by (auto simp: less_eq_prod_def)
  qed
  ultimately show ?thesis using assms(4) by (auto simp: covered_def)
qed

theorem timerfd_always_armed_witness:
  "\<exists>q. tq_run demo_alloc demo_callback [(10, AddTimer (Timestamp 1000) 1)] new_TimerQueue = Inr q
     \<and> (\<exists>clk s n. armed q = Some (clk, s, n))"
proof -
  let ?es = "[(10 :: int, AddTimer (Timestamp 1000) 1)]"
  have h: "\<forall>e \<in> set ?es. 0 < fst e" by simp
  have "\<exists>q. tq_run demo_alloc demo_callback ?es new_TimerQueue = Inr q \<and> timers q \<noteq> []"
    by (simp add: addTimer_def timer_id_of_def new_Timer_def demo_alloc_def new_TimerQueue_def addTimerInLoop_def insert_timer_def deref_def
        resetTimerfd_def)
  then obtain q where q: "tq_run demo_alloc demo_callback ?es new_TimerQueue = Inr q" "timers q \<noteq> []" by blast
  show ?thesis using q(1) timerfd_always_armed [OF demo.timer_allocator_axioms h q] by auto
qed

text \<open>\<^verbatim>\<open>getExpired\<close> takes out of the queue exactly the timers that are due, in the order of their
  expiration, the ones due at this very moment included, and leaves the others in order.\<close>

theorem getExpired_exact:
  assumes "tq_inv [] q"
  shows "\<exists>q'. getExpired now q = Inr (filter (\<lambda>(w, a). w \<le> now) (timers q), q')
    \<and> timers q' = filter (\<lambda>(w, a). now < w) (timers q) \<and> theap q' = theap q
    \<and> sorted_wrt (<) (filter (\<lambda>(w, a). w \<le> now) (timers q))
    \<and> set (activeTimers q') = {(a, s). \<exists>w t. (w, a) \<in> set (timers q) \<and> now < w \<and> theap q a = Some t \<and> s = sequece t}"
proof -
  obtain q' where q': "getExpired now q = Inr (filter (\<lambda>(w, a). w \<le> now) (timers q), q')"
      "tq_inv (map snd (filter (\<lambda>(w, a). w \<le> now) (timers q))) q'"
      "timers q' = filter (\<lambda>(w, a). now < w) (timers q)" "theap q' = theap q"
    using getExpired_spec [OF assms, of now] by blast
  have "sorted_wrt (<) (timers q)" using assms by (simp add: tq_inv_def)
  then show ?thesis using q' tq_invD(2) [OF q'(2)] by (auto simp: sorted_wrt_filter)
qed

theorem getExpired_exact_witness:
  "\<exists>q'. getExpired (Timestamp 5) new_TimerQueue = Inr ([], q')"
  using getExpired_exact [OF tq_inv_new, of "Timestamp 5"] by (auto simp: new_TimerQueue_def)

text \<open>C14: A repeating timer can cancel itself. If the callback of a due timer cancels that timer, then the
  timer is not active after the firing, although it was already taken out of the queue when the
  callback ran: it is not scheduled again.\<close>

theorem cancel_from_callback:
  assumes "timer_allocator alloc" "tq_inv [] q" "0 < now" "(w, a) \<in> set (timers q)" "w \<le> Timestamp now" "theap q a = Some t"
    "\<forall>r. OpCancel (TimerId a (sequece t)) \<in> set (cb t r)" "timer_handleRead alloc cb now clk q = Inr q'"
  shows "(a, sequece t) \<notin> set (activeTimers q')"
  using timer_allocator.handleRead_canceled [OF assms] .

theorem cancel_from_callback_witness:
  "\<exists>q q'. tq_run demo_alloc demo_callback [(10, AddTimer (Timestamp 1000) 1)] new_TimerQueue = Inr q
     \<and> timer_handleRead demo_alloc (\<lambda>t r. [OpCancel (TimerId 1 1)]) 2000 2001 q = Inr q' \<and> (1, 1) \<notin> set (activeTimers q')"
proof -
  let ?t = "\<lparr>expiration = Timestamp 1000, interval = 1, repeat = True, sequece = 1\<rparr> :: Timer"
  let ?q = "\<lparr>timers = [(Timestamp 1000, 1)], activeTimers = [(1, 1)], callingExpiredTimers = False, cancelingTimers = [],
      theap = [1 \<mapsto> ?t], numCreated = 1, armed = Some (10, howMuchTimeFromNow 10 (Timestamp 1000)), tq_functors = [], run_log = []\<rparr> :: TimerQueue"
  have run: "tq_run demo_alloc demo_callback [(10, AddTimer (Timestamp 1000) 1)] new_TimerQueue = Inr ?q"
    by (simp add: addTimer_def timer_id_of_def new_Timer_def demo_alloc_def new_TimerQueue_def addTimerInLoop_def insert_timer_def deref_def
        resetTimerfd_def)
  have inv: "tq_inv [] ?q" by (auto simp: tq_inv_def UINTPTR_MAX_def pend_def)
  have "case timer_handleRead demo_alloc (\<lambda>t r. [OpCancel (TimerId 1 1)]) 2000 2001 ?q of Inl x \<Rightarrow> False | Inr q' \<Rightarrow> True"
    by (simp add: timer_handleRead_def getExpired_def readTimerfd_def lower_bound_def deref_def set_erase_def cancelInLoop_def
        reset_timers_def valid_def new_Timestamp_def)
  then obtain q' where q': "timer_handleRead demo_alloc (\<lambda>t r. [OpCancel (TimerId 1 1)]) 2000 2001 ?q = Inr q'"
    by (auto split: sum.splits)
  have "(1, sequece ?t) \<notin> set (activeTimers q')"
    by (rule cancel_from_callback [OF demo.timer_allocator_axioms inv _ _ _ _ _ q', of "Timestamp 1000"]) simp_all
  then show ?thesis using run q' by auto
qed


text \<open>A timer that is inserted and then cancelled in the loop's thread leaves no trace.\<close>

lemma insert_cancel:
  assumes "tq_inv [] q" "theap q a = None"
  shows "\<exists>q1. addTimerInLoop clk a (q\<lparr>theap := (theap q)(a \<mapsto> t), numCreated := n, tq_functors := fs\<rparr>) = Inr q1
    \<and> tq_functors q1 = fs
    \<and> (\<forall>gs. \<exists>q2. cancelInLoop (TimerId a (sequece t)) (q1\<lparr>tq_functors := gs\<rparr>) = Inr q2
         \<and> timers q2 = timers q \<and> activeTimers q2 = activeTimers q \<and> theap q2 = theap q \<and> tq_functors q2 = gs)"
proof -
  let ?q = "q\<lparr>theap := (theap q)(a \<mapsto> t), numCreated := n, tq_functors := fs\<rparr>"
  have "a \<notin> snd ` set (timers q)" using assms(2) tq_invD(3) [OF assms(1)] by blast
  then have new: "(expiration t, a) \<notin> set (timers q)" "(a, sequece t) \<notin> set (activeTimers q)"
    unfolding tq_invD(2) [OF assms(1)] by force+
  have "\<exists>q1. addTimerInLoop clk a ?q = Inr q1 \<and> timers q1 = set_insert (expiration t, a) (timers q)
      \<and> activeTimers q1 = set_insert (a, sequece t) (activeTimers q) \<and> theap q1 = (theap q)(a \<mapsto> t) \<and> tq_functors q1 = fs"
    by (cases "timers q = [] \<or> expiration t < fst (hd (timers q))")
      (simp_all add: addTimerInLoop_def insert_timer_def deref_def resetTimerfd_def Let_def)
  then obtain q1 where q1: "addTimerInLoop clk a ?q = Inr q1" "timers q1 = set_insert (expiration t, a) (timers q)"
      "activeTimers q1 = set_insert (a, sequece t) (activeTimers q)" "theap q1 = (theap q)(a \<mapsto> t)" "tq_functors q1 = fs" by blast
  then show ?thesis using new assms(2) by (auto simp: cancelInLoop_def deref_def)
qed

text \<open>C31: adding a timer and cancelling it with the identifier that was returned undoes the addition, in the loop's thread
  and, once the loop has run what was queued, from another: the two ordered sets and the live timers are what
  they were, and the new timer is deleted.\<close>

theorem addTimer_cancel:
  assumes "timer_allocator alloc" "tq_inv [] q" "tq_functors q = []" "addTimer alloc clk inLoop w iv q = Inr (i, q1)"
  shows "\<exists>q2 q3. timer_cancel inLoop i q1 = Inr q2
    \<and> tq_run alloc cb [(clk1, RunPending), (clk2, RunPending)] q2 = Inr q3
    \<and> timers q3 = timers q \<and> activeTimers q3 = activeTimers q \<and> theap q3 = theap q \<and> tq_functors q3 = []"
proof -
  let ?t = "\<lparr>expiration = w, interval = iv, repeat = (iv > 0), sequece = numCreated q + 1\<rparr> :: Timer"
  obtain a where a: "alloc (theap q) = Some a"
    using assms(4) by (auto simp: addTimer_def new_Timer_def split: option.splits)
  then have fresh: "theap q a = None" using timer_allocator.alloc_fresh [OF assms(1)] by blast
  let ?q = "\<lambda>fs. q\<lparr>theap := (theap q)(a \<mapsto> ?t), numCreated := numCreated q + 1, tq_functors := fs\<rparr>"
  have same: "?q [] = q\<lparr>theap := (theap q)(a \<mapsto> ?t), numCreated := numCreated q + 1\<rparr>" using assms(3) by (cases q) simp
  have id: "i = TimerId a (sequece ?t)"
    using assms(4) a by (auto simp: addTimer_def new_Timer_def timer_id_of_def addTimerInLoop_def insert_timer_def deref_def
        resetTimerfd_def Let_def split: if_splits)
  note ic = insert_cancel [OF assms(2) fresh, where t = ?t and n = "numCreated q + 1"]
  show ?thesis
  proof (cases inLoop)
    case True
    then have q1: "addTimerInLoop clk a (?q []) = Inr q1"
      using assms(4) a unfolding same by (auto simp: addTimer_def new_Timer_def bind_abort_Inr)
    have f: "tq_functors q1 = []" "\<forall>gs. \<exists>q2. cancelInLoop i (q1\<lparr>tq_functors := gs\<rparr>) = Inr q2
        \<and> timers q2 = timers q \<and> activeTimers q2 = activeTimers q \<and> theap q2 = theap q \<and> tq_functors q2 = gs"
      using ic [where clk = clk and fs = "[]"] q1 unfolding id by auto
    then have "q1\<lparr>tq_functors := []\<rparr> = q1" by (cases q1) simp
    with f(2) obtain q2 where "cancelInLoop i q1 = Inr q2" "timers q2 = timers q" "activeTimers q2 = activeTimers q"
        "theap q2 = theap q" "tq_functors q2 = []" by metis
    then show ?thesis using True by (simp add: timer_cancel_def)
  next
    case False
    then have q1: "q1 = ?q [AddTimerInLoop a]"
      using assms(3,4) a by (auto simp: addTimer_def new_Timer_def bind_abort_Inr)
    obtain p where p: "addTimerInLoop clk1 a (?q [CancelInLoop i]) = Inr p" "tq_functors p = [CancelInLoop i]"
      "\<forall>gs. \<exists>q2. cancelInLoop i (p\<lparr>tq_functors := gs\<rparr>) = Inr q2
         \<and> timers q2 = timers q \<and> activeTimers q2 = activeTimers q \<and> theap q2 = theap q \<and> tq_functors q2 = gs"
      using ic [where clk = clk1 and fs = "[CancelInLoop i]"] unfolding id by blast
    from p(3) obtain q2 where "cancelInLoop i (p\<lparr>tq_functors := []\<rparr>) = Inr q2" "timers q2 = timers q"
        "activeTimers q2 = activeTimers q" "theap q2 = theap q" "tq_functors q2 = []" by metis
    then show ?thesis using False p(1,2) unfolding q1 by (simp add: timer_cancel_def)
  qed
qed

theorem addTimer_cancel_witness:
  "\<exists>i q1 q2 q3. addTimer demo_alloc 10 False (Timestamp 1000) 1 new_TimerQueue = Inr (i, q1)
     \<and> timer_cancel False i q1 = Inr q2
     \<and> tq_run demo_alloc (\<lambda>_ _. []) [(20, RunPending), (30, RunPending)] q2 = Inr q3 \<and> timers q3 = [] \<and> theap q3 = (\<lambda>_. None)"
proof -
  have "\<exists>i q1. addTimer demo_alloc 10 False (Timestamp 1000) 1 new_TimerQueue = Inr (i, q1)"
    by (simp add: addTimer_def timer_id_of_def new_Timer_def demo_alloc_def new_TimerQueue_def deref_def)
  then obtain i q1 where q1: "addTimer demo_alloc 10 False (Timestamp 1000) 1 new_TimerQueue = Inr (i, q1)" by blast
  have "tq_functors new_TimerQueue = []" by (simp add: new_TimerQueue_def)
  from q1 addTimer_cancel [OF demo.timer_allocator_axioms tq_inv_new this q1, of "\<lambda>_ _. []" 20 30] show ?thesis
    by (auto simp: new_TimerQueue_def)
qed

text \<open>A cancellation in the loop's thread has no effect on a timer whose insertion is still waiting in the loop: the timer is
  inserted afterwards and will fire.\<close>

lemma cancel_overtakes_insertion:
  assumes "tq_inv E q" "a \<in> set (pend q)" "\<not> callingExpiredTimers q"
  shows "timer_cancel True (TimerId a s) q = Inr q"
proof -
  have "a \<notin> snd ` set (timers q)" using tq_invD(5) [OF assms(1)] assms(2) by blast
  then have "(a, s) \<notin> set (activeTimers q)" unfolding tq_invD(2) [OF assms(1)] by force
  then show ?thesis using assms(3) by (simp add: timer_cancel_def cancelInLoop_def)
qed



end
