(* ===== verification/Ymuduo_EventLoop.thy ===== *)
theory Ymuduo_EventLoop
  imports Ymuduo_TimerQueue Ymuduo_EPollPoller
begin

text \<open>
  The event loop (\<^verbatim>\<open>src/include/EventLoop.h\<close>, \<^verbatim>\<open>src/src/EventLoop.cc\<close>). The first part is the machinery
  by which other threads hand functors to the loop: the vector of pending functors, the event
  descriptor that wakes the loop up, and the loop itself as a program counter. Each atomic action of the
  loop's thread and of the other threads is one step of an inductive relation, so that their actions
  interleave in every order. The second part is the construction and destruction of the loop with its
  poller, timer queue and wake-up channel, and its timer interface.
\<close>

section \<open>State\<close>

text \<open>Where the loop's thread is: outside \<^verbatim>\<open>loop()\<close>, at the test of \<^verbatim>\<open>quit_\<close>, in \<^verbatim>\<open>poll\<close>, handling active
  channels, at the start of \<^verbatim>\<open>doPendingFunctors\<close> (the flag is set, the functors are not taken yet), or
  running the functors it took.\<close>

datatype loop_pc = Idle | Test | Polling | Handling | Swapping | Running

text \<open>What a callback or a functor does to its loop, in the loop's thread. \<^verbatim>\<open>runInLoop\<close> calls its argument at
  once there, so that the effects of the argument are listed in place. The calls a thread still has to
  make are these, or the read callback of the wake-up channel.\<close>

datatype loop_act = QueueInLoop nat | Quit

datatype loop_call = Callback loop_act | WakeupChannel

text \<open>A functor is a number. \<open>todo\<close> holds the remaining calls of the active channels or of the functor that is
  running. \<open>in_flight\<close> counts the other threads that have changed the shared state in \<^verbatim>\<open>queueInLoop\<close> or
  \<^verbatim>\<open>quit\<close> and have not called \<^verbatim>\<open>wakeup\<close> yet. \<open>queued\<close> and \<open>executed\<close> are the functors ever queued and ever
  run, \<open>early\<close> records a \<^verbatim>\<open>queueInLoop\<close> by the loop's own thread outside \<^verbatim>\<open>loop()\<close> whose functor has not been
  taken yet, \<open>loop_errors\<close> counts the lines logged by \<^verbatim>\<open>handleRead\<close> and \<^verbatim>\<open>wakeup\<close>.\<close>

record EventLoop =
  looping :: bool
  quit :: bool
  loop_eventHandling :: bool
  callingPendingFunctors :: bool
  loop_pendingFunctors :: "nat list"
  functors :: "nat list"
  wakeupCount :: nat
  loop_errors :: nat
  pc :: loop_pc
  todo :: "loop_call list"
  in_flight :: nat
  queued :: "nat list"
  executed :: "nat list"
  early :: bool

definition new_EventLoop :: EventLoop where
  "new_EventLoop = \<lparr>looping = False, quit = False, loop_eventHandling = False, callingPendingFunctors = False,
     loop_pendingFunctors = [], functors = [], wakeupCount = 0, loop_errors = 0, pc = Idle, todo = [],
     in_flight = 0, queued = [], executed = [], early = False\<rparr>"

section \<open>Operations\<close>

text \<open>An event descriptor counts up to \<open>2 ^ 64 - 2\<close>; a write that would exceed this fails. A read takes
  the whole count and fails when it is zero.\<close>

definition eventfd_max :: nat where
  "eventfd_max = 2 ^ 64 - 2"

definition wakeup :: "EventLoop \<Rightarrow> EventLoop" where
  "wakeup s = (if wakeupCount s < eventfd_max then s\<lparr>wakeupCount := Suc (wakeupCount s)\<rparr>
               else s\<lparr>loop_errors := Suc (loop_errors s)\<rparr>)"

definition loop_handleRead :: "EventLoop \<Rightarrow> EventLoop" where
  "loop_handleRead s = (if wakeupCount s = 0 then s\<lparr>loop_errors := Suc (loop_errors s)\<rparr> else s\<lparr>wakeupCount := 0\<rparr>)"

definition push_functor :: "nat \<Rightarrow> EventLoop \<Rightarrow> EventLoop" where
  "push_functor f s = s\<lparr>loop_pendingFunctors := loop_pendingFunctors s @ [f], queued := queued s @ [f]\<rparr>"

text \<open>The first argument is \<^verbatim>\<open>isInLoopThread()\<close>. In the interleaving below a call from another thread is two
  steps, the change of the shared state and the wake-up.\<close>

definition queueInLoop :: "bool \<Rightarrow> nat \<Rightarrow> EventLoop \<Rightarrow> EventLoop" where
  "queueInLoop inLoop f s =
     (let s1 = push_functor f s in if \<not> inLoop \<or> callingPendingFunctors s1 then wakeup s1 else s1)"

definition loop_quit :: "bool \<Rightarrow> EventLoop \<Rightarrow> EventLoop" where
  "loop_quit inLoop s = (let s1 = s\<lparr>quit := True\<rparr> in if \<not> inLoop then wakeup s1 else s1)"

definition runInLoop :: "bool \<Rightarrow> (nat \<Rightarrow> EventLoop \<Rightarrow> EventLoop) \<Rightarrow> nat \<Rightarrow> EventLoop \<Rightarrow> EventLoop" where
  "runInLoop inLoop call f s = (if inLoop then call f s else queueInLoop inLoop f s)"

fun do_call :: "loop_call \<Rightarrow> EventLoop \<Rightarrow> EventLoop" where
  "do_call (Callback (QueueInLoop f)) s = queueInLoop True f s"
| "do_call (Callback Quit) s = loop_quit True s"
| "do_call WakeupChannel s = loop_handleRead s"

definition start_loop :: "EventLoop \<Rightarrow> abort + EventLoop" where
  "start_loop s = (if looping s then Inl Assert_fail else Inr (s\<lparr>looping := True, quit := False, pc := Test\<rparr>))"

definition test_quit :: "EventLoop \<Rightarrow> EventLoop" where
  "test_quit s = (if quit s then s\<lparr>looping := False, pc := Idle\<rparr> else s\<lparr>pc := Polling\<rparr>)"

text \<open>\<^verbatim>\<open>poll\<close> returns and the callbacks of the active channels are going to make the calls \<open>cs\<close>; the wake-up
  channel is among them, once, exactly when its count is positive.\<close>

definition poll_result :: "loop_call list \<Rightarrow> EventLoop \<Rightarrow> bool" where
  "poll_result cs s \<longleftrightarrow> count_list cs WakeupChannel = (if wakeupCount s > 0 then 1 else 0)"

definition poll_returns :: "loop_call list \<Rightarrow> EventLoop \<Rightarrow> EventLoop" where
  "poll_returns cs s = s\<lparr>loop_eventHandling := True, todo := cs, pc := Handling\<rparr>"

definition next_call :: "EventLoop \<Rightarrow> EventLoop" where
  "next_call s = (case todo s of [] \<Rightarrow> s | c # cs \<Rightarrow> do_call c (s\<lparr>todo := cs\<rparr>))"

definition handled :: "EventLoop \<Rightarrow> EventLoop" where
  "handled s = s\<lparr>loop_eventHandling := False, callingPendingFunctors := True, pc := Swapping\<rparr>"

definition swap_functors :: "EventLoop \<Rightarrow> EventLoop" where
  "swap_functors s = s\<lparr>functors := loop_pendingFunctors s, loop_pendingFunctors := [], early := False, pc := Running\<rparr>"

text \<open>The next round of the loop over the functors that were taken: call the next one, or leave.\<close>

definition next_functor :: "(nat \<Rightarrow> loop_act list) \<Rightarrow> EventLoop \<Rightarrow> EventLoop" where
  "next_functor body s =
     (case functors s of
        [] \<Rightarrow> s\<lparr>callingPendingFunctors := False, pc := Test\<rparr>
      | f # fs \<Rightarrow> s\<lparr>functors := fs, executed := executed s @ [f], todo := map Callback (body f)\<rparr>)"

section \<open>Interleaving\<close>

inductive loop_step :: "(nat \<Rightarrow> loop_act list) \<Rightarrow> EventLoop \<Rightarrow> EventLoop \<Rightarrow> bool" for body where
  early_queue: "pc s = Idle \<Longrightarrow> loop_step body s ((queueInLoop True f s)\<lparr>early := True\<rparr>)"
| early_quit: "pc s = Idle \<Longrightarrow> loop_step body s (loop_quit True s)"
| start: "pc s = Idle \<Longrightarrow> start_loop s = Inr s' \<Longrightarrow> loop_step body s s'"
| test: "pc s = Test \<Longrightarrow> loop_step body s (test_quit s)"
| poll: "pc s = Polling \<Longrightarrow> poll_result cs s \<Longrightarrow> loop_step body s (poll_returns cs s)"
| call: "todo s \<noteq> [] \<Longrightarrow> loop_step body s (next_call s)"
| handled: "pc s = Handling \<Longrightarrow> todo s = [] \<Longrightarrow> loop_step body s (handled s)"
| swap: "pc s = Swapping \<Longrightarrow> loop_step body s (swap_functors s)"
| run: "pc s = Running \<Longrightarrow> todo s = [] \<Longrightarrow> loop_step body s (next_functor body s)"
| other_queue: "loop_step body s ((push_functor f s)\<lparr>in_flight := Suc (in_flight s)\<rparr>)"
| other_quit: "loop_step body s (s\<lparr>quit := True, in_flight := Suc (in_flight s)\<rparr>)"
| other_wakeup: "in_flight s > 0 \<Longrightarrow> loop_step body s ((wakeup s)\<lparr>in_flight := in_flight s - 1\<rparr>)"

inductive loop_reachable :: "(nat \<Rightarrow> loop_act list) \<Rightarrow> EventLoop \<Rightarrow> bool" for body where
  init: "loop_reachable body new_EventLoop"
| step: "loop_reachable body s \<Longrightarrow> loop_step body s s' \<Longrightarrow> loop_reachable body s'"

inductive_cases loop_stepE: "loop_step body s s'"

section \<open>Invariants\<close>

text \<open>A wake-up is on its way: the event descriptor is readable, or a thread is about to write to it.\<close>

definition wakeup_coming :: "EventLoop \<Rightarrow> bool" where
  "wakeup_coming s \<longleftrightarrow> wakeupCount s > 0 \<or> in_flight s > 0"

definition wakeup_inv :: "EventLoop \<Rightarrow> bool" where
  "wakeup_inv s \<longleftrightarrow>
     (loop_pendingFunctors s \<noteq> [] \<longrightarrow> wakeup_coming s \<or> early s \<or> pc s = Handling \<or> pc s = Swapping)
     \<and> (quit s \<and> pc s = Polling \<longrightarrow> wakeup_coming s)"

definition queue_inv :: "EventLoop \<Rightarrow> bool" where
  "queue_inv s \<longleftrightarrow> queued s = executed s @ functors s @ loop_pendingFunctors s \<and> (functors s \<noteq> [] \<longrightarrow> pc s = Running)"

definition flag_inv :: "EventLoop \<Rightarrow> bool" where
  "flag_inv s \<longleftrightarrow>
     (callingPendingFunctors s \<longleftrightarrow> pc s = Swapping \<or> pc s = Running)
     \<and> (looping s \<longleftrightarrow> pc s \<noteq> Idle)
     \<and> (loop_eventHandling s \<longleftrightarrow> pc s = Handling)
     \<and> (todo s \<noteq> [] \<longrightarrow> pc s = Handling \<or> pc s = Running)
     \<and> (WakeupChannel \<in> set (todo s) \<longrightarrow> pc s = Handling)"

definition eventfd_inv :: "EventLoop \<Rightarrow> bool" where
  "eventfd_inv s \<longleftrightarrow>
     wakeupCount s \<le> eventfd_max \<and>
     (count_list (todo s) WakeupChannel = 0 \<or> count_list (todo s) WakeupChannel = 1 \<and> wakeupCount s > 0)"

definition loop_inv :: "EventLoop \<Rightarrow> bool" where
  "loop_inv s \<longleftrightarrow> wakeup_inv s \<and> queue_inv s \<and> flag_inv s \<and> eventfd_inv s"

lemmas loop_ops = push_functor_def queueInLoop_def loop_quit_def start_loop_def test_quit_def
  poll_returns_def handled_def swap_functors_def next_functor_def Let_def

text \<open>What a wake-up and a read leave alone, and what they do to the count.\<close>

lemma wakeup_fields [simp]:
  "looping (wakeup s) = looping s" "quit (wakeup s) = quit s" "loop_eventHandling (wakeup s) = loop_eventHandling s"
  "callingPendingFunctors (wakeup s) = callingPendingFunctors s" "loop_pendingFunctors (wakeup s) = loop_pendingFunctors s"
  "functors (wakeup s) = functors s" "pc (wakeup s) = pc s" "todo (wakeup s) = todo s" "in_flight (wakeup s) = in_flight s"
  "queued (wakeup s) = queued s" "executed (wakeup s) = executed s" "early (wakeup s) = early s"
  "wakeupCount (wakeup s) > 0"
  by (auto simp: wakeup_def eventfd_max_def)

lemma handleRead_fields [simp]:
  "looping (loop_handleRead s) = looping s" "quit (loop_handleRead s) = quit s"
  "loop_eventHandling (loop_handleRead s) = loop_eventHandling s"
  "callingPendingFunctors (loop_handleRead s) = callingPendingFunctors s"
  "loop_pendingFunctors (loop_handleRead s) = loop_pendingFunctors s"
  "functors (loop_handleRead s) = functors s" "pc (loop_handleRead s) = pc s" "todo (loop_handleRead s) = todo s"
  "in_flight (loop_handleRead s) = in_flight s" "queued (loop_handleRead s) = queued s"
  "executed (loop_handleRead s) = executed s" "early (loop_handleRead s) = early s"
  "wakeupCount (loop_handleRead s) = 0"
  by (auto simp: loop_handleRead_def)

lemma wakeup_count_le: "wakeupCount s \<le> eventfd_max \<Longrightarrow> wakeupCount (wakeup s) \<le> eventfd_max"
  by (auto simp: wakeup_def)

text \<open>The event descriptor is read only when its count is positive.\<close>

lemma handleRead_no_error:
  assumes "loop_inv s" "todo s = WakeupChannel # cs"
  shows "loop_errors (next_call s) = loop_errors s"
  using assms by (auto simp: loop_inv_def eventfd_inv_def next_call_def loop_handleRead_def)


text \<open>Each part of the invariant, for one call of a callback and then for one step.\<close>

lemma loop_invD:
  assumes "loop_inv s"
  shows "wakeup_inv s" "queue_inv s" "flag_inv s" "eventfd_inv s"
  using assms by (simp_all add: loop_inv_def)

lemma next_call_cases:
  assumes "todo s \<noteq> []"
  obtains (queue) f cs where "todo s = Callback (QueueInLoop f) # cs" "next_call s = queueInLoop True f (s\<lparr>todo := cs\<rparr>)"
    | (quit) cs where "todo s = Callback Quit # cs" "next_call s = loop_quit True (s\<lparr>todo := cs\<rparr>)"
    | (read) cs where "todo s = WakeupChannel # cs" "next_call s = loop_handleRead (s\<lparr>todo := cs\<rparr>)"
proof (cases "todo s")
  case Nil
  then show ?thesis using assms by simp
next
  case (Cons c cs)
  show ?thesis
  proof (cases c)
    case WakeupChannel
    then show ?thesis using Cons read by (simp add: next_call_def)
  next
    case (Callback a)
    then show ?thesis using Cons queue quit by (cases a) (auto simp: next_call_def)
  qed
qed

lemma next_call_inv:
  assumes inv: "loop_inv s" and todo: "todo s \<noteq> []"
  shows "loop_inv (next_call s)"
  using todo
proof (cases rule: next_call_cases)
  case (queue f cs)
  show ?thesis using loop_invD [OF inv] queue wakeup_count_le
    by (auto simp: loop_inv_def wakeup_inv_def queue_inv_def flag_inv_def eventfd_inv_def wakeup_coming_def
        queueInLoop_def push_functor_def Let_def)
next
  case (quit cs)
  show ?thesis using loop_invD [OF inv] quit
    by (auto simp: loop_inv_def wakeup_inv_def queue_inv_def flag_inv_def eventfd_inv_def wakeup_coming_def loop_quit_def)
next
  case (read cs)
  have "pc s = Handling" using loop_invD(3) [OF inv] read(1) by (simp add: flag_inv_def)
  moreover have "count_list cs WakeupChannel = 0"
    using loop_invD(4) [OF inv] read(1) by (simp add: eventfd_inv_def)
  ultimately show ?thesis using loop_invD [OF inv] read
    by (simp add: loop_inv_def wakeup_inv_def queue_inv_def flag_inv_def eventfd_inv_def)
qed


lemma loop_inv_step:
  assumes step: "loop_step body s s'" and inv: "loop_inv s"
  shows "loop_inv s'"
  using step
proof cases
  case call
  then show ?thesis using next_call_inv [OF inv] by simp
next
  case (poll cs)
  then show ?thesis using loop_invD [OF inv]
    by (auto simp: loop_inv_def wakeup_inv_def queue_inv_def flag_inv_def eventfd_inv_def poll_result_def poll_returns_def
        split: if_splits)
next
  case run
  have "count_list (map Callback as) WakeupChannel = 0" for as by (induction as) auto
  moreover have "WakeupChannel \<notin> set (map Callback as)" for as by auto
  ultimately show ?thesis using run loop_invD [OF inv]
    by (cases "functors s")
      (simp_all add: loop_inv_def wakeup_inv_def queue_inv_def flag_inv_def eventfd_inv_def next_functor_def wakeup_coming_def)
qed (use loop_invD [OF inv] wakeup_count_le [of s] in
    \<open>auto simp: loop_inv_def wakeup_inv_def queue_inv_def flag_inv_def eventfd_inv_def wakeup_coming_def loop_ops
      split: if_splits\<close>)

lemma loop_reachable_inv: "loop_reachable body s \<Longrightarrow> loop_inv s"
proof (induction rule: loop_reachable.induct)
  case init
  show ?case
    by (simp add: loop_inv_def wakeup_inv_def queue_inv_def flag_inv_def eventfd_inv_def new_EventLoop_def)
qed (rule loop_inv_step)


section \<open>One iteration of the loop's thread\<close>

text \<open>The steps of the loop's thread are determined by the state, outside \<^verbatim>\<open>poll\<close>.\<close>

definition loop_thread_step :: "(nat \<Rightarrow> loop_act list) \<Rightarrow> EventLoop \<Rightarrow> EventLoop" where
  "loop_thread_step body s =
     (if todo s \<noteq> [] then next_call s
      else case pc s of
        Test \<Rightarrow> test_quit s
      | Handling \<Rightarrow> handled s
      | Swapping \<Rightarrow> swap_functors s
      | Running \<Rightarrow> next_functor body s
      | _ \<Rightarrow> s)"

definition loop_thread_reaches :: "(nat \<Rightarrow> loop_act list) \<Rightarrow> EventLoop \<Rightarrow> EventLoop \<Rightarrow> bool" where
  "loop_thread_reaches body s s' \<longleftrightarrow> (\<exists>n. s' = (loop_thread_step body ^^ n) s)"

lemma loop_thread_reaches_refl: "loop_thread_reaches body s s"
  unfolding loop_thread_reaches_def by (rule exI [of _ 0]) simp

lemma loop_thread_reaches_step:
  "loop_thread_reaches body (loop_thread_step body s) s' \<Longrightarrow> loop_thread_reaches body s s'"
  unfolding loop_thread_reaches_def
proof (elim exE)
  fix n
  assume "s' = (loop_thread_step body ^^ n) (loop_thread_step body s)"
  then have "s' = (loop_thread_step body ^^ Suc n) s" by (simp add: funpow_swap1)
  then show "\<exists>n. s' = (loop_thread_step body ^^ n) s" by blast
qed

lemma loop_thread_reaches_trans:
  assumes "loop_thread_reaches body s s'" "loop_thread_reaches body s' s''"
  shows "loop_thread_reaches body s s''"
proof -
  from assms obtain m n where "s' = (loop_thread_step body ^^ m) s" "s'' = (loop_thread_step body ^^ n) s'"
    by (auto simp: loop_thread_reaches_def)
  then have "s'' = (loop_thread_step body ^^ (n + m)) s" by (simp add: funpow_add)
  then show ?thesis unfolding loop_thread_reaches_def by blast
qed

lemma loop_thread_step_sound:
  "loop_thread_step body s = s \<or> loop_step body s (loop_thread_step body s)"
  by (cases "pc s") (auto simp: loop_thread_step_def intro: loop_step.intros)

text \<open>The functors that a list of calls queues.\<close>

fun queued_by :: "loop_call list \<Rightarrow> nat list" where
  "queued_by [] = []"
| "queued_by (Callback (QueueInLoop f) # cs) = f # queued_by cs"
| "queued_by (_ # cs) = queued_by cs"

lemma loop_thread_calls:
  "\<exists>s'. loop_thread_reaches body s s' \<and> todo s' = [] \<and> pc s' = pc s \<and> functors s' = functors s \<and> executed s' = executed s
     \<and> loop_pendingFunctors s' = loop_pendingFunctors s @ queued_by (todo s) \<and> (quit s \<longrightarrow> quit s')"
proof (induction "length (todo s)" arbitrary: s)
  case 0
  then show ?case using loop_thread_reaches_refl by auto
next
  case (Suc n)
  then have todo: "todo s \<noteq> []" by auto
  then have step: "loop_thread_step body s = next_call s" by (simp add: loop_thread_step_def)
  from todo have frame: "n = length (todo (next_call s)) \<and> pc (next_call s) = pc s \<and> functors (next_call s) = functors s
      \<and> executed (next_call s) = executed s \<and> (quit s \<longrightarrow> quit (next_call s))
      \<and> loop_pendingFunctors s @ queued_by (todo s) = loop_pendingFunctors (next_call s) @ queued_by (todo (next_call s))"
    using Suc.hyps(2)
    by (cases rule: next_call_cases) (auto simp: queueInLoop_def push_functor_def loop_quit_def Let_def)
  from Suc.hyps(1) [of "next_call s"] frame show ?case
    using loop_thread_reaches_step [of body s] unfolding step by (metis (no_types, lifting))
qed

lemma loop_thread_functors:
  assumes "pc s = Running" "todo s = []"
  shows "\<exists>s'. loop_thread_reaches body s s' \<and> todo s' = [] \<and> pc s' = Test \<and> functors s' = []
     \<and> executed s' = executed s @ functors s
     \<and> loop_pendingFunctors s' =
         loop_pendingFunctors s @ concat (map (\<lambda>f. queued_by (map Callback (body f))) (functors s))
     \<and> (quit s \<longrightarrow> quit s')"
  using assms
proof (induction "functors s" arbitrary: s)
  case Nil
  then have "loop_thread_step body s = s\<lparr>callingPendingFunctors := False, pc := Test\<rparr>"
    by (simp add: loop_thread_step_def next_functor_def)
  then show ?case using Nil loop_thread_reaches_step [OF loop_thread_reaches_refl, of body s]
    by (intro exI [of _ "loop_thread_step body s"]) simp
next
  case (Cons f fs)
  let ?s = "s\<lparr>functors := fs, executed := executed s @ [f], todo := map Callback (body f)\<rparr>"
  have "loop_thread_step body s = ?s"
    using Cons.prems Cons.hyps(2) [symmetric] by (simp add: loop_thread_step_def next_functor_def)
  then have first: "loop_thread_reaches body s ?s"
    using loop_thread_reaches_step [OF loop_thread_reaches_refl, of body s] by simp
  obtain s1 where s1: "loop_thread_reaches body ?s s1" "todo s1 = []" "pc s1 = Running" "functors s1 = fs"
      "executed s1 = executed s @ [f]" "quit s \<longrightarrow> quit s1"
      "loop_pendingFunctors s1 = loop_pendingFunctors s @ queued_by (map Callback (body f))"
    using loop_thread_calls [of body ?s] Cons.prems by auto
  obtain s2 where s2: "loop_thread_reaches body s1 s2" "todo s2 = []" "pc s2 = Test" "functors s2 = []"
      "executed s2 = executed s1 @ functors s1" "quit s1 \<longrightarrow> quit s2"
      "loop_pendingFunctors s2 =
         loop_pendingFunctors s1 @ concat (map (\<lambda>f. queued_by (map Callback (body f))) (functors s1))"
    using Cons.hyps(1) [OF s1(4) [symmetric] s1(3) s1(2)] by blast
  have "loop_thread_reaches body s s2"
    using first s1(1) s2(1) loop_thread_reaches_trans by blast
  then show ?case using s1 s2 Cons.hyps(2) [symmetric] by (intro exI [of _ s2]) auto
qed


lemma loop_thread_iteration:
  assumes "pc s = Polling" "functors s = []"
  shows "\<exists>s'. loop_thread_reaches body (poll_returns cs s) s' \<and> pc s' = Test
    \<and> executed s' = executed s @ loop_pendingFunctors s @ queued_by cs
    \<and> loop_pendingFunctors s' =
        concat (map (\<lambda>f. queued_by (map Callback (body f))) (loop_pendingFunctors s @ queued_by cs))
    \<and> (quit s \<longrightarrow> quit s')"
proof -
  obtain s1 where s1: "loop_thread_reaches body (poll_returns cs s) s1" "todo s1 = []" "pc s1 = Handling"
      "functors s1 = []" "executed s1 = executed s" "quit s \<longrightarrow> quit s1"
      "loop_pendingFunctors s1 = loop_pendingFunctors s @ queued_by cs"
    using loop_thread_calls [of body "poll_returns cs s"] assms by (auto simp: poll_returns_def)
  have s2: "loop_thread_step body (loop_thread_step body s1) = swap_functors (handled s1)"
    using s1(2,3) by (simp add: loop_thread_step_def handled_def)
  obtain s3 where s3: "loop_thread_reaches body (swap_functors (handled s1)) s3" "pc s3 = Test"
      "executed s3 = executed s @ loop_pendingFunctors s @ queued_by cs" "quit s \<longrightarrow> quit s3"
      "loop_pendingFunctors s3 =
         concat (map (\<lambda>f. queued_by (map Callback (body f))) (loop_pendingFunctors s @ queued_by cs))"
  proof -
    let ?s = "swap_functors (handled s1)"
    have st: "pc ?s = Running" "todo ?s = []" "functors ?s = loop_pendingFunctors s @ queued_by cs"
      "executed ?s = executed s" "loop_pendingFunctors ?s = []" "quit ?s = quit s1"
      using s1(2,5,7) by (simp_all add: swap_functors_def handled_def)
    from loop_thread_functors [OF st(1,2), of body, unfolded st append_Nil] s1(6) show thesis using that by blast
  qed
  have "loop_thread_reaches body s1 s3"
    using s3(1) unfolding s2 [symmetric] by (rule loop_thread_reaches_step [OF loop_thread_reaches_step])
  then have "loop_thread_reaches body (poll_returns cs s) s3"
    by (rule loop_thread_reaches_trans [OF s1(1)])
  then show ?thesis using s3(2-5) by blast
qed

section \<open>Properties of the loop\<close>

text \<open>C5: No wake-up is lost. Whatever the interleaving of the loop's thread with other threads, when the loop's
  thread is about to block in \<^verbatim>\<open>poll\<close> while functors are pending or \<^verbatim>\<open>quit\<close> has been called, the event
  descriptor is readable or a thread is on its way to write to it, so that \<^verbatim>\<open>poll\<close> returns; the only
  exception are functors the loop's own thread queued before \<^verbatim>\<open>loop()\<close>. The event descriptor is read only
  when it is readable, and \<^verbatim>\<open>loop()\<close> never fails its assertion outside the loop.\<close>

theorem no_lost_wakeup:
  assumes "loop_reachable body s"
  shows "(pc s = Polling \<longrightarrow> loop_pendingFunctors s \<noteq> [] \<longrightarrow> early s \<or> wakeupCount s > 0 \<or> in_flight s > 0)
    \<and> (pc s = Polling \<longrightarrow> quit s \<longrightarrow> wakeupCount s > 0 \<or> in_flight s > 0)
    \<and> (WakeupChannel \<in> set (todo s) \<longrightarrow> wakeupCount s > 0)
    \<and> (pc s = Idle \<longrightarrow> start_loop s \<noteq> Inl Assert_fail)"
proof -
  note inv = loop_invD [OF loop_reachable_inv [OF assms]]
  have "pc s = Polling \<longrightarrow> loop_pendingFunctors s \<noteq> [] \<longrightarrow> early s \<or> wakeupCount s > 0 \<or> in_flight s > 0"
    "pc s = Polling \<longrightarrow> quit s \<longrightarrow> wakeupCount s > 0 \<or> in_flight s > 0"
    using inv(1) by (auto simp: wakeup_inv_def wakeup_coming_def)
  moreover have "WakeupChannel \<in> set (todo s) \<longrightarrow> wakeupCount s > 0"
    using inv(4) by (auto simp: eventfd_inv_def count_list_0_iff)
  moreover have "pc s = Idle \<longrightarrow> start_loop s \<noteq> Inl Assert_fail"
    using inv(3) by (simp add: flag_inv_def start_loop_def)
  ultimately show ?thesis by blast
qed

text \<open>A loop in \<^verbatim>\<open>poll\<close> while another thread has queued functor \<open>1\<close>, whose body queues functor \<open>2\<close>, and
  a second one has called \<^verbatim>\<open>quit\<close>; only the first has written to the event descriptor.\<close>

definition demo_body :: "nat \<Rightarrow> loop_act list" where
  "demo_body f = (if f = 1 then [QueueInLoop 2] else [])"

definition demo_loop :: EventLoop where
  "demo_loop = \<lparr>looping = True, quit = True, loop_eventHandling = False, callingPendingFunctors = False,
     loop_pendingFunctors = [1], functors = [], wakeupCount = 1, loop_errors = 0, pc = Polling, todo = [],
     in_flight = 1, queued = [1], executed = [], early = False\<rparr>"

lemma demo_loop_reachable: "loop_reachable demo_body demo_loop"
proof -
  let ?s1 = "new_EventLoop\<lparr>looping := True, pc := Test\<rparr>"
  let ?s2 = "(push_functor 1 (test_quit ?s1))\<lparr>in_flight := 1\<rparr>"
  let ?s3 = "(wakeup ?s2)\<lparr>in_flight := 0\<rparr>"
  have "loop_reachable demo_body ?s1"
    by (rule loop_reachable.step [OF loop_reachable.init loop_step.start])
      (simp_all add: new_EventLoop_def start_loop_def)
  then have "loop_reachable demo_body (test_quit ?s1)"
    by (rule loop_reachable.step [OF _ loop_step.test]) simp
  from loop_reachable.step [OF this loop_step.other_queue [of _ _ 1]] have "loop_reachable demo_body ?s2"
    by (simp add: test_quit_def new_EventLoop_def)
  from loop_reachable.step [OF this loop_step.other_wakeup] have "loop_reachable demo_body ?s3" by simp
  from loop_reachable.step [OF this loop_step.other_quit]
  have "loop_reachable demo_body (?s3\<lparr>quit := True, in_flight := 1\<rparr>)" by simp
  also have "?s3\<lparr>quit := True, in_flight := 1\<rparr> = demo_loop"
    by (simp add: demo_loop_def wakeup_def push_functor_def test_quit_def new_EventLoop_def eventfd_max_def)
  finally show ?thesis .
qed

theorem no_lost_wakeup_witness:
  "pc demo_loop = Polling \<and> quit demo_loop \<and> loop_pendingFunctors demo_loop = [1] \<and> \<not> early demo_loop
   \<and> (wakeupCount demo_loop > 0 \<or> in_flight demo_loop > 0)"
  using no_lost_wakeup [OF demo_loop_reachable] by (simp add: demo_loop_def)

text \<open>C6: Functors handed to a loop, by any thread and at any time, are executed in the order in which they were
  queued, each at most once and none is dropped: the functors ever queued are those executed, then those
  that \<^verbatim>\<open>doPendingFunctors\<close> has taken and not called yet, then those waiting.\<close>

theorem functors_fifo:
  assumes "loop_reachable body s"
  shows "queued s = executed s @ functors s @ loop_pendingFunctors s"
  using loop_invD(2) [OF loop_reachable_inv [OF assms]] by (simp add: queue_inv_def)

theorem functors_fifo_witness:
  "queued demo_loop = executed demo_loop @ functors demo_loop @ loop_pendingFunctors demo_loop"
  by (rule functors_fifo [OF demo_loop_reachable])

text \<open>C15: Once \<^verbatim>\<open>poll\<close> returns, the loop's thread reaches the test of \<^verbatim>\<open>quit_\<close> again in finitely many steps,
  whatever the callbacks and the functors do, and has then executed every functor queued before or by the
  active channels; functors queued by functors wait for the next iteration, so that they cannot keep the
  loop from polling. If \<^verbatim>\<open>quit\<close> was called before, the loop stops at that test.\<close>

theorem loop_iteration_complete:
  assumes "loop_reachable body s" "pc s = Polling" "poll_result cs s"
  shows "\<exists>s'. loop_thread_reaches body (poll_returns cs s) s' \<and> pc s' = Test
    \<and> executed s' = queued s @ queued_by cs
    \<and> loop_pendingFunctors s' =
        concat (map (\<lambda>f. queued_by (map Callback (body f))) (loop_pendingFunctors s @ queued_by cs))
    \<and> (quit s \<longrightarrow> \<not> looping (test_quit s'))"
proof -
  have "queue_inv s" using loop_invD(2) [OF loop_reachable_inv [OF assms(1)]] .
  then have "functors s = []" "queued s = executed s @ loop_pendingFunctors s"
    using assms(2) by (auto simp: queue_inv_def)
  then show ?thesis using loop_thread_iteration [OF assms(2), of body cs] by (fastforce simp: test_quit_def)
qed

theorem loop_iteration_complete_witness:
  "\<exists>s'. loop_thread_reaches demo_body (poll_returns [WakeupChannel, Callback (QueueInLoop 3)] demo_loop) s'
    \<and> executed s' = [1, 3] \<and> loop_pendingFunctors s' = [2] \<and> \<not> looping (test_quit s')"
proof -
  have "pc demo_loop = Polling" "poll_result [WakeupChannel, Callback (QueueInLoop 3)] demo_loop"
    by (simp_all add: demo_loop_def poll_result_def)
  from loop_iteration_complete [OF demo_loop_reachable this] show ?thesis
    by (auto simp: demo_loop_def demo_body_def)
qed

text \<open>A \<^verbatim>\<open>quit\<close> that comes before \<^verbatim>\<open>loop()\<close> is lost: outside the loop, \<^verbatim>\<open>loop()\<close> always begins by clearing the
  flag and enters \<^verbatim>\<open>poll\<close>, even when a thread has just called \<^verbatim>\<open>quit\<close>.\<close>

theorem quit_before_loop_lost:
  assumes "loop_reachable body s" "pc s = Idle"
  shows "\<exists>s'. start_loop (loop_quit inLoop s) = Inr s' \<and> \<not> quit s' \<and> pc (test_quit s') = Polling"
proof -
  have "\<not> looping s" using loop_invD(3) [OF loop_reachable_inv [OF assms(1)]] assms(2) by (simp add: flag_inv_def)
  then show ?thesis by (simp add: start_loop_def loop_quit_def test_quit_def Let_def)
qed


theorem quit_before_loop_lost_witness:
  "\<exists>s'. start_loop (loop_quit False new_EventLoop) = Inr s' \<and> \<not> quit s' \<and> pc (test_quit s') = Polling"
  using quit_before_loop_lost [OF loop_reachable.init] by (simp add: new_EventLoop_def)


section \<open>Construction and destruction\<close>

text \<open>The parts of a loop that refer to each other: its poller, the channels of the timer queue and of the
  event descriptor, and the timer queue.\<close>

record 'p LoopParts =
  lp_poller :: 'p
  timerfdChannel :: Channel
  wakeupChannel :: Channel
  lp_timerQueue :: TimerQueue

text \<open>\<^verbatim>\<open>createTimerfd\<close> and \<^verbatim>\<open>createEventfd\<close>; \<open>r\<close> is the result of the system call, \<open>err\<close> its errno.\<close>

definition createTimerfd :: "int \<Rightarrow> int \<Rightarrow> abort + int" where
  "createTimerfd r err = (if r < 0 then Inl (Exit_fatal err) else Inr r)"

definition createEventfd :: "int \<Rightarrow> int \<Rightarrow> abort + int" where
  "createEventfd r err = (if r < 0 then Inl (Exit_fatal err) else Inr r)"

text \<open>The constructor of the timer queue enables reading through the loop's poller, which may be null.\<close>

definition create_TimerQueue ::
  "'p Poller \<Rightarrow> nat \<Rightarrow> nat \<Rightarrow> int \<Rightarrow> int \<Rightarrow> 'p option \<Rightarrow> abort + ('p \<times> Channel \<times> TimerQueue)" where
  "create_TimerQueue V this addr r err po =
     bind_abort (createTimerfd r err) (\<lambda>timerfd.
     case po of
       None \<Rightarrow> Inl Bad_access
     | Some p \<Rightarrow> bind_abort (enableReading V p (new_Channel addr this timerfd)) (\<lambda>(p1, ch). Inr (p1, ch, new_TimerQueue)))"

definition destroy_TimerQueue ::
  "'p Poller \<Rightarrow> ('p \<Rightarrow> ChannelMap) \<Rightarrow> bool \<Rightarrow> 'p \<Rightarrow> Channel \<Rightarrow> TimerQueue \<Rightarrow> abort + ('p \<times> TimerQueue)" where
  "destroy_TimerQueue V chans inLoop p ch q =
     bind_abort (disableAll V p ch) (\<lambda>(p1, ch1).
     bind_abort (chan_remove V p1 ch1) (\<lambda>(p2, ch2).
     bind_abort (delete_TimerQueue q) (\<lambda>q'.
     bind_abort (delete_Channel inLoop (chans p2) ch2) (\<lambda>_. Inr (p2, q')))))"

text \<open>The loop: \<open>other\<close> says whether the thread already has one, \<open>this\<close>, \<open>ta\<close> and \<open>wa\<close> are the addresses of
  the loop and of its two channels, \<open>tr\<close> and \<open>er\<close> the results of the system calls with their errno.\<close>

definition create_EventLoop ::
  "'p Poller \<Rightarrow> bool \<Rightarrow> nat \<Rightarrow> nat \<Rightarrow> nat \<Rightarrow> int \<times> int \<Rightarrow> int \<times> int \<Rightarrow> abort + 'p option \<Rightarrow> abort + 'p LoopParts" where
  "create_EventLoop V other this ta wa tr er newPoller =
     bind_abort newPoller (\<lambda>po.
     bind_abort (create_TimerQueue V this ta (fst tr) (snd tr) po) (\<lambda>(p, tch, q).
     bind_abort (createEventfd (fst er) (snd er)) (\<lambda>evtfd.
     if other then Inl (Exit_fatal 0)
     else bind_abort (enableReading V p (new_Channel wa this evtfd)) (\<lambda>(p1, wch).
       Inr \<lparr>lp_poller = p1, timerfdChannel = tch, wakeupChannel = wch, lp_timerQueue = q\<rparr>))))"

text \<open>The body of the destructor, then the members in the reverse order of their declaration: the wake-up
  channel, the timer queue, the poller.\<close>

definition delete_EventLoop ::
  "'p Poller \<Rightarrow> ('p \<Rightarrow> ChannelMap) \<Rightarrow> bool \<Rightarrow> 'p LoopParts \<Rightarrow> abort + ('p \<times> TimerQueue)" where
  "delete_EventLoop V chans inLoop l =
     bind_abort (disableAll V (lp_poller l) (wakeupChannel l)) (\<lambda>(p1, wch1).
     bind_abort (chan_remove V p1 wch1) (\<lambda>(p2, wch2).
     bind_abort (delete_Channel inLoop (chans p2) wch2) (\<lambda>_.
     destroy_TimerQueue V chans inLoop p2 (timerfdChannel l) (lp_timerQueue l))))"

section \<open>The timer interface\<close>

text \<open>The clock readings are arguments; \<open>inLoop\<close> is \<^verbatim>\<open>isInLoopThread()\<close>.\<close>

definition runAt ::
  "allocator \<Rightarrow> int \<Rightarrow> bool \<Rightarrow> Timestamp \<Rightarrow> TimerQueue \<Rightarrow> abort + (TimerId \<times> TimerQueue)" where
  "runAt alloc clk inLoop time q = addTimer alloc clk inLoop time 0 q"

definition runAfter ::
  "allocator \<Rightarrow> int \<Rightarrow> int \<Rightarrow> bool \<Rightarrow> double \<Rightarrow> TimerQueue \<Rightarrow> abort + (TimerId \<times> TimerQueue)" where
  "runAfter alloc now clk inLoop delay q = runAt alloc clk inLoop (addTime (Timestamp now) delay) q"

definition runEvery ::
  "allocator \<Rightarrow> int \<Rightarrow> int \<Rightarrow> bool \<Rightarrow> double \<Rightarrow> TimerQueue \<Rightarrow> abort + (TimerId \<times> TimerQueue)" where
  "runEvery alloc now clk inLoop iv q = addTimer alloc clk inLoop (addTime (Timestamp now) iv) iv q"

definition cancel_timer :: "bool \<Rightarrow> TimerId \<Rightarrow> TimerQueue \<Rightarrow> abort + TimerQueue" where
  "cancel_timer inLoop timerId q = timer_cancel inLoop timerId q"



section \<open>The life of a loop\<close>

text \<open>A loop can be destroyed: its channels are registered, on different descriptors, with no event
  being handled, and the timer queue is consistent.\<close>

definition loop_ok :: "('p \<Rightarrow> Channel \<Rightarrow> bool) \<Rightarrow> 'p LoopParts \<Rightarrow> bool" where
  "loop_ok ok l \<longleftrightarrow> ok (lp_poller l) (timerfdChannel l) \<and> ok (lp_poller l) (wakeupChannel l)
     \<and> fd (timerfdChannel l) \<noteq> fd (wakeupChannel l) \<and> \<not> eventHandling (timerfdChannel l) \<and> \<not> eventHandling (wakeupChannel l)
     \<and> tq_inv [] (lp_timerQueue l)"

lemma enableReading_step: "enableReading V = chan_step V EnableReading"
  by simp

lemma disableAll_step: "disableAll V = chan_step V DisableAll"
  by simp

lemma chan_upd_sel:
  assumes "ch' = ch\<lparr>events := e, addedToLoop := l, index := i\<rparr>"
  shows "fd ch' = fd ch" "eventHandling ch' = eventHandling ch" "events ch' = e"
  using assms by simp_all

context poller
begin

lemma create_EventLoop_spec:
  assumes "case np of Inl a \<Rightarrow> \<exists>e. a = Exit_fatal e
      | Inr po \<Rightarrow> (case po of None \<Rightarrow> True | Some p \<Rightarrow> (\<forall>a f. ok p (new_Channel a this f)) \<and> chans p = (\<lambda>_. None))"
    "fst tr \<noteq> fst er"
  shows "case create_EventLoop V other this ta wa tr er np of
      Inl a \<Rightarrow> refused V ok a \<or> (\<exists>e. a = Exit_fatal e) \<or> np = Inr None \<and> a = Bad_access
    | Inr l \<Rightarrow> loop_ok ok l \<and> isReading (timerfdChannel l) \<and> isReading (wakeupChannel l) \<and> \<not> other
        \<and> np \<noteq> Inr None \<and> lp_timerQueue l = new_TimerQueue
        \<and> chans (lp_poller l) = [fd (timerfdChannel l) \<mapsto> ta, fd (wakeupChannel l) \<mapsto> wa]"
proof (cases "\<exists>p. np = Inr (Some p) \<and> fst tr \<ge> 0")
  case False
  then show ?thesis using assms(1)
    by (auto simp: create_EventLoop_def create_TimerQueue_def createTimerfd_def split: sum.splits option.splits)
next
  case True
  then obtain p where p: "np = Inr (Some p)" "fst tr \<ge> 0" by blast
  let ?t = "new_Channel ta this (fst tr)" and ?w = "new_Channel wa this (fst er)"
  have okp: "ok p ?t" "ok p ?w" "chans p = (\<lambda>_. None)" using assms(1) p(1) by simp_all
  from okp(1) show ?thesis
  proof (cases rule: step_cases [where x = EnableReading])
    case (refused a)
    then show ?thesis using p
      by (simp add: create_EventLoop_def create_TimerQueue_def createTimerfd_def)
  next
    case (ok p1 tch)
    note t = ok chan_upd_sel [OF ok(3)]
    have w: "ok p1 ?w" using t(5) [OF okp(2)] assms(2) by (simp add: new_Channel_def)
    have eq: "create_EventLoop V other this ta wa tr er np =
        bind_abort (createEventfd (fst er) (snd er)) (\<lambda>evtfd.
          if other then Inl (Exit_fatal 0)
          else bind_abort (enableReading V p1 (new_Channel wa this evtfd)) (\<lambda>(p2, wch).
            Inr \<lparr>lp_poller = p2, timerfdChannel = tch, wakeupChannel = wch, lp_timerQueue = new_TimerQueue\<rparr>))"
      using t(1) p by (simp add: create_EventLoop_def create_TimerQueue_def createTimerfd_def)
    from w show ?thesis
    proof (cases rule: step_cases [where x = EnableReading])
      case (refused a)
      then show ?thesis unfolding eq by (simp add: createEventfd_def)
    next
      case (ok p2 wch)
      note w' = ok chan_upd_sel [OF ok(3)]
      have ne: "fd tch \<noteq> fd ?w" using t(7) assms(2) by (simp add: new_Channel_def)
      then have "ok p2 tch" using w'(5) [OF t(2)] by blast
      then have "loop_ok ok \<lparr>lp_poller = p2, timerfdChannel = tch, wakeupChannel = wch, lp_timerQueue = new_TimerQueue\<rparr>"
        using w'(2,7,8) t(7,8) ne by (simp add: loop_ok_def new_Channel_def)
      moreover have "chans p2 = [fd tch \<mapsto> ta, fd wch \<mapsto> wa]"
        using okp(3) t(6,7) w'(6,7) by (simp add: new_Channel_def)
      ultimately show ?thesis using w'(1,9) t(9) p(1) unfolding eq by (simp add: createEventfd_def isReading_def)
    qed
  qed
qed

lemma destroy_TimerQueue_spec:
  assumes "ok p ch" "\<not> eventHandling ch" "tq_inv [] q"
  shows "case destroy_TimerQueue V chans inLoop p ch q of Inl a \<Rightarrow> refused V ok a
    | Inr (p', q') \<Rightarrow> chans p' = (chans p)(fd ch := None) \<and> dom (theap q') = set (pend q)"
  using assms(1)
proof (cases rule: step_cases [where x = DisableAll])
  case (refused a)
  then show ?thesis by (simp add: destroy_TimerQueue_def)
next
  case (ok p1 ch1)
  note c = chan_upd_sel [OF ok(3)]
  have none: "isNoneEvent ch1" using c(3) by (simp add: isNoneEvent_def)
  obtain q' where q': "delete_TimerQueue q = Inr q'" "dom (theap q') = set (pend q)"
    using delete_TimerQueue_spec [OF assms(3)] by blast
  have nh: "\<not> eventHandling ch1" using c(2) assms(2) by simp
  obtain p2 ch2 where r: "chan_remove V p1 ch1 = Inr (p2, ch2)" "chans p2 = (chans p1)(fd ch1 := None)"
      "\<And>inLoop. delete_Channel inLoop (chans p2) ch2 = Inr ()"
    by (rule remove_delete_frame [OF ok(2) nh none ok(4)]) blast
  then show ?thesis using ok(1,6) q' c(1) by (simp add: destroy_TimerQueue_def)
qed

lemma delete_EventLoop_spec:
  assumes "loop_ok ok l"
  shows "case delete_EventLoop V chans inLoop l of Inl a \<Rightarrow> refused V ok a
    | Inr (p', q') \<Rightarrow> chans p' = (chans (lp_poller l))(fd (wakeupChannel l) := None, fd (timerfdChannel l) := None)
        \<and> dom (theap q') = set (pend (lp_timerQueue l))"
proof -
  have l: "ok (lp_poller l) (timerfdChannel l)" "ok (lp_poller l) (wakeupChannel l)" "\<not> eventHandling (wakeupChannel l)"
      "fd (timerfdChannel l) \<noteq> fd (wakeupChannel l)" "\<not> eventHandling (timerfdChannel l)" "tq_inv [] (lp_timerQueue l)"
    using assms by (simp_all add: loop_ok_def)
  from l(2) show ?thesis
  proof (cases rule: step_cases [where x = DisableAll])
    case (refused a)
    then show ?thesis by (simp add: delete_EventLoop_def)
  next
    case (ok p1 ch1)
    note c = chan_upd_sel [OF ok(3)]
    have none: "isNoneEvent ch1" using c(3) by (simp add: isNoneEvent_def)
    have nh: "\<not> eventHandling ch1" using c(2) l(3) by simp
    obtain p2 ch2 where r: "chan_remove V p1 ch1 = Inr (p2, ch2)"
        "\<And>inLoop. delete_Channel inLoop (chans p2) ch2 = Inr ()"
        "\<And>d. ok p1 d \<Longrightarrow> fd d \<noteq> fd ch1 \<Longrightarrow> ok p2 d" "chans p2 = (chans p1)(fd ch1 := None)"
      by (rule remove_delete_frame [OF ok(2) nh none ok(4)]) blast
    have "ok p2 (timerfdChannel l)" using r(3) [OF ok(5) [OF l(1,4)]] l(4) c(1) by simp
    from destroy_TimerQueue_spec [OF this l(5,6), of inLoop] show ?thesis
      using ok(1,6) r(1,2,4) c(1)
      by (cases "destroy_TimerQueue V chans inLoop p2 (timerfdChannel l) (lp_timerQueue l)") (auto simp: delete_EventLoop_def)
  qed
qed

end


text \<open>An epoll poller refuses an update only by ending the process.\<close>

lemma epoll_refused: "refused (epoll_vtable ctl) ok a \<Longrightarrow> \<exists>e. a = Exit_fatal e"
  by (auto simp: refused_def epoll_vtable_def epoll_updateChannel_def epoll_update_def bind_abort_def Let_def
      split: sum.splits if_splits prod.splits)



end
