(* ===== verification/Ymuduo_Threads.thy ===== *)
theory Ymuduo_Threads
  imports Ymuduo_EventLoop
begin

text \<open>
  Threads: the cached thread id (\<^verbatim>\<open>src/include/CurrentThread.h\<close>, \<^verbatim>\<open>src/src/CurrentThread.cc\<close>), the latch
  (\<^verbatim>\<open>src/include/CountDownLatch.h\<close>, \<^verbatim>\<open>src/src/CoutDownLatch.cc\<close>), the thread object (\<^verbatim>\<open>src/include/Thread.h\<close>,
  \<^verbatim>\<open>src/src/Thread.cc\<close>), the loop that runs in a thread of its own (\<^verbatim>\<open>src/include/EventLoopThread.h\<close>,
  \<^verbatim>\<open>src/src/EventLoopThread.cc\<close>) and the pool of such loops (\<^verbatim>\<open>src/include/EventLoopThreadPool.h\<close>,
  \<^verbatim>\<open>src/src/EventLoopThreadPool.cc\<close>). What two threads do is a step relation with one step per critical
  section or atomic access.
\<close>

section \<open>The thread id\<close>

text \<open>The argument is the thread-local cache; \<open>gettid\<close> is what the system call would return.\<close>

definition cacheTid :: "int \<Rightarrow> int \<Rightarrow> int" where
  "cacheTid gettid cached = (if cached = 0 then gettid else cached)"

definition tid :: "int \<Rightarrow> int \<Rightarrow> int \<times> int" where
  "tid gettid cached = (let c = (if cached = 0 then cacheTid gettid cached else cached) in (c, c))"

section \<open>The latch\<close>

text \<open>\<open>testing\<close> are the threads in \<^verbatim>\<open>wait\<close> that are about to test the count, \<open>sleeping\<close> those blocked in
  \<^verbatim>\<open>condition_.wait\<close>, \<open>passed\<close> those that have returned from \<^verbatim>\<open>wait\<close>.\<close>

record CountDownLatch =
  count :: int
  testing :: "nat set"
  sleeping :: "nat set"
  passed :: "nat set"

definition new_CountDownLatch :: "int \<Rightarrow> CountDownLatch" where
  "new_CountDownLatch n = \<lparr>count = n, testing = {}, sleeping = {}, passed = {}\<rparr>"

definition latch_enter :: "nat \<Rightarrow> CountDownLatch \<Rightarrow> CountDownLatch" where
  "latch_enter t l = l\<lparr>testing := insert t (testing l)\<rparr>"

text \<open>One round of the loop in \<^verbatim>\<open>wait\<close>, with the lock held.\<close>

definition latch_test :: "nat \<Rightarrow> CountDownLatch \<Rightarrow> CountDownLatch" where
  "latch_test t l =
     (if count l > 0 then l\<lparr>testing := testing l - {t}, sleeping := insert t (sleeping l)\<rparr>
      else l\<lparr>testing := testing l - {t}, passed := insert t (passed l)\<rparr>)"

definition latch_wake :: "nat \<Rightarrow> CountDownLatch \<Rightarrow> CountDownLatch" where
  "latch_wake t l = l\<lparr>testing := insert t (testing l), sleeping := sleeping l - {t}\<rparr>"

definition countDown :: "CountDownLatch \<Rightarrow> CountDownLatch" where
  "countDown l =
     (let l1 = l\<lparr>count := count l - 1\<rparr>
      in if count l1 = 0 then l1\<lparr>testing := testing l1 \<union> sleeping l1, sleeping := {}\<rparr> else l1)"

definition getCount :: "CountDownLatch \<Rightarrow> int" where
  "getCount l = count l"

text \<open>What any number of threads do with a latch; a blocked thread may also wake up for no reason. The
  relation carries the number of calls to \<^verbatim>\<open>countDown\<close>.\<close>

inductive latch_reachable :: "int \<Rightarrow> nat \<Rightarrow> CountDownLatch \<Rightarrow> bool" for n where
  init: "latch_reachable n 0 (new_CountDownLatch n)"
| enter: "latch_reachable n k l \<Longrightarrow> t \<notin> testing l \<union> sleeping l \<Longrightarrow> latch_reachable n k (latch_enter t l)"
| test: "latch_reachable n k l \<Longrightarrow> t \<in> testing l \<Longrightarrow> latch_reachable n k (latch_test t l)"
| wake: "latch_reachable n k l \<Longrightarrow> t \<in> sleeping l \<Longrightarrow> latch_reachable n k (latch_wake t l)"
| down: "latch_reachable n k l \<Longrightarrow> latch_reachable n (Suc k) (countDown l)"

lemmas latch_defs = new_CountDownLatch_def latch_enter_def latch_test_def latch_wake_def countDown_def

lemma latch_invariant:
  "latch_reachable n k l \<Longrightarrow>
     count l = n - int k \<and> (sleeping l \<noteq> {} \<longrightarrow> count l > 0) \<and> (passed l \<noteq> {} \<longrightarrow> count l \<le> 0)"
  by (induction rule: latch_reachable.induct) (auto simp: latch_defs Let_def)

text \<open>The latch neither lets a thread through early nor leaves one behind. In any interleaving of threads that
  wait on a latch of \<open>n\<close> and threads that count it down, with spurious wake-ups, a thread returns from
  \<^verbatim>\<open>wait\<close> only after \<open>n\<close> calls to \<^verbatim>\<open>countDown\<close>, no thread sleeps any more once they have happened, and a
  thread that then tests the count returns.\<close>

theorem latch_correct:
  assumes "latch_reachable n k l"
  shows "(passed l \<noteq> {} \<longrightarrow> n \<le> int k) \<and> (n \<le> int k \<longrightarrow> sleeping l = {} \<and> (\<forall>t \<in> testing l. t \<in> passed (latch_test t l)))"
proof -
  note inv = latch_invariant [OF assms]
  then have "count l \<le> 0 \<longleftrightarrow> n \<le> int k" by simp
  then show ?thesis using inv by (auto simp: latch_test_def)
qed

theorem latch_correct_witness:
  "\<exists>l. latch_reachable 1 1 l \<and> testing l = {5} \<and> sleeping l = {} \<and> 5 \<in> passed (latch_test 5 l)"
proof -
  have "latch_reachable 1 0 (latch_enter 5 (new_CountDownLatch 1))"
    by (rule latch_reachable.enter [OF latch_reachable.init]) (simp add: new_CountDownLatch_def)
  then have "latch_reachable 1 0 (latch_test 5 (latch_enter 5 (new_CountDownLatch 1)))"
    by (rule latch_reachable.test) (simp add: latch_enter_def)
  then have r: "latch_reachable 1 1 (countDown (latch_test 5 (latch_enter 5 (new_CountDownLatch 1))))"
    using latch_reachable.down [of 1 0] by simp
  have "testing (countDown (latch_test 5 (latch_enter 5 (new_CountDownLatch 1)))) = {5}"
    by (simp add: latch_defs)
  then show ?thesis using r latch_correct [OF r] by auto
qed


section \<open>Threads\<close>

text \<open>Where the new thread is: not created, before it stores its id, before it counts the latch down, or in
  the thread function. The caller of \<^verbatim>\<open>start\<close> is thread \<open>0\<close> of the latch.\<close>

datatype child_pc = Unborn | Born | HasTid | InFunc

record Thread =
  thr_start :: bool
  thr_joined :: bool
  thr_tid :: int
  thr_name :: string
  thr_latch :: CountDownLatch
  thr_child :: child_pc

definition setDefaultName :: "int \<Rightarrow> string \<Rightarrow> string" where
  "setDefaultName num name = (if name = [] then snprintf 32 (''Thread'' @ show_int num) else name)"

text \<open>The second component is the new value of \<^verbatim>\<open>numCreated_\<close>.\<close>

definition new_Thread :: "int \<Rightarrow> string \<Rightarrow> Thread \<times> int" where
  "new_Thread created name =
     (\<lparr>thr_start = False, thr_joined = False, thr_tid = 0, thr_name = setDefaultName (created + 1) name,
       thr_latch = new_CountDownLatch 1, thr_child = Unborn\<rparr>, created + 1)"

definition thread_start :: "Thread \<Rightarrow> Thread" where
  "thread_start s = s\<lparr>thr_start := True, thr_child := Born, thr_latch := latch_enter 0 (thr_latch s)\<rparr>"

definition child_store_tid :: "int \<Rightarrow> Thread \<Rightarrow> Thread" where
  "child_store_tid gettid s = s\<lparr>thr_tid := fst (tid gettid 0), thr_child := HasTid\<rparr>"

definition child_countDown :: "Thread \<Rightarrow> Thread" where
  "child_countDown s = s\<lparr>thr_latch := countDown (thr_latch s), thr_child := InFunc\<rparr>"

definition thread_join :: "Thread \<Rightarrow> Thread" where
  "thread_join s = s\<lparr>thr_joined := True\<rparr>"

text \<open>Whether the destructor detaches the thread.\<close>

definition delete_Thread :: "Thread \<Rightarrow> bool" where
  "delete_Thread s \<longleftrightarrow> thr_start s \<and> \<not> thr_joined s"

inductive thread_reachable :: "int \<Rightarrow> Thread \<Rightarrow> bool" for gettid where
  init: "thread_reachable gettid (fst (new_Thread num name))"
| start: "thread_reachable gettid s \<Longrightarrow> \<not> thr_start s \<Longrightarrow> thread_reachable gettid (thread_start s)"
| store: "thread_reachable gettid s \<Longrightarrow> thr_child s = Born \<Longrightarrow> thread_reachable gettid (child_store_tid gettid s)"
| count: "thread_reachable gettid s \<Longrightarrow> thr_child s = HasTid \<Longrightarrow> thread_reachable gettid (child_countDown s)"
| test: "thread_reachable gettid s \<Longrightarrow> 0 \<in> testing (thr_latch s) \<Longrightarrow>
    thread_reachable gettid (s\<lparr>thr_latch := latch_test 0 (thr_latch s)\<rparr>)"
| wake: "thread_reachable gettid s \<Longrightarrow> 0 \<in> sleeping (thr_latch s) \<Longrightarrow>
    thread_reachable gettid (s\<lparr>thr_latch := latch_wake 0 (thr_latch s)\<rparr>)"

text \<open>Every execution of a thread object is one of its latch, counted down once by the new thread.\<close>

lemma thread_latch:
  "thread_reachable gettid s \<Longrightarrow>
     latch_reachable 1 (if thr_child s = InFunc then 1 else 0) (thr_latch s)
     \<and> (thr_child s = HasTid \<or> thr_child s = InFunc \<longrightarrow> thr_tid s = gettid)
     \<and> (thr_start s \<longleftrightarrow> thr_child s \<noteq> Unborn)
     \<and> (thr_start s \<longrightarrow> 0 \<in> testing (thr_latch s) \<union> sleeping (thr_latch s) \<union> passed (thr_latch s))
     \<and> (\<not> thr_start s \<longrightarrow> 0 \<notin> testing (thr_latch s) \<union> sleeping (thr_latch s))"
proof (induction rule: thread_reachable.induct)
  case (init num name)
  then show ?case using latch_reachable.init [of 1] by (simp add: new_Thread_def new_CountDownLatch_def)
next
  case (start s)
  then show ?case using latch_reachable.enter [of 1 0 "thr_latch s" 0] by (simp add: thread_start_def latch_enter_def)
next
  case (store s)
  then show ?case by (simp add: child_store_tid_def tid_def cacheTid_def)
next
  case (count s)
  then show ?case using latch_reachable.down [of 1 0 "thr_latch s"] by (auto simp: child_countDown_def countDown_def Let_def)
next
  case (test s)
  then show ?case using latch_reachable.test [of 1 _ "thr_latch s" 0] by (auto simp: latch_test_def)
next
  case (wake s)
  then show ?case using latch_reachable.wake [of 1 _ "thr_latch s" 0] by (auto simp: latch_wake_def)
qed




section \<open>A loop in a thread of its own\<close>

text \<open>The owner of the object: before \<^verbatim>\<open>startLoop\<close>, in its loop over the condition variable, after it returned a
  pointer, in \<^verbatim>\<open>join\<close> in the destructor, or done, having joined the thread or not. The new thread: not
  created, before it publishes its loop, between that and \<^verbatim>\<open>loop()\<close>, in \<^verbatim>\<open>loop()\<close>, or done.\<close>

datatype owner_pc = Fresh | Starting | Started nat | Joining | Gone bool

datatype looper_pc = NoThread | Preparing | Published | Looping | Ended

record EventLoopThread =
  elt_ptr :: "nat option"
  exiting :: bool
  elt_loop :: EventLoop
  owner :: owner_pc
  looper :: looper_pc

definition new_EventLoopThread :: EventLoopThread where
  "new_EventLoopThread = \<lparr>elt_ptr = None, exiting = False, elt_loop = new_EventLoop, owner = Fresh, looper = NoThread\<rparr>"

definition startLoop :: "EventLoopThread \<Rightarrow> EventLoopThread" where
  "startLoop s = s\<lparr>owner := Starting, looper := Preparing\<rparr>"

text \<open>One round of the loop in \<^verbatim>\<open>startLoop\<close>, with the lock held: wait again while the pointer is null.\<close>

definition startLoop_test :: "EventLoopThread \<Rightarrow> EventLoopThread" where
  "startLoop_test s = (case elt_ptr s of None \<Rightarrow> s | Some p \<Rightarrow> s\<lparr>owner := Started p\<rparr>)"

text \<open>The two critical sections of \<^verbatim>\<open>threadFunc\<close>.\<close>

definition publish_loop :: "nat \<Rightarrow> EventLoopThread \<Rightarrow> EventLoopThread" where
  "publish_loop addr s = s\<lparr>elt_ptr := Some addr, looper := Published\<rparr>"

definition unpublish_loop :: "EventLoopThread \<Rightarrow> EventLoopThread" where
  "unpublish_loop s = s\<lparr>elt_ptr := None, looper := Ended\<rparr>"

definition delete_EventLoopThread :: "EventLoopThread \<Rightarrow> EventLoopThread" where
  "delete_EventLoopThread s =
     (case elt_ptr s of
        None \<Rightarrow> s\<lparr>exiting := True, owner := Gone False\<rparr>
      | Some p \<Rightarrow> s\<lparr>exiting := True, elt_loop := loop_quit False (elt_loop s), owner := Joining\<rparr>)"

inductive elt_step :: "(nat \<Rightarrow> loop_act list) \<Rightarrow> nat \<Rightarrow> EventLoopThread \<Rightarrow> EventLoopThread \<Rightarrow> bool" for body addr where
  startLoop: "owner s = Fresh \<Longrightarrow> elt_step body addr s (startLoop s)"
| prepare: "looper s = Preparing \<or> looper s = Published \<Longrightarrow> loop_step body (elt_loop s) l \<Longrightarrow> pc l = Idle \<Longrightarrow>
    elt_step body addr s (s\<lparr>elt_loop := l\<rparr>)"
| publish: "looper s = Preparing \<Longrightarrow> elt_step body addr s (publish_loop addr s)"
| wait: "owner s = Starting \<Longrightarrow> elt_step body addr s (startLoop_test s)"
| enter: "looper s = Published \<Longrightarrow> start_loop (elt_loop s) = Inr l \<Longrightarrow>
    elt_step body addr s (s\<lparr>elt_loop := l, looper := Looping\<rparr>)"
| run: "looper s = Looping \<Longrightarrow> pc (elt_loop s) \<noteq> Idle \<Longrightarrow> loop_step body (elt_loop s) l \<Longrightarrow>
    elt_step body addr s (s\<lparr>elt_loop := l\<rparr>)"
| leave: "looper s = Looping \<Longrightarrow> pc (elt_loop s) = Idle \<Longrightarrow> elt_step body addr s (unpublish_loop s)"
| destroy: "owner s = Started p \<Longrightarrow> elt_step body addr s (delete_EventLoopThread s)"
| join: "owner s = Joining \<Longrightarrow> looper s = Ended \<Longrightarrow> elt_step body addr s (s\<lparr>owner := Gone True\<rparr>)"

inductive elt_reachable :: "(nat \<Rightarrow> loop_act list) \<Rightarrow> nat \<Rightarrow> EventLoopThread \<Rightarrow> bool" for body addr where
  init: "elt_reachable body addr new_EventLoopThread"
| step: "elt_reachable body addr s \<Longrightarrow> elt_step body addr s s' \<Longrightarrow> elt_reachable body addr s'"

lemmas elt_ops = startLoop_def startLoop_test_def publish_loop_def unpublish_loop_def delete_EventLoopThread_def

text \<open>The loop inside runs as a loop does: \<^verbatim>\<open>quit\<close> from the destructor is a \<^verbatim>\<open>quit\<close> from another thread.\<close>

lemma quit_reachable:
  assumes "loop_reachable body l"
  shows "loop_reachable body (loop_quit False l)"
proof -
  have "loop_reachable body (l\<lparr>quit := True, in_flight := Suc (in_flight l)\<rparr>)"
    by (rule loop_reachable.step [OF assms loop_step.other_quit])
  from loop_reachable.step [OF this loop_step.other_wakeup] show ?thesis
    by (simp add: loop_quit_def wakeup_def split: if_splits)
qed

definition elt_inv :: "nat \<Rightarrow> EventLoopThread \<Rightarrow> bool" where
  "elt_inv addr s \<longleftrightarrow>
     elt_ptr s = (if looper s = Published \<or> looper s = Looping then Some addr else None)
     \<and> (owner s = Fresh \<longleftrightarrow> looper s = NoThread)
     \<and> (\<forall>p. owner s = Started p \<longrightarrow> p = addr)
     \<and> (looper s \<noteq> Looping \<longrightarrow> pc (elt_loop s) = Idle)
     \<and> (owner s = Joining \<longrightarrow> looper s \<noteq> Preparing)"

lemma start_loop_pc: "start_loop l = Inr l' \<Longrightarrow> pc l' = Test"
  by (auto simp: start_loop_def split: if_splits)

lemma loop_quit_pc [simp]: "pc (loop_quit inLoop l) = pc l"
  by (simp add: loop_quit_def Let_def)

lemma elt_reachable_inv: "elt_reachable body addr s \<Longrightarrow> loop_reachable body (elt_loop s) \<and> elt_inv addr s"
proof (induction rule: elt_reachable.induct)
  case init
  show ?case using loop_reachable.init by (simp add: new_EventLoopThread_def elt_inv_def new_EventLoop_def)
next
  case (step s s')
  then have r: "loop_reachable body (elt_loop s)" and inv: "elt_inv addr s" by blast+
  from step(2) show ?case
  proof cases
    case (prepare l)
    then show ?thesis using loop_reachable.step [OF r prepare(3)] inv by (auto simp: elt_inv_def)
  next
    case (enter l)
    then have "pc (elt_loop s) = Idle" using inv by (simp add: elt_inv_def)
    then show ?thesis using loop_reachable.step [OF r loop_step.start [OF _ enter(3)]] enter inv by (auto simp: elt_inv_def)
  next
    case (run l)
    then show ?thesis using loop_reachable.step [OF r run(4)] inv by (auto simp: elt_inv_def)
  next
    case (destroy p)
    then show ?thesis using r inv quit_reachable [OF r]
      by (auto simp: elt_inv_def delete_EventLoopThread_def split: option.splits if_splits)
  qed (use r inv in \<open>auto simp: elt_inv_def elt_ops split: option.splits if_splits\<close>)
qed


text \<open>Once a loop runs, only the loop itself clears the request to quit, and it does so only in \<^verbatim>\<open>loop()\<close>'s
  first lines.\<close>

lemma loop_step_quit:
  assumes "loop_step body l l'" "pc l \<noteq> Idle" "quit l"
  shows "quit l'"
  using assms(1)
proof cases
  case call
  from call(2) show ?thesis unfolding call(1)
    by (cases rule: next_call_cases) (use assms(3) in \<open>auto simp: queueInLoop_def push_functor_def loop_quit_def Let_def\<close>)
qed (use assms(2,3) in \<open>auto simp: loop_ops split: if_splits list.splits\<close>)

lemma loop_step_stays:
  assumes "loop_step body l l'" "pc l \<noteq> Idle" "\<not> quit l"
  shows "pc l' \<noteq> Idle"
  using assms(1)
proof cases
  case call
  from call(2) show ?thesis unfolding call(1)
    by (cases rule: next_call_cases) (use assms(2) in \<open>auto simp: queueInLoop_def push_functor_def loop_quit_def Let_def\<close>)
qed (use assms(2,3) in \<open>auto simp: loop_ops split: if_splits list.splits\<close>)

lemma elt_step_quit:
  assumes "elt_step body addr s s'" "elt_inv addr s" "looper s = Looping \<or> looper s = Ended" "quit (elt_loop s)"
  shows "(looper s' = Looping \<or> looper s' = Ended) \<and> quit (elt_loop s')"
  using assms(1)
proof cases
  case (run l)
  then show ?thesis using loop_step_quit [OF run(4,3) assms(4)] assms(3) by simp
qed (use assms(2-4) in \<open>auto simp: elt_inv_def elt_ops loop_quit_def Let_def split: option.splits if_splits\<close>)

text \<open>Destroying an \<^verbatim>\<open>EventLoopThread\<close> whose thread is in \<^verbatim>\<open>loop()\<close> works: whatever happens afterwards, the request
  to quit stays in force until the thread has ended, and the thread never blocks in \<^verbatim>\<open>poll\<close> without a wake-up
  on its way, so that \<^verbatim>\<open>join\<close> returns.\<close>

theorem elt_destroy_running:
  assumes "elt_reachable body addr s" "owner s = Started p" "looper s = Looping"
    "(elt_step body addr)\<^sup>*\<^sup>* (delete_EventLoopThread s) s'"
  shows "quit (elt_loop s') \<and> (looper s' = Looping \<or> looper s' = Ended)
    \<and> (pc (elt_loop s') = Polling \<longrightarrow> wakeupCount (elt_loop s') > 0 \<or> in_flight (elt_loop s') > 0)"
proof -
  have r: "elt_reachable body addr (delete_EventLoopThread s)"
    by (rule elt_reachable.step [OF assms(1) elt_step.destroy [OF assms(2)]])
  have ptr: "elt_ptr s \<noteq> None" using elt_reachable_inv [OF assms(1)] assms(3) by (simp add: elt_inv_def)
  from assms(4) have "elt_reachable body addr s' \<and> (looper s' = Looping \<or> looper s' = Ended) \<and> quit (elt_loop s')"
  proof induction
    case base
    show ?case using r ptr assms(3) by (auto simp: delete_EventLoopThread_def loop_quit_def Let_def)
  next
    case (step s1 s2)
    then show ?case using elt_step_quit [OF step(2)] elt_reachable_inv [of body addr s1] elt_reachable.step [of body addr s1 s2]
      by blast
  qed
  moreover from this have "wakeup_inv (elt_loop s')"
    using elt_reachable_inv loop_reachable_inv loop_invD(1) by blast
  ultimately show ?thesis by (auto simp: wakeup_inv_def wakeup_coming_def)
qed



text \<open>A thread that has published its loop at address \<open>9\<close> and whose owner has the pointer, and the same
  thread in \<^verbatim>\<open>loop()\<close>.\<close>

definition demo_elt :: EventLoopThread where
  "demo_elt = startLoop_test (publish_loop 9 (startLoop new_EventLoopThread))"

lemma demo_elt_reachable:
  "elt_reachable body 9 demo_elt" "owner demo_elt = Started 9" "looper demo_elt = Published" "elt_loop demo_elt = new_EventLoop"
proof -
  have "elt_reachable body 9 (startLoop new_EventLoopThread)"
    by (rule elt_reachable.step [OF elt_reachable.init elt_step.startLoop]) (simp add: new_EventLoopThread_def)
  then have "elt_reachable body 9 (publish_loop 9 (startLoop new_EventLoopThread))"
    by (rule elt_reachable.step [OF _ elt_step.publish]) (simp add: startLoop_def)
  then show "elt_reachable body 9 demo_elt" unfolding demo_elt_def
    by (rule elt_reachable.step [OF _ elt_step.wait]) (simp add: publish_loop_def startLoop_def)
qed (simp_all add: demo_elt_def elt_ops new_EventLoopThread_def)


theorem elt_destroy_running_witness:
  "\<exists>s. elt_reachable demo_body 9 s \<and> looper s = Looping \<and> quit (elt_loop (delete_EventLoopThread s))"
proof -
  obtain l where l: "start_loop (elt_loop demo_elt) = Inr l"
    unfolding demo_elt_reachable(4) by (simp add: start_loop_def new_EventLoop_def)
  let ?s = "demo_elt\<lparr>elt_loop := l, looper := Looping\<rparr>"
  have r: "elt_reachable demo_body 9 ?s"
    by (rule elt_reachable.step [OF demo_elt_reachable(1) elt_step.enter [OF demo_elt_reachable(3) l]])
  have "owner ?s = Started 9" "looper ?s = Looping" using demo_elt_reachable(2) by simp_all
  from elt_destroy_running [OF r this] show ?thesis using r by (intro exI [of _ ?s]) simp
qed

section \<open>The pool of loops\<close>

record EventLoopThreadPool =
  baseLoop :: nat
  pool_name :: string
  pool_started :: bool
  numThreads :: int
  pool_next :: int
  thread_names :: "string list"
  loops :: "nat list"

definition new_EventLoopThreadPool :: "nat \<Rightarrow> string \<Rightarrow> EventLoopThreadPool" where
  "new_EventLoopThreadPool base name = \<lparr>baseLoop = base, pool_name = name, pool_started = False, numThreads = 0, pool_next = 0,
     thread_names = [], loops = []\<rparr>"

definition setThreadNum :: "int \<Rightarrow> EventLoopThreadPool \<Rightarrow> EventLoopThreadPool" where
  "setThreadNum n s = s\<lparr>numThreads := n\<rparr>"

text \<open>One round of the loop in \<^verbatim>\<open>start\<close>; \<open>new_loop i\<close> is the pointer that \<^verbatim>\<open>startLoop\<close> of the \<open>i\<close>-th thread
  returns. The last component of the result of \<open>pool_start\<close> tells whether the callback is called on the base
  loop.\<close>

definition start_thread :: "(nat \<Rightarrow> nat) \<Rightarrow> nat \<Rightarrow> EventLoopThreadPool \<Rightarrow> EventLoopThreadPool" where
  "start_thread new_loop i s =
     s\<lparr>thread_names := thread_names s @ [snprintf (length (pool_name s) + 32) (pool_name s @ show_int (int i))],
       loops := loops s @ [new_loop i]\<rparr>"

definition pool_start :: "(nat \<Rightarrow> nat) \<Rightarrow> bool \<Rightarrow> EventLoopThreadPool \<Rightarrow> EventLoopThreadPool \<times> bool" where
  "pool_start new_loop has_cb s =
     (fold (start_thread new_loop) [0..<nat (numThreads s)] (s\<lparr>pool_started := True\<rparr>), numThreads s = 0 \<and> has_cb)"

definition getNextLoop :: "EventLoopThreadPool \<Rightarrow> abort + (nat \<times> EventLoopThreadPool)" where
  "getNextLoop s =
     (if loops s \<noteq> []
      then if 0 \<le> pool_next s \<and> nat (pool_next s) < length (loops s)
           then let s1 = s\<lparr>pool_next := pool_next s + 1\<rparr>
                in Inr (loops s ! nat (pool_next s), if pool_next s1 \<ge> int (length (loops s1)) then s1\<lparr>pool_next := 0\<rparr> else s1)
           else Inl Bad_access
      else Inr (baseLoop s, s))"

definition getAllLoops :: "EventLoopThreadPool \<Rightarrow> nat list" where
  "getAllLoops s = (if loops s = [] then [baseLoop s] else loops s)"

text \<open>Repeated calls of \<^verbatim>\<open>getNextLoop\<close>.\<close>

fun next_loops :: "nat \<Rightarrow> EventLoopThreadPool \<Rightarrow> abort + (nat list \<times> EventLoopThreadPool)" where
  "next_loops 0 s = Inr ([], s)"
| "next_loops (Suc k) s = bind_abort (getNextLoop s) (\<lambda>(l, s1). bind_abort (next_loops k s1) (\<lambda>(ls, s2). Inr (l # ls, s2)))"

lemma fold_start_thread:
  "loops (fold (start_thread f) is s) = loops s @ map f is"
  "pool_next (fold (start_thread f) is s) = pool_next s" "baseLoop (fold (start_thread f) is s) = baseLoop s"
  "pool_name (fold (start_thread f) is s) = pool_name s"
  "thread_names (fold (start_thread f) is s) =
     thread_names s @ map (\<lambda>i. snprintf (length (pool_name s) + 32) (pool_name s @ show_int (int i))) is"
  by (induction "is" arbitrary: s) (simp_all add: start_thread_def)

text \<open>The names of the threads are not cut off.\<close>

lemma thread_name_fits:
  assumes "i < 2 ^ 31"
  shows "snprintf (length name + 32) (name @ show_int (int i)) = name @ show_int (int i)"
proof -
  have "i < 10 ^ 10" using assms by simp
  then have "length (show_nat i) \<le> 10" by (intro length_show_nat) simp_all
  then show ?thesis by (simp add: show_int_def)
qed

lemma getNextLoop_step:
  assumes "loops s \<noteq> []" "pool_next s = int (j mod length (loops s))"
  shows "\<exists>s'. getNextLoop s = Inr (loops s ! (j mod length (loops s)), s') \<and> loops s' = loops s \<and> baseLoop s' = baseLoop s
    \<and> pool_next s' = int (Suc j mod length (loops s))"
proof -
  let ?n = "length (loops s)"
  have lt: "j mod ?n < ?n" using assms(1) by simp
  have "Suc j mod ?n = (if Suc (j mod ?n) \<ge> ?n then 0 else Suc (j mod ?n))"
    using lt by (auto simp: mod_Suc)
  then show ?thesis using assms lt by (auto simp: getNextLoop_def Let_def)
qed

lemma next_loops_spec:
  assumes "loops s \<noteq> []" "pool_next s = int (j mod length (loops s))"
  shows "\<exists>s'. next_loops k s = Inr (map (\<lambda>i. loops s ! ((j + i) mod length (loops s))) [0..<k], s')"
  using assms
proof (induction k arbitrary: s j)
  case (Suc k)
  obtain s1 where s1: "getNextLoop s = Inr (loops s ! (j mod length (loops s)), s1)" "loops s1 = loops s"
      "pool_next s1 = int (Suc j mod length (loops s))"
    using getNextLoop_step [OF Suc.prems] by blast
  obtain s2 where s2: "next_loops k s1 = Inr (map (\<lambda>i. loops s ! ((Suc j + i) mod length (loops s))) [0..<k], s2)"
    using Suc.IH [of s1 "Suc j"] s1(2,3) Suc.prems(1) by auto
  have "[0..<Suc k] = 0 # map Suc [0..<k]" by (simp add: map_Suc_upt upt_conv_Cons del: upt_Suc)
  then show ?case using s1(1) s2 by (simp add: comp_def del: upt_Suc)
qed simp


lemma next_loops_base:
  "loops s = [] \<Longrightarrow> next_loops k s = Inr (replicate k (baseLoop s), s)"
  by (induction k) (simp_all add: getNextLoop_def)



end
