(* ===== verification/Ymuduo_TcpServer.thy ===== *)
theory Ymuduo_TcpServer
  imports Ymuduo_Threads Ymuduo_Socket Ymuduo_TcpConnection
begin

text \<open>
  The server (\<^verbatim>\<open>src/include/TcpServer.h\<close>, \<^verbatim>\<open>src/src/TcpServer.cc\<close>): many connections, each served by one of
  the loops of the pool, with one poller per loop. The connections are objects in memory, referred to by
  the server's map and by the functors queued in the loops; the functors of a loop run in the order they
  were queued, those of different loops in any order. The connection operations are the ones of
  \<^verbatim>\<open>TcpConnection\<close>, run on the poller of the connection's loop.
\<close>

section \<open>One connection among others\<close>

text \<open>An operation on a connection leaves the descriptor of its channel and the registration of all other
  channels alone.\<close>

definition conn_frame :: "('p \<Rightarrow> Channel \<Rightarrow> bool) \<Rightarrow> ('p, 'c) TcpConnection \<Rightarrow> ('p, 'c) TcpConnection \<Rightarrow> bool" where
  "conn_frame ok c c' \<longleftrightarrow> fd (channel c') = fd (channel c)
     \<and> (\<forall>d. ok (poller_state c) d \<longrightarrow> fd d \<noteq> fd (channel c) \<longrightarrow> ok (poller_state c') d)"

lemma conn_frame_same:
  "fd (channel c') = fd (channel c) \<Longrightarrow> poller_state c' = poller_state c \<Longrightarrow> conn_frame ok c c'"
  by (simp add: conn_frame_def)

lemma conn_frame_trans: "conn_frame ok c d \<Longrightarrow> conn_frame ok d e \<Longrightarrow> conn_frame ok c e"
  by (simp add: conn_frame_def)

lemma quiet_frame: "quiet f \<Longrightarrow> f c = Inr c' \<Longrightarrow> conn_frame ok c c'"
  using quietE [of f c] by (metis conn_frame_same sum.inject(2))

context poller
begin

lemma on_chan_frame:
  assumes "ok (poller_state c) (channel c)" "on_chan (chan_step V x) c = Inr c'"
  shows "conn_frame ok c c'"
  using assms(1)
proof (cases rule: step_cases [where x = x])
  case (refused a)
  then show ?thesis using assms(2) by (simp add: on_chan_def)
next
  case (ok p' ch')
  have "fd ch' = fd (channel c)" by (subst ok(3)) simp
  moreover have "c' = c\<lparr>poller_state := p', channel := ch'\<rparr>" using assms(2) ok(1) by (simp add: on_chan_def)
  ultimately show ?thesis using ok(5) by (simp add: conn_frame_def)
qed

lemma connectEstablished_frame:
  assumes "ok (poller_state c) (channel c)" "quiet (connectionCallback cb)" "connectEstablished V cb c = Inr c'"
  shows "conn_frame ok c c'"
proof -
  define c2 where "c2 = (setState c kConnected)\<lparr>channel := tie (channel c)\<rparr>"
  have ok2: "ok (poller_state c2) (channel c2)"
    using ok_other [OF assms(1), of True "eventHandling (channel c)" "revents (channel c)"]
    by (simp add: c2_def setState_def tie_def)
  obtain c3 where c3: "on_chan (chan_step V EnableReading) c2 = Inr c3" "connectionCallback cb c3 = Inr c'"
    using assms(3) by (auto simp: connectEstablished_def c2_def setState_def Let_def bind_abort_Inr)
  have "conn_frame ok c c2" by (rule conn_frame_same) (simp_all add: c2_def setState_def tie_def)
  from conn_frame_trans [OF this on_chan_frame [OF ok2 c3(1)]] have "conn_frame ok c c3" .
  from conn_frame_trans [OF this quiet_frame [OF assms(2) c3(2)]] show ?thesis .
qed

lemma handleClose_frame:
  assumes "ok (poller_state c) (channel c)" "quiet (connectionCallback cb)" "quiet (conn_closeCallback cb)"
    "handleClose V cb c = Inr c'"
  shows "conn_frame ok c c'"
proof -
  let ?c0 = "setState c kDisconnected"
  have ok0: "ok (poller_state ?c0) (channel ?c0)" using assms(1) by (simp add: setState_def)
  obtain c1 c2 where c: "on_chan (chan_step V DisableAll) ?c0 = Inr c1" "connectionCallback cb c1 = Inr c2"
      "conn_closeCallback cb c2 = Inr c'"
    using assms(4) by (auto simp: handleClose_def bind_abort_Inr)
  have "conn_frame ok c ?c0" by (rule conn_frame_same) (simp_all add: setState_def)
  from conn_frame_trans [OF this on_chan_frame [OF ok0 c(1)]] have "conn_frame ok c c1" .
  from conn_frame_trans [OF this quiet_frame [OF assms(2) c(2)]] have "conn_frame ok c c2" .
  from conn_frame_trans [OF this quiet_frame [OF assms(3) c(3)]] show ?thesis .
qed

lemma remove_frame:
  assumes "closable ok c" "conn_state c \<noteq> kConnected" "on_chan (chan_remove V) c = Inr c'"
  shows "conn_frame ok c c'"
proof -
  have c: "ok (poller_state c) (channel c)" "\<not> eventHandling (channel c)" "isNoneEvent (channel c)" "index (channel c) \<noteq> kNew"
    using assms(1,2) by (auto simp: closable_def)
  obtain p2 ch2 where r: "chan_remove V (poller_state c) (channel c) = Inr (p2, ch2)"
      "\<And>d. ok (poller_state c) d \<Longrightarrow> fd d \<noteq> fd (channel c) \<Longrightarrow> ok p2 d" "ok p2 ch2"
    by (rule remove_delete_frame [OF c]) blast
  have "ok (poller_state c) ((channel c)\<lparr>addedToLoop := False\<rparr>)"
    using ok_request [OF c(1), of False "events (channel c)"] by simp
  then have "fd ch2 = fd (channel c)"
    using rem_ok r(1) c(3) by (fastforce simp: chan_remove_def loop_removeChannel_def)
  moreover have "c' = c\<lparr>poller_state := p2, channel := ch2\<rparr>" using assms(3) r(1) by (simp add: on_chan_def)
  ultimately show ?thesis using r(2) by (simp add: conn_frame_def)
qed

lemma connectDestroyed_frame:
  assumes "closable ok c" "quiet (connectionCallback cb)" "connectDestroyed V cb c = Inr c'"
  shows "conn_frame ok c c'"
proof (cases "conn_state c = kConnected")
  case False
  then show ?thesis using remove_frame [OF assms(1)] assms(3) by (simp add: connectDestroyed_def)
next
  case True
  define cb' where "cb' = cb\<lparr>conn_closeCallback := Inr\<rparr>"
  have q: "quiet (connectionCallback cb')" "quiet (conn_closeCallback cb')"
    using assms(2) by (simp_all add: cb'_def quiet_def)
  have c: "ok (poller_state c) (channel c)" "\<not> eventHandling (channel c)" using assms(1) by (simp_all add: closable_def)
  obtain d where d: "handleClose V cb' c = Inr d" "on_chan (chan_remove V) d = Inr c'"
    using assms(3) True by (auto simp: connectDestroyed_def handleClose_def cb'_def bind_abort_Inr)
  have "closable ok d" "conn_state d \<noteq> kConnected" using handleClose_closable [OF c q] d(1) by auto
  from conn_frame_trans [OF handleClose_frame [OF c(1) q d(1)] remove_frame [OF this d(2)]] show ?thesis .
qed

end


lemma send_direct_same:
  "send_direct data c = (n, f, c1) \<Longrightarrow> channel c1 = channel c \<and> poller_state c1 = poller_state c"
  by (auto simp: send_direct_def sock_write_def conn_queueInLoop_def split: if_splits list.splits write_outcome.splits)

lemma sendInLoop_touches:
  assumes "sendInLoop V data c = Inr c'"
  shows "channel c' = channel c \<and> poller_state c' = poller_state c
    \<or> (\<exists>c3. channel c3 = channel c \<and> poller_state c3 = poller_state c \<and> on_chan (chan_step V EnableWriting) c3 = Inr c')"
proof (cases "conn_state c = kDisconnected")
  case True
  then show ?thesis using assms by (simp add: sendInLoop_def)
next
  case False
  obtain n f c1 where d: "send_direct data c = (n, f, c1)" by (metis prod_cases3)
  have eq: "sendInLoop V data c =
      (let remaining = length data - n
        in if \<not> f \<and> remaining > 0
           then let oldLen = readableBytes (outputBuffer c1);
                    c2 = (if oldLen + remaining \<ge> highWaterMark c1 \<and> oldLen < highWaterMark c1 \<and> has_highWaterMark c1
                          then conn_queueInLoop (HighWaterMarkCallback (oldLen + remaining)) c1 else c1);
                    c3 = c2\<lparr>outputBuffer := append_buf (outputBuffer c2) (drop n data)\<rparr>
                in if \<not> isWriting (channel c3) then on_chan (enableWriting V) c3 else Inr c3
           else Inr c1)"
    using False d by (simp add: sendInLoop_def)
  show ?thesis
  proof (cases "\<not> f \<and> length data - n > 0")
    case True
    define c2 where "c2 = (if readableBytes (outputBuffer c1) + (length data - n) \<ge> highWaterMark c1
        \<and> readableBytes (outputBuffer c1) < highWaterMark c1 \<and> has_highWaterMark c1
      then conn_queueInLoop (HighWaterMarkCallback (readableBytes (outputBuffer c1) + (length data - n))) c1 else c1)"
    define c3 where "c3 = c2\<lparr>outputBuffer := append_buf (outputBuffer c2) (drop n data)\<rparr>"
    have same: "channel c3 = channel c" "poller_state c3 = poller_state c"
      using send_direct_same [OF d] by (simp_all add: c3_def c2_def conn_queueInLoop_def)
    have "sendInLoop V data c = (if \<not> isWriting (channel c3) then on_chan (enableWriting V) c3 else Inr c3)"
      unfolding eq c3_def c2_def using True by (simp only: Let_def if_True simp_thms)
    then show ?thesis using assms same by (cases "isWriting (channel c3)") auto
  next
    case False
    then have "sendInLoop V data c = Inr c1" unfolding eq Let_def by (rule if_not_P)
    then show ?thesis using assms send_direct_same [OF d] by simp
  qed
qed

lemma sock_write_same:
  "sock_write data c = (r, c1) \<Longrightarrow> channel c1 = channel c \<and> poller_state c1 = poller_state c"
  by (auto simp: sock_write_def split: list.splits write_outcome.splits)

lemma handleWrite_touches:
  fixes c :: "('p, 'c) TcpConnection"
  assumes "handleWrite V c = Inr c'"
  shows "channel c' = channel c \<and> poller_state c' = poller_state c
    \<or> (\<exists>(c2 :: ('p, 'c) TcpConnection) c3. channel c2 = channel c \<and> poller_state c2 = poller_state c \<and> on_chan (chan_step V DisableWriting) c2 = Inr c3
         \<and> channel c' = channel c3 \<and> poller_state c' = poller_state c3)"
proof (cases "isWriting (channel c)")
  case False
  then show ?thesis using assms by (simp add: handleWrite_def)
next
  case True
  obtain r c1 where w: "sock_write (fst (writeFd (outputBuffer c) (WriteOk 0))) c = (r, c1)" by force
  obtain off n e where f: "writeFd (outputBuffer c) r = (off, n, e)" by (metis prod_cases3)
  define c2 where "c2 = c1\<lparr>outputBuffer := retrieve (outputBuffer c1) (nat n)\<rparr>"
  have same: "channel c1 = channel c" "poller_state c1 = poller_state c" "channel c2 = channel c" "poller_state c2 = poller_state c"
    using sock_write_same [OF w] by (simp_all add: c2_def)
  have eq: "handleWrite V c = (if n > 0 then (if readableBytes (outputBuffer c2) = 0
      then bind_abort (on_chan (disableWriting V) c2) (\<lambda>c3.
        let c4 = (if has_writeComplete c3 then conn_queueInLoop WriteCompleteCallback c3 else c3)
        in Inr (if conn_state c4 = kDisconnecting then shutdownInLoop c4 else c4)) else Inr c2) else Inr c1)"
    using True w f by (simp add: handleWrite_def c2_def Let_def)
  show ?thesis
  proof (cases "n > 0 \<and> readableBytes (outputBuffer c2) = 0")
    case True
    then obtain c3 where c3: "on_chan (chan_step V DisableWriting) c2 = Inr c3"
        "c' = (let c4 = (if has_writeComplete c3 then conn_queueInLoop WriteCompleteCallback c3 else c3)
               in if conn_state c4 = kDisconnecting then shutdownInLoop c4 else c4)"
      using assms unfolding eq by (auto simp: bind_abort_Inr Let_def)
    then have "channel c' = channel c3 \<and> poller_state c' = poller_state c3"
      by (simp add: Let_def conn_queueInLoop_def shutdownInLoop_def)
    then show ?thesis using c3(1) same by blast
  next
    case False
    then show ?thesis using assms same unfolding eq by (auto split: if_splits)
  qed
qed

lemma conn_step_input: "conn_step V e c = Inr c' \<Longrightarrow> same_input c c'"
  by (cases e) (auto simp: send_def same_input_def dest: sendInLoop_input handleWrite_input split: if_splits)

context poller
begin

lemma conn_step_frame:
  assumes "ok (poller_state c) (channel c)" "conn_step V e c = Inr c'"
  shows "conn_frame ok c c'"
proof (cases e)
  case (SendMsg s)
  have "Inr c = (Inr c' :: abort + _) \<or> sendInLoop V s c = Inr c'"
    using assms(2) unfolding SendMsg by (cases "conn_state c = kConnected") (simp_all add: send_def)
  then consider "c = c'" | "sendInLoop V s c = Inr c'" by blast
  then show ?thesis
  proof cases
    case 2
    from sendInLoop_touches [OF this] show ?thesis
    proof (elim disjE exE conjE)
      fix c3 assume c3: "channel c3 = channel c" "poller_state c3 = poller_state c" "on_chan (chan_step V EnableWriting) c3 = Inr c'"
      have "ok (poller_state c3) (channel c3)" using assms(1) c3(1,2) by simp
      from on_chan_frame [OF this c3(3)] show ?thesis unfolding conn_frame_def c3(1,2) .
    qed (simp add: conn_frame_same)
  qed (simp add: conn_frame_same)
next
  case WritableEvent
  then have "handleWrite V c = Inr c'" using assms(2) by simp
  from handleWrite_touches [OF this] show ?thesis
  proof (elim disjE exE conjE)
    fix c2 c3
    assume c3: "channel c2 = channel c" "poller_state c2 = poller_state c" "on_chan (chan_step V DisableWriting) c2 = Inr c3"
      "channel c' = channel c3" "poller_state c' = poller_state c3"
    have "ok (poller_state c2) (channel c2)" using assms(1) c3(1,2) by simp
    from on_chan_frame [OF this c3(3)] show ?thesis unfolding conn_frame_def c3 .
  qed (simp add: conn_frame_same)
qed

end


section \<open>The server\<close>

text \<open>The functors that the server and its connections queue in loops; a functor holds a reference to its
  connection.\<close>

datatype srv_functor = ConnectEstablished (srv_conn: nat) | ConnectDestroyed (srv_conn: nat) | RemoveConnectionInLoop (srv_conn: nat)

text \<open>\<open>conns\<close> are the connection objects in memory by address, with the loop that serves each and its name;
  \<open>loop_poller\<close> and \<open>loop_queue\<close> belong to the loops, by address. The \<open>poller_state\<close> inside a connection is a
  scratch copy of its loop's poller.\<close>

record ('p, 'c) TcpServer =
  srv_name :: string
  ipPort :: string
  srv_started :: int
  listening :: bool
  threadPool :: EventLoopThreadPool
  nextConnId :: int
  connections :: "string \<Rightarrow> nat option"
  conns :: "nat \<Rightarrow> ('p, 'c) TcpConnection option"
  conn_loop :: "nat \<Rightarrow> nat"
  conn_name :: "nat \<Rightarrow> string"
  loop_poller :: "nat \<Rightarrow> 'p"
  loop_queue :: "nat \<Rightarrow> srv_functor list"

definition new_TcpServer :: "nat \<Rightarrow> InetAddress \<Rightarrow> string \<Rightarrow> (nat \<Rightarrow> 'p) \<Rightarrow> ('p, 'c) TcpServer" where
  "new_TcpServer loop listenAddr nameArg pollers =
     \<lparr>srv_name = nameArg, ipPort = toIpPort listenAddr, srv_started = 0, listening = False,
      threadPool = new_EventLoopThreadPool loop nameArg, nextConnId = 1, connections = (\<lambda>_. None), conns = (\<lambda>_. None),
      conn_loop = (\<lambda>_. 0), conn_name = (\<lambda>_. []), loop_poller = pollers, loop_queue = (\<lambda>_. [])\<rparr>"

definition srv_setThreadNum :: "int \<Rightarrow> ('p, 'c) TcpServer \<Rightarrow> ('p, 'c) TcpServer" where
  "srv_setThreadNum n s = s\<lparr>threadPool := setThreadNum n (threadPool s)\<rparr>"

text \<open>\<^verbatim>\<open>start\<close>: only the first call has an effect. \<open>listen\<close> runs in the base loop's thread, which calls \<^verbatim>\<open>start\<close>.\<close>

definition srv_start :: "(nat \<Rightarrow> nat) \<Rightarrow> bool \<Rightarrow> ('p, 'c) TcpServer \<Rightarrow> ('p, 'c) TcpServer" where
  "srv_start new_loop has_cb s =
     (if srv_started s = 0
      then s\<lparr>srv_started := srv_started s + 1, threadPool := fst (pool_start new_loop has_cb (threadPool s)), listening := True\<rparr>
      else s\<lparr>srv_started := srv_started s + 1\<rparr>)"

definition base_loop :: "('p, 'c) TcpServer \<Rightarrow> nat" where
  "base_loop s = baseLoop (threadPool s)"

definition srv_enqueue :: "nat \<Rightarrow> srv_functor \<Rightarrow> ('p, 'c) TcpServer \<Rightarrow> ('p, 'c) TcpServer" where
  "srv_enqueue l f s = s\<lparr>loop_queue := (loop_queue s)(l := loop_queue s l @ [f])\<rparr>"

text \<open>An operation of the connection at address \<open>a\<close>, on the poller of its loop.\<close>

definition on_conn ::
  "nat \<Rightarrow> (('p, 'c) TcpConnection \<Rightarrow> abort + ('p, 'c) TcpConnection) \<Rightarrow> ('p, 'c) TcpServer \<Rightarrow> abort + ('p, 'c) TcpServer" where
  "on_conn a f s =
     (case conns s a of
        None \<Rightarrow> Inl Bad_access
      | Some c \<Rightarrow> bind_abort (f (c\<lparr>poller_state := loop_poller s (conn_loop s a)\<rparr>)) (\<lambda>c'.
          Inr (s\<lparr>conns := (conns s)(a \<mapsto> c'), loop_poller := (loop_poller s)(conn_loop s a := poller_state c')\<rparr>)))"

text \<open>The last reference to a connection goes away: \<^verbatim>\<open>~TcpConnection\<close> destroys the channel.\<close>

definition release_conn :: "('p \<Rightarrow> ChannelMap) \<Rightarrow> nat \<Rightarrow> ('p, 'c) TcpServer \<Rightarrow> abort + ('p, 'c) TcpServer" where
  "release_conn chans a s =
     (case conns s a of
        None \<Rightarrow> Inl Bad_access
      | Some c \<Rightarrow> bind_abort (delete_Channel True (chans (loop_poller s (conn_loop s a))) (channel c)) (\<lambda>_.
          Inr (s\<lparr>conns := (conns s)(a := None)\<rparr>)))"

text \<open>\<^verbatim>\<open>removeConnectionInLoop\<close>, and what a loop does with a functor.\<close>

definition removeConnectionInLoop :: "nat \<Rightarrow> ('p, 'c) TcpServer \<Rightarrow> abort + ('p, 'c) TcpServer" where
  "removeConnectionInLoop a s =
     (case conns s a of
        None \<Rightarrow> Inl Bad_access
      | Some c \<Rightarrow> Inr (srv_enqueue (conn_loop s a) (ConnectDestroyed a)
                        (s\<lparr>connections := (connections s)(conn_name s a := None)\<rparr>)))"

fun exec_functor ::
  "'p Poller \<Rightarrow> ('p \<Rightarrow> ChannelMap) \<Rightarrow> ('p, 'c) conn_callbacks \<Rightarrow> srv_functor \<Rightarrow> ('p, 'c) TcpServer \<Rightarrow> abort + ('p, 'c) TcpServer" where
  "exec_functor V chans cb (ConnectEstablished a) s = on_conn a (connectEstablished V cb) s"
| "exec_functor V chans cb (ConnectDestroyed a) s = bind_abort (on_conn a (connectDestroyed V cb) s) (release_conn chans a)"
| "exec_functor V chans cb (RemoveConnectionInLoop a) s = removeConnectionInLoop a s"

text \<open>\<^verbatim>\<open>runInLoop\<close> of loop \<open>l\<close> from the thread of loop \<open>t\<close>.\<close>

definition srv_runInLoop ::
  "'p Poller \<Rightarrow> ('p \<Rightarrow> ChannelMap) \<Rightarrow> ('p, 'c) conn_callbacks \<Rightarrow> nat \<Rightarrow> nat \<Rightarrow> srv_functor \<Rightarrow> ('p, 'c) TcpServer
     \<Rightarrow> abort + ('p, 'c) TcpServer" where
  "srv_runInLoop V chans cb t l f s = (if t = l then exec_functor V chans cb f s else Inr (srv_enqueue l f s))"

definition connName :: "('p, 'c) TcpServer \<Rightarrow> int \<Rightarrow> string" where
  "connName s i = srv_name s @ snprintf 64 (''-'' @ ipPort s @ ''#'' @ show_int i)"

text \<open>\<^verbatim>\<open>newConnection\<close> runs in the base loop's thread; \<open>a\<close> is the address of the new object.\<close>

definition newConnection ::
  "'p Poller \<Rightarrow> ('p \<Rightarrow> ChannelMap) \<Rightarrow> ('p, 'c) conn_callbacks \<Rightarrow> nat \<Rightarrow> int \<Rightarrow> ('p, 'c) TcpServer \<Rightarrow> abort + ('p, 'c) TcpServer" where
  "newConnection V chans cb a f s =
     bind_abort (getNextLoop (threadPool s)) (\<lambda>(ioLoop, pool).
       let name = connName s (nextConnId s);
           s1 = s\<lparr>threadPool := pool, nextConnId := nextConnId s + 1,
                  connections := (connections s)(name \<mapsto> a),
                  conns := (conns s)(a \<mapsto> new_TcpConnection a ioLoop f (loop_poller s ioLoop)),
                  conn_loop := (conn_loop s)(a := ioLoop), conn_name := (conn_name s)(a := name)\<rparr>
       in srv_runInLoop V chans cb (base_loop s1) ioLoop (ConnectEstablished a) s1)"

text \<open>\<^verbatim>\<open>removeConnection\<close>, the close callback of a connection, runs in the thread of the connection's loop.\<close>

definition removeConnection ::
  "'p Poller \<Rightarrow> ('p \<Rightarrow> ChannelMap) \<Rightarrow> ('p, 'c) conn_callbacks \<Rightarrow> nat \<Rightarrow> ('p, 'c) TcpServer \<Rightarrow> abort + ('p, 'c) TcpServer" where
  "removeConnection V chans cb a s =
     srv_runInLoop V chans cb (conn_loop s a) (base_loop s) (RemoveConnectionInLoop a) s"

text \<open>The body of the loop in \<^verbatim>\<open>~TcpServer\<close>, for one entry of the map.\<close>

definition destroy_entry ::
  "'p Poller \<Rightarrow> ('p \<Rightarrow> ChannelMap) \<Rightarrow> ('p, 'c) conn_callbacks \<Rightarrow> string \<Rightarrow> ('p, 'c) TcpServer \<Rightarrow> abort + ('p, 'c) TcpServer" where
  "destroy_entry V chans cb name s =
     (case connections s name of
        None \<Rightarrow> Inr s
      | Some a \<Rightarrow> srv_runInLoop V chans cb (base_loop s) (conn_loop s a) (ConnectDestroyed a)
                    (s\<lparr>connections := (connections s)(name := None)\<rparr>))"

section \<open>Everything that happens to a server\<close>

text \<open>A step gives an abort or a new state: a connection is accepted, with a descriptor and an address not in use; a
  loop runs its oldest functor; data is sent on a connection or its socket becomes writable; the peer of a
  connection that is being watched closes it.\<close>

definition fd_in_use :: "('p, 'c) TcpServer \<Rightarrow> int \<Rightarrow> bool" where
  "fd_in_use s f \<longleftrightarrow> (\<exists>a c. conns s a = Some c \<and> fd (channel c) = f)"

text \<open>What the loop of a connection does when its socket is readable: \<^verbatim>\<open>handleRead\<close>, which ends in the close callback,
  that is in \<^verbatim>\<open>removeConnection\<close>, when the peer has closed.\<close>

definition reads_eof :: "('p, 'c) TcpConnection \<Rightarrow> bool" where
  "reads_eof c \<longleftrightarrow> fst (readFd (inputBuffer c) (fst (sock_readv (readv_room (inputBuffer c)) c))) = 0"

definition srv_handleRead ::
  "'p Poller \<Rightarrow> ('p \<Rightarrow> ChannelMap) \<Rightarrow> ('p, 'c) conn_callbacks \<Rightarrow> Timestamp \<Rightarrow> nat \<Rightarrow> ('p, 'c) TcpServer \<Rightarrow> abort + ('p, 'c) TcpServer" where
  "srv_handleRead V chans cb t a s =
     (case conns s a of
        None \<Rightarrow> Inl Bad_access
      | Some c \<Rightarrow> bind_abort (on_conn a (handleRead V cb t) s) (if reads_eof c then removeConnection V chans cb a else Inr))"

text \<open>The rule \<open>peer\<close> lets the peer and the network decide anew what the following reads and writes of a connection will
  find.\<close>

inductive srv_step ::
  "'p Poller \<Rightarrow> ('p \<Rightarrow> ChannelMap) \<Rightarrow> ('p, 'c) conn_callbacks \<Rightarrow> int set \<Rightarrow> ('p, 'c) TcpServer \<Rightarrow> abort + ('p, 'c) TcpServer \<Rightarrow> bool"
  for V chans cb F where
  accept: "conns s a = None \<Longrightarrow> f \<in> F \<Longrightarrow> \<not> fd_in_use s f \<Longrightarrow> nextConnId s < 2 ^ 31 - 1 \<Longrightarrow>
    srv_step V chans cb F s (newConnection V chans cb a f s)"
| run: "loop_queue s l = x # xs \<Longrightarrow>
    srv_step V chans cb F s (exec_functor V chans cb x (s\<lparr>loop_queue := (loop_queue s)(l := xs)\<rparr>))"
| traffic: "conns s a = Some c \<Longrightarrow> \<not> isNoneEvent (channel c) \<Longrightarrow>
    srv_step V chans cb F s (on_conn a (conn_step V e) s)"
| peer: "conns s a = Some c \<Longrightarrow>
    srv_step V chans cb F s (Inr (s\<lparr>conns := (conns s)(a \<mapsto> c\<lparr>read_script := rs, write_script := ws, so_error := se\<rparr>)\<rparr>))"
| read: "conns s a = Some c \<Longrightarrow> \<not> isNoneEvent (channel c) \<Longrightarrow> srv_step V chans cb F s (srv_handleRead V chans cb t a s)"
| close: "conns s a = Some c \<Longrightarrow> \<not> isNoneEvent (channel c) \<Longrightarrow>
    srv_step V chans cb F s (bind_abort (on_conn a (handleClose V cb) s) (removeConnection V chans cb a))"

inductive srv_reachable ::
  "'p Poller \<Rightarrow> ('p \<Rightarrow> ChannelMap) \<Rightarrow> ('p, 'c) conn_callbacks \<Rightarrow> int set \<Rightarrow> ('p, 'c) TcpServer \<Rightarrow> ('p, 'c) TcpServer \<Rightarrow> bool"
  for V chans cb F s0 where
  init: "srv_reachable V chans cb F s0 s0"
| step: "srv_reachable V chans cb F s0 s \<Longrightarrow> srv_step V chans cb F s (Inr s') \<Longrightarrow> srv_reachable V chans cb F s0 s'"


section \<open>Invariants\<close>

text \<open>The phases of a connection object: not in memory, waiting to be established, up, closed by the peer and
  waiting to be removed from the map, waiting to be destroyed, and destroyed with the last reference about to
  go away.\<close>

datatype phase = P_Absent | P_New | P_Up | P_Closing | P_Dying | P_Done

text \<open>What holds of a connection in a phase, \<open>p\<close> being the poller of its loop and \<open>J\<close> what the application
  keeps of the context of a connection that is up.\<close>

definition conn_ok :: "('p \<Rightarrow> Channel \<Rightarrow> bool) \<Rightarrow> ('c option \<Rightarrow> bool) \<Rightarrow> 'p \<Rightarrow> phase \<Rightarrow> ('p, 'c) TcpConnection \<Rightarrow> bool" where
  "conn_ok ok J p q c \<longleftrightarrow> ok p (channel c) \<and>
     (case q of
        P_Absent \<Rightarrow> False
      | P_New \<Rightarrow> buffer_inv (inputBuffer c) \<and> buffer_inv (outputBuffer c) \<and> readable (outputBuffer c) = []
          \<and> events (channel c) = 0 \<and> \<not> eventHandling (channel c)
      | P_Up \<Rightarrow> conn_inv ok (c\<lparr>poller_state := p\<rparr>) \<and> conn_state c = kConnected \<and> index (channel c) \<noteq> kNew
          \<and> \<not> eventHandling (channel c) \<and> J (conn_context c)
      | P_Done \<Rightarrow> True
      | _ \<Rightarrow> closable ok (c\<lparr>poller_state := p\<rparr>) \<and> conn_state c \<noteq> kConnected \<and> isNoneEvent (channel c))"

text \<open>The connections and the pollers: the channels are consistently registered, on different descriptors, and
  a descriptor that no connection of a loop has is unknown to the loop's poller.\<close>

definition reg_inv :: "('p \<Rightarrow> Channel \<Rightarrow> bool) \<Rightarrow> ('c option \<Rightarrow> bool) \<Rightarrow> int set \<Rightarrow> (nat \<Rightarrow> phase) \<Rightarrow> ('p, 'c) TcpServer \<Rightarrow> bool" where
  "reg_inv ok J F ph s \<longleftrightarrow>
     (\<forall>a. conns s a = None \<longleftrightarrow> ph a = P_Absent)
     \<and> (\<forall>a c. conns s a = Some c \<longrightarrow> conn_ok ok J (loop_poller s (conn_loop s a)) (ph a) c)
     \<and> (\<forall>a b c d. conns s a = Some c \<longrightarrow> conns s b = Some d \<longrightarrow> a \<noteq> b \<longrightarrow> fd (channel c) \<noteq> fd (channel d))
     \<and> (\<forall>l f. f \<in> F \<longrightarrow> (\<forall>a c. conns s a = Some c \<longrightarrow> conn_loop s a = l \<longrightarrow> fd (channel c) \<noteq> f) \<longrightarrow>
          (\<forall>x y. ok (loop_poller s l) (new_Channel x y f)))"

text \<open>The queues: exactly one functor for a connection that waits for one, in the right loop.\<close>

definition expected_queue :: "('p, 'c) TcpServer \<Rightarrow> phase \<Rightarrow> nat \<Rightarrow> nat \<Rightarrow> srv_functor list" where
  "expected_queue s q a l =
     (case q of
        P_New \<Rightarrow> if l = conn_loop s a then [ConnectEstablished a] else []
      | P_Closing \<Rightarrow> if l = base_loop s then [RemoveConnectionInLoop a] else []
      | P_Dying \<Rightarrow> if l = conn_loop s a then [ConnectDestroyed a] else []
      | _ \<Rightarrow> [])"

definition srv_queue_inv :: "(nat \<Rightarrow> phase) \<Rightarrow> ('p, 'c) TcpServer \<Rightarrow> bool" where
  "srv_queue_inv ph s \<longleftrightarrow> (\<forall>a l. filter (\<lambda>f. srv_conn f = a) (loop_queue s l) = expected_queue s (ph a) a l)"

text \<open>The map: its entries are the connections that are not being destroyed, under their own, different names.\<close>

definition map_inv :: "(nat \<Rightarrow> phase) \<Rightarrow> ('p, 'c) TcpServer \<Rightarrow> bool" where
  "map_inv ph s \<longleftrightarrow>
     (\<forall>n a. connections s n = Some a \<longleftrightarrow> (ph a = P_New \<or> ph a = P_Up \<or> ph a = P_Closing) \<and> conn_name s a = n)
     \<and> (\<forall>a. ph a \<noteq> P_Absent \<longrightarrow> (\<exists>i. 1 \<le> i \<and> i < nextConnId s \<and> conn_name s a = connName s i))
     \<and> (\<forall>a b. ph a \<noteq> P_Absent \<longrightarrow> ph b \<noteq> P_Absent \<longrightarrow> a \<noteq> b \<longrightarrow> conn_name s a \<noteq> conn_name s b)"

definition pool_inv :: "('p, 'c) TcpServer \<Rightarrow> bool" where
  "pool_inv s \<longleftrightarrow> 1 \<le> nextConnId s \<and> nextConnId s < 2 ^ 31 \<and> length (ipPort s) \<le> 21
     \<and> (loops (threadPool s) \<noteq> [] \<longrightarrow> 0 \<le> pool_next (threadPool s) \<and> pool_next (threadPool s) < int (length (loops (threadPool s))))"

definition srv_inv :: "('p \<Rightarrow> Channel \<Rightarrow> bool) \<Rightarrow> ('c option \<Rightarrow> bool) \<Rightarrow> int set \<Rightarrow> (nat \<Rightarrow> phase) \<Rightarrow> ('p, 'c) TcpServer \<Rightarrow> bool" where
  "srv_inv ok J F ph s \<longleftrightarrow> reg_inv ok J F ph s \<and> srv_queue_inv ph s \<and> map_inv ph s \<and> pool_inv s
     \<and> (\<forall>a. ph a \<noteq> P_Done)"

lemma conn_inv_at: "conn_inv ok (c\<lparr>poller_state := p\<rparr>) \<longleftrightarrow> ok p (channel c) \<and> conn_inv (\<lambda>_ _. True) c"
  by (simp add: conn_inv_def)

lemma closable_at: "closable ok (c\<lparr>poller_state := p\<rparr>) \<longleftrightarrow> ok p (channel c) \<and> closable (\<lambda>_ _. True) c"
  by (simp add: closable_def)

lemma conn_ok_poller: "conn_ok ok J p q c \<Longrightarrow> ok p' (channel c) \<Longrightarrow> conn_ok ok J p' q c"
  unfolding conn_ok_def conn_inv_at closable_at by (cases q) simp_all

lemma conn_ok_script:
  "conn_ok ok J p q (c\<lparr>read_script := rs, write_script := ws, so_error := se\<rparr>) = conn_ok ok J p q c"
proof -
  let ?d = "c\<lparr>read_script := rs, write_script := ws, so_error := se\<rparr>"
  have "conn_inv ok (?d\<lparr>poller_state := p\<rparr>) = conn_inv ok (c\<lparr>poller_state := p\<rparr>)"
      "closable ok (?d\<lparr>poller_state := p\<rparr>) = closable ok (c\<lparr>poller_state := p\<rparr>)"
    by (simp_all add: conn_inv_def closable_def)
  then show ?thesis unfolding conn_ok_def by (cases q) simp_all
qed

lemma conn_ok_registered: "conn_ok ok J p q c \<Longrightarrow> ok p (channel c)"
  by (simp add: conn_ok_def)

lemma reg_invD:
  assumes "reg_inv ok J F ph s"
  shows "conns s a = None \<longleftrightarrow> ph a = P_Absent"
    and "conns s a = Some c \<Longrightarrow> conn_ok ok J (loop_poller s (conn_loop s a)) (ph a) c"
    and "conns s a = Some c \<Longrightarrow> conns s b = Some d \<Longrightarrow> a \<noteq> b \<Longrightarrow> fd (channel c) \<noteq> fd (channel d)"
    and "f \<in> F \<Longrightarrow> (\<And>a c. conns s a = Some c \<Longrightarrow> conn_loop s a = l \<Longrightarrow> fd (channel c) \<noteq> f) \<Longrightarrow>
          ok (loop_poller s l) (new_Channel x y f)"
  using assms unfolding reg_inv_def by blast+

lemma new_Channel_fd [simp]: "fd (new_Channel a l f) = f"
  by (simp add: new_Channel_def)

text \<open>An operation on one connection keeps the others.\<close>

lemma on_conn_reg:
  assumes inv: "reg_inv ok J F ph s" and a: "conns s a = Some c"
    and fr: "conn_frame ok (c\<lparr>poller_state := loop_poller s (conn_loop s a)\<rparr>) c'"
    and q: "conn_ok ok J (poller_state c') q c'"
  shows "reg_inv ok J F (ph(a := q)) (s\<lparr>conns := (conns s)(a \<mapsto> c'), loop_poller := (loop_poller s)(conn_loop s a := poller_state c')\<rparr>)"
    (is "reg_inv ok J F ?ph ?s")
proof -
  let ?l = "conn_loop s a"
  have fd: "fd (channel c') = fd (channel c)" using fr by (simp add: conn_frame_def)
  have keep: "ok (poller_state c') d" if "ok (loop_poller s ?l) d" "fd d \<noteq> fd (channel c)" for d
    using fr that by (simp add: conn_frame_def)
  have qa: "q \<noteq> P_Absent" using q by (auto simp: conn_ok_def)
  have new: "conns ?s b = (if b = a then Some c' else conns s b)"
    "loop_poller ?s l = (if l = ?l then poller_state c' else loop_poller s l)" "conn_loop ?s b = conn_loop s b" for b l
    by simp_all
  have 1: "conns ?s b = None \<longleftrightarrow> ?ph b = P_Absent" for b using reg_invD(1) [OF inv, of b] qa by simp
  have 2: "conn_ok ok J (loop_poller ?s (conn_loop ?s b)) (?ph b) d" if d: "conns ?s b = Some d" for b d
  proof (cases "b = a")
    case True
    then show ?thesis using d q by simp
  next
    case False
    then have "conns s b = Some d" using d by simp
    then have d': "conn_ok ok J (loop_poller s (conn_loop s b)) (ph b) d" "fd (channel d) \<noteq> fd (channel c)"
      using reg_invD(2,3) [OF inv] a False by blast+
    show ?thesis
    proof (cases "conn_loop s b = ?l")
      case True
      then have "ok (poller_state c') (channel d)" using keep d' conn_ok_registered by metis
      then show ?thesis using d'(1) True False conn_ok_poller by fastforce
    qed (use d'(1) False in simp)
  qed
  have 3: "fd (channel d) \<noteq> fd (channel e)" if "conns ?s b = Some d" "conns ?s b' = Some e" "b \<noteq> b'" for b b' d e
    using that reg_invD(3) [OF inv, of b _ b'] a fd unfolding new by (auto split: if_splits)
  have 4: "ok (loop_poller ?s l) (new_Channel x y f)"
    if f: "f \<in> F" "\<forall>b d. conns ?s b = Some d \<longrightarrow> conn_loop ?s b = l \<longrightarrow> fd (channel d) \<noteq> f" for l f x y
  proof -
    have "fd (channel d) \<noteq> f" if "conns s b = Some d" "conn_loop s b = l" for b d
      using f(2) [rule_format, of b] that a fd by (cases "b = a") auto
    then have ok: "ok (loop_poller s l) (new_Channel x y f)" by (rule reg_invD(4) [OF inv f(1)])
    show ?thesis
    proof (cases "l = ?l")
      case True
      then have "f \<noteq> fd (channel c)" using f(2) [rule_format, of a c'] fd by auto
      then show ?thesis using keep ok True by simp
    qed (use ok in simp)
  qed
  show ?thesis unfolding reg_inv_def using 1 2 3 4 by blast
qed


text \<open>Other parts of the state do not matter.\<close>

lemma reg_inv_frame [simp]:
  "reg_inv ok J F ph (s\<lparr>loop_queue := x1\<rparr>) = reg_inv ok J F ph s"
  "reg_inv ok J F ph (s\<lparr>connections := x2\<rparr>) = reg_inv ok J F ph s"
  by (simp_all add: reg_inv_def)

lemma reg_inv_phase:
  assumes "reg_inv ok J F ph s" "conns s a = Some c" "conn_ok ok J (loop_poller s (conn_loop s a)) q c"
  shows "reg_inv ok J F (ph(a := q)) s"
proof -
  have qa: "q \<noteq> P_Absent" using assms(3) by (auto simp: conn_ok_def)
  show ?thesis unfolding reg_inv_def
  proof (intro conjI allI impI)
    fix b c' assume "conns s b = Some c'"
    then show "conn_ok ok J (loop_poller s (conn_loop s b)) ((ph(a := q)) b) c'"
      using assms(2,3) reg_invD(2) [OF assms(1)] by (cases "b = a") auto
  next
    fix b show "conns s b = None \<longleftrightarrow> (ph(a := q)) b = P_Absent"
      using reg_invD(1) [OF assms(1), of b] assms(2) qa by auto
  next
    fix b b' d e assume "conns s b = Some d" "conns s b' = Some e" "b \<noteq> b'"
    then show "fd (channel d) \<noteq> fd (channel e)" using reg_invD(3) [OF assms(1)] by blast
  next
    fix l f x y assume "f \<in> F" "\<forall>a c. conns s a = Some c \<longrightarrow> conn_loop s a = l \<longrightarrow> fd (channel c) \<noteq> f"
    then show "ok (loop_poller s l) (new_Channel x y f)" using reg_invD(4) [OF assms(1)] by blast
  qed
qed

context poller
begin

lemma release_reg:
  assumes inv: "reg_inv ok J F ph s" and a: "conns s a = Some c" and new: "ok (loop_poller s (conn_loop s a)) (channel c)" "index (channel c) = kNew"
  shows "reg_inv ok J F (ph(a := P_Absent)) (s\<lparr>conns := (conns s)(a := None)\<rparr>)"
    (is "reg_inv ok J F ?ph ?s")
proof -
  have 1: "conns ?s b = None \<longleftrightarrow> ?ph b = P_Absent" for b using reg_invD(1) [OF inv, of b] by simp
  have 2: "conn_ok ok J (loop_poller ?s (conn_loop ?s b)) (?ph b) d" if "conns ?s b = Some d" for b d
    using that reg_invD(2) [OF inv, of b d] by (cases "b = a") simp_all
  have 3: "fd (channel d) \<noteq> fd (channel e)" if "conns ?s b = Some d" "conns ?s b' = Some e" "b \<noteq> b'" for b b' d e
    using that reg_invD(3) [OF inv, of b _ b'] by (simp split: if_splits)
  have 4: "ok (loop_poller ?s l) (new_Channel x y f)"
    if f: "f \<in> F" "\<forall>b d. conns ?s b = Some d \<longrightarrow> conn_loop ?s b = l \<longrightarrow> fd (channel d) \<noteq> f" for l f x y
  proof (cases "l = conn_loop s a \<and> f = fd (channel c)")
    case True
    then show ?thesis using ok_new [OF new] by simp
  next
    case False
    have "fd (channel d) \<noteq> f" if "conns s b = Some d" "conn_loop s b = l" for b d
      using f(2) [rule_format, of b d] that a False by (cases "b = a") auto
    then show ?thesis using reg_invD(4) [OF inv f(1), of l x y] by simp
  qed
  show ?thesis unfolding reg_inv_def using 1 2 3 4 by blast
qed

lemma new_reg:
  fixes s :: "('p, 'c) TcpServer"
  assumes inv: "reg_inv ok J F ph s" and a: "conns s a = None" and f: "f \<in> F" "\<not> fd_in_use s f"
  shows "reg_inv ok J F (ph(a := P_New))
    (s\<lparr>threadPool := x1, nextConnId := x2, connections := x3, conns := (conns s)(a \<mapsto> new_TcpConnection a l f p0),
       conn_loop := (conn_loop s)(a := l), conn_name := x4\<rparr>)"
    (is "reg_inv ok J F ?ph ?s")
proof -
  let ?c = "new_TcpConnection a l f p0 :: ('p, 'c) TcpConnection"
  have free: "fd (channel d) \<noteq> f" if "conns s b = Some d" for b d using f(2) that by (auto simp: fd_in_use_def)
  then have okn: "ok (loop_poller s l) (new_Channel a l f)" using reg_invD(4) [OF inv f(1)] by blast
  have ch: "channel ?c = new_Channel a l f" by (simp add: new_TcpConnection_def)
  have okc: "conn_ok ok J (loop_poller s l) P_New ?c"
    using okn by (simp add: conn_ok_def new_TcpConnection_def new_Channel_def)
  have new: "conns ?s b = (if b = a then Some ?c else conns s b)" "loop_poller ?s = loop_poller s"
    "conn_loop ?s b = (if b = a then l else conn_loop s b)" for b by simp_all
  have 1: "conns ?s b = None \<longleftrightarrow> ?ph b = P_Absent" for b using reg_invD(1) [OF inv, of b] by simp
  have 2: "conn_ok ok J (loop_poller ?s (conn_loop ?s b)) (?ph b) d" if "conns ?s b = Some d" for b d
    using that reg_invD(2) [OF inv, of b d] okc by (cases "b = a") auto
  have 3: "fd (channel d) \<noteq> fd (channel e)" if "conns ?s b = Some d" "conns ?s b' = Some e" "b \<noteq> b'" for b b' d e
  proof -
    note h = that
    show ?thesis
    proof (cases "b = a")
      case True
      then have "conns s b' = Some e" "d = ?c" using h by auto
      then show ?thesis using free [of b' e] ch by simp
    next
      case False
      then have b: "conns s b = Some d" using h(1) by simp
      show ?thesis
      proof (cases "b' = a")
        case True
        then have "e = ?c" using h(2) by auto
        then show ?thesis using free [OF b] ch by simp
      next
        case False
        then show ?thesis using reg_invD(3) [OF inv b _ h(3)] h(2) by simp
      qed
    qed
  qed
  have 4: "ok (loop_poller ?s k) (new_Channel x y g)"
    if g: "g \<in> F" "\<forall>b d. conns ?s b = Some d \<longrightarrow> conn_loop ?s b = k \<longrightarrow> fd (channel d) \<noteq> g" for k g x y
  proof -
    have "fd (channel d) \<noteq> g" if "conns s b = Some d" "conn_loop s b = k" for b d
    proof -
      have "b \<noteq> a" using that(1) a by auto
      then show ?thesis using g(2) [rule_format, of b d] that by simp
    qed
    then show ?thesis using reg_invD(4) [OF inv g(1), of k x y] by simp
  qed
  show ?thesis unfolding reg_inv_def using 1 2 3 4 by blast
qed

end


text \<open>\<^verbatim>\<open>handleRead\<close> in its three cases, with \<open>d\<close> the connection after the read.\<close>

lemma handleRead_split:
  fixes c :: "('p, 'c) TcpConnection"
  obtains n :: int and d :: "('p, 'c) TcpConnection" where "handleRead V cb t (c\<lparr>poller_state := p\<rparr>) = (if n > 0 then messageCallback cb t (d\<lparr>poller_state := p\<rparr>)
        else if n = 0 then handleClose V cb (d\<lparr>poller_state := p\<rparr>) else Inr (handleError (d\<lparr>poller_state := p\<rparr>)))"
    "reads_eof c \<longleftrightarrow> n = 0" "channel d = channel c" "outputBuffer d = outputBuffer c" "conn_state d = conn_state c"
    "buffer_inv (inputBuffer c) \<longrightarrow> buffer_inv (inputBuffer d)" "conn_context d = conn_context c"
    "buffer_inv (inputBuffer c) \<longrightarrow> length (buffer (inputBuffer d)) \<le> 2 * length (buffer (inputBuffer c)) + 65536"
proof -
  define r where "r = fst (sock_readv (readv_room (inputBuffer c)) c)"
  define s' where "s' = read_script (snd (sock_readv (readv_room (inputBuffer c)) c))"
  define n where "n = fst (readFd (inputBuffer c) r)"
  define d where "d = c\<lparr>read_script := s', inputBuffer := snd (snd (readFd (inputBuffer c) r))\<rparr>"
  have rd: "sock_readv (readv_room (inputBuffer c)) (c\<lparr>poller_state := p\<rparr>) = (r, c\<lparr>poller_state := p, read_script := s'\<rparr>)"
    by (cases c) (simp add: r_def s'_def sock_readv_def split: list.split read_result.split)
  have 1: "handleRead V cb t (c\<lparr>poller_state := p\<rparr>) = (if n > 0 then messageCallback cb t (d\<lparr>poller_state := p\<rparr>)
        else if n = 0 then handleClose V cb (d\<lparr>poller_state := p\<rparr>) else Inr (handleError (d\<lparr>poller_state := p\<rparr>)))"
    using rd by (cases c) (simp add: handleRead_def n_def d_def Let_def case_prod_beta)
  have 2: "buffer_inv (inputBuffer c) \<longrightarrow> buffer_inv (inputBuffer d)"
    using readFd_Ok_inv [of "inputBuffer c"] by (cases r) (simp_all add: d_def readFd_def)
  have 3: "buffer_inv (inputBuffer c) \<longrightarrow> length (buffer (inputBuffer d)) \<le> 2 * length (buffer (inputBuffer c)) + 65536"
  proof
    assume inv: "buffer_inv (inputBuffer c)"
    have "readv_room (inputBuffer c) \<le> length (buffer (inputBuffer c)) + 65536"
      by (auto simp: readv_room_def writableBytes_def extrabuf_size_def Let_def)
    moreover have "length x \<le> readv_room (inputBuffer c)" if "r = ReadOk x" for x
      using that by (auto simp: r_def sock_readv_def split: list.splits read_result.splits)
    ultimately have room: "length x \<le> length (buffer (inputBuffer c)) + 65536" if "r = ReadOk x" for x using that by fastforce
    show "length (buffer (inputBuffer d)) \<le> 2 * length (buffer (inputBuffer c)) + 65536"
    proof (cases r)
      case (ReadErr e)
      then show ?thesis by (simp add: d_def readFd_def)
    next
      case (ReadOk x)
      then have "inputBuffer d = after_read (inputBuffer c) x" by (simp add: d_def after_read_def)
      then show ?thesis using length_after_read [OF inv, of x] room [OF ReadOk] by simp
    qed
  qed
  show thesis by (rule that [OF 1 _ _ _ _ 2 _ 3]) (simp_all add: reads_eof_def n_def r_def d_def)
qed

text \<open>An operation that takes a connection from one phase to the next, run by the server.\<close>

definition stays_up ::
  "'p Poller \<Rightarrow> ('p \<Rightarrow> Channel \<Rightarrow> bool) \<Rightarrow> ('c option \<Rightarrow> bool) \<Rightarrow> ('c option \<Rightarrow> abort \<Rightarrow> bool) \<Rightarrow> ('p, 'c) TcpConnection
     \<Rightarrow> abort + ('p, 'c) TcpConnection \<Rightarrow> bool" where
  "stays_up V ok J E c r \<longleftrightarrow>
     (case r of
        Inl e \<Rightarrow> refused V ok e \<or> E (conn_context c) e
      | Inr c' \<Rightarrow> conn_inv ok c' \<and> conn_state c' = kConnected \<and> chan_keeps (channel c) (channel c') \<and> conn_frame ok c c'
          \<and> J (conn_context c'))"

text \<open>The contract of a message callback. On a connection that is up, whose context satisfies \<open>J\<close> and whose input buffer has
  an acceptable size, it fails only if the poller does or for a reason \<open>E\<close> that the context tells, and leaves the
  connection up with a context that satisfies \<open>J\<close>. An application with no invariant of its own and no failures
  is one that \<open>serves\<close>. A connection callback \<open>greets\<close> a connection with a context that satisfies \<open>J\<close>.\<close>

definition serves_app ::
  "'p Poller \<Rightarrow> ('p \<Rightarrow> Channel \<Rightarrow> bool) \<Rightarrow> (nat \<Rightarrow> bool) \<Rightarrow> ('c option \<Rightarrow> bool) \<Rightarrow> ('c option \<Rightarrow> abort \<Rightarrow> bool)
     \<Rightarrow> (('p, 'c) TcpConnection \<Rightarrow> abort + ('p, 'c) TcpConnection) \<Rightarrow> bool" where
  "serves_app V ok L J E f \<longleftrightarrow>
     (\<forall>c. conn_inv ok c \<longrightarrow> conn_state c = kConnected \<longrightarrow> J (conn_context c) \<longrightarrow> L (length (buffer (inputBuffer c)))
        \<longrightarrow> stays_up V ok J E c (f c))"

definition serves ::
  "'p Poller \<Rightarrow> ('p \<Rightarrow> Channel \<Rightarrow> bool) \<Rightarrow> (('p, 'c) TcpConnection \<Rightarrow> abort + ('p, 'c) TcpConnection) \<Rightarrow> bool" where
  "serves V ok f \<longleftrightarrow> serves_app V ok (\<lambda>_. True) (\<lambda>_. True) (\<lambda>_ _. False) f"

definition greets :: "('c option \<Rightarrow> bool) \<Rightarrow> (('p, 'c) TcpConnection \<Rightarrow> abort + ('p, 'c) TcpConnection) \<Rightarrow> bool" where
  "greets J f \<longleftrightarrow> (\<forall>c c'. f c = Inr c' \<longrightarrow> conn_state c' = kConnected \<longrightarrow> J (conn_context c'))"

lemma greets_True [simp]: "greets (\<lambda>_. True) f"
  by (simp add: greets_def)

text \<open>The input buffers that the message callbacks may find after the next read.\<close>

definition room_for :: "(nat \<Rightarrow> bool) \<Rightarrow> ('p, 'c) TcpServer \<Rightarrow> bool" where
  "room_for L s \<longleftrightarrow> (\<forall>a c n. conns s a = Some c \<longrightarrow> n \<le> 2 * length (buffer (inputBuffer c)) + 65536 \<longrightarrow> L n)"

lemma room_for_True [simp]: "room_for (\<lambda>_. True) s"
  by (simp add: room_for_def)

lemma stays_up_weaken:
  "stays_up V ok J E c r \<Longrightarrow> (\<And>x. J x \<Longrightarrow> J' x) \<Longrightarrow> (\<And>x e. E x e \<Longrightarrow> E' x e) \<Longrightarrow> stays_up V ok J' E' c r"
  by (auto simp: stays_up_def split: sum.splits)

definition srv_same :: "('p, 'c) TcpServer \<Rightarrow> ('p, 'c) TcpServer \<Rightarrow> bool" where
  "srv_same s s' \<longleftrightarrow> (\<exists>x y. s' = s\<lparr>conns := x, loop_poller := y\<rparr>)"

lemma on_conn_case:
  assumes inv: "reg_inv ok J F ph s" and a: "conns s a = Some c"
    and op: "case f (c\<lparr>poller_state := loop_poller s (conn_loop s a)\<rparr>) of Inl e \<Rightarrow> E e
      | Inr c' \<Rightarrow> conn_frame ok (c\<lparr>poller_state := loop_poller s (conn_loop s a)\<rparr>) c' \<and> conn_ok ok J (poller_state c') q c'"
  shows "case on_conn a f s of Inl e \<Rightarrow> E e | Inr s' \<Rightarrow> reg_inv ok J F (ph(a := q)) s' \<and> srv_same s s'"
proof (cases "f (c\<lparr>poller_state := loop_poller s (conn_loop s a)\<rparr>)")
  case (Inl e)
  then show ?thesis using a op by (simp add: on_conn_def)
next
  case (Inr c')
  then have "reg_inv ok J F (ph(a := q)) (s\<lparr>conns := (conns s)(a \<mapsto> c'), loop_poller := (loop_poller s)(conn_loop s a := poller_state c')\<rparr>)"
    using on_conn_reg [OF inv a] op by simp
  then show ?thesis using a Inr by (auto simp: on_conn_def srv_same_def)
qed

lemma poller_state_same: "c\<lparr>poller_state := poller_state c\<rparr> = c"
  by simp

context poller
begin

lemma established_case:
  assumes inv: "reg_inv ok J F ph s" and a: "ph a = P_New" and q: "quiet (connectionCallback cb)"
    and gr: "greets J (connectionCallback cb)"
  shows "case on_conn a (connectEstablished V cb) s of Inl e \<Rightarrow> refused V ok e
    | Inr s' \<Rightarrow> reg_inv ok J F (ph(a := P_Up)) s' \<and> srv_same s s'"
proof -
  obtain c where c: "conns s a = Some c" using reg_invD(1) [OF inv, of a] a by auto
  let ?c = "c\<lparr>poller_state := loop_poller s (conn_loop s a)\<rparr>"
  have k: "conn_ok ok J (loop_poller s (conn_loop s a)) P_New c" using reg_invD(2) [OF inv c] a by simp
  then have ok: "ok (poller_state ?c) (channel ?c)" by (simp add: conn_ok_def)
  have sp: "case connectEstablished V cb ?c of Inl a \<Rightarrow> refused V ok a
    | Inr c' \<Rightarrow> conn_inv ok c' \<and> conn_state c' = kConnected \<and> index (channel c') \<noteq> kNew
        \<and> eventHandling (channel c') = eventHandling (channel ?c) \<and> isReading (channel c')"
    using k q by (intro connectEstablished_spec [OF ok]) (simp_all add: conn_ok_def)
  have nh: "\<not> eventHandling (channel ?c)" using k by (simp add: conn_ok_def)
  show ?thesis
  proof (rule on_conn_case [OF inv c], cases "connectEstablished V cb ?c")
    case (Inr c')
    then have c': "conn_inv ok c'" "conn_state c' = kConnected" "index (channel c') \<noteq> kNew" "\<not> eventHandling (channel c')"
      using sp nh by auto
    have "\<exists>c3. connectionCallback cb c3 = Inr c'" using Inr by (auto simp: connectEstablished_def Let_def bind_abort_Inr)
    then have "J (conn_context c')" using gr c'(2) by (auto simp: greets_def)
    moreover have "ok (poller_state c') (channel c')" using c'(1) unfolding conn_inv_def by blast
    ultimately have "conn_ok ok J (poller_state c') P_Up c'"
      using c' unfolding conn_ok_def poller_state_same by (simp only: phase.case simp_thms)
    then show "case connectEstablished V cb ?c of Inl e \<Rightarrow> refused V ok e
        | Inr c' \<Rightarrow> conn_frame ok ?c c' \<and> conn_ok ok J (poller_state c') P_Up c'"
      using connectEstablished_frame [OF ok q Inr] Inr by simp
  qed (use sp in simp)
qed

text \<open>An operation that keeps a connection up: what it finds, and what it has to ensure.\<close>

lemma up_conn:
  assumes inv: "reg_inv ok J F ph s" and a: "ph a = P_Up" "conns s a = Some c"
  shows "ok (loop_poller s (conn_loop s a)) (channel c)" "conn_inv ok (c\<lparr>poller_state := loop_poller s (conn_loop s a)\<rparr>)"
    "conn_state c = kConnected" "index (channel c) \<noteq> kNew" "\<not> eventHandling (channel c)" "J (conn_context c)"
proof -
  have "conn_ok ok J (loop_poller s (conn_loop s a)) P_Up c" using reg_invD(2) [OF inv a(2)] a(1) by simp
  then show "ok (loop_poller s (conn_loop s a)) (channel c)" "conn_inv ok (c\<lparr>poller_state := loop_poller s (conn_loop s a)\<rparr>)"
    "conn_state c = kConnected" "index (channel c) \<noteq> kNew" "\<not> eventHandling (channel c)" "J (conn_context c)"
    by (simp_all add: conn_ok_def del: conn_inv_frame)
qed

lemma up_case:
  assumes inv: "reg_inv ok J F ph s" and a: "ph a = P_Up" and c: "conns s a = Some c"
    and op: "stays_up V ok J E (c\<lparr>poller_state := loop_poller s (conn_loop s a)\<rparr>) (g (c\<lparr>poller_state := loop_poller s (conn_loop s a)\<rparr>))"
  shows "case on_conn a g s of Inl e \<Rightarrow> refused V ok e \<or> E (conn_context c) e
    | Inr s' \<Rightarrow> reg_inv ok J F ph s' \<and> srv_same s s'"
proof -
  let ?c = "c\<lparr>poller_state := loop_poller s (conn_loop s a)\<rparr>"
  have ph: "ph(a := P_Up) = ph" using a by auto
  show ?thesis
  proof (rule on_conn_case [OF inv c, where q = P_Up, unfolded ph], cases "g ?c")
    case (Inr c')
    then have c': "conn_inv ok c'" "conn_state c' = kConnected" "index (channel c') \<noteq> kNew" "\<not> eventHandling (channel c')"
        "conn_frame ok ?c c'" "J (conn_context c')"
      using op up_conn(4,5) [OF inv a c] by (auto simp: stays_up_def chan_keeps_def)
    have "ok (poller_state c') (channel c')" using c'(1) unfolding conn_inv_def by blast
    then have "conn_ok ok J (poller_state c') P_Up c'"
      using c' unfolding conn_ok_def poller_state_same by (simp only: phase.case simp_thms)
    then show "case g ?c of Inl e \<Rightarrow> refused V ok e \<or> E (conn_context c) e
        | Inr c' \<Rightarrow> conn_frame ok ?c c' \<and> conn_ok ok J (poller_state c') P_Up c'"
      using c'(5) Inr by simp
  qed (use op in \<open>simp add: stays_up_def\<close>)
qed

lemma conn_step_stays_up:
  assumes "conn_inv ok c" "conn_state c = kConnected" "J (conn_context c)"
  shows "stays_up V ok J E c (conn_step V e c)"
proof (cases "conn_step V e c")
  case (Inl e')
  then show ?thesis using conn_run_spec [OF assms(1,2), of "[e]"] by (simp add: stays_up_def)
next
  case (Inr c')
  have "ok (poller_state c) (channel c)" using assms(1) by (simp add: conn_inv_def)
  then show ?thesis
    using conn_run_spec [OF assms(1,2), of "[e]"] conn_step_frame [OF _ Inr] conn_step_input [OF Inr] assms(3) Inr
    by (simp add: stays_up_def same_input_def)
qed

lemma close_case:
  assumes inv: "reg_inv ok J F ph s" and a: "ph a = P_Up" and q: "quiet (connectionCallback cb)" "quiet (conn_closeCallback cb)"
  shows "case on_conn a (handleClose V cb) s of Inl e \<Rightarrow> refused V ok e
    | Inr s' \<Rightarrow> reg_inv ok J F (ph(a := P_Closing)) s' \<and> srv_same s s'"
proof -
  obtain c where c: "conns s a = Some c" using reg_invD(1) [OF inv, of a] a by auto
  let ?c = "c\<lparr>poller_state := loop_poller s (conn_loop s a)\<rparr>"
  have k: "conn_ok ok J (loop_poller s (conn_loop s a)) P_Up c" using reg_invD(2) [OF inv c] a by simp
  then have up: "ok (poller_state ?c) (channel ?c)" "\<not> eventHandling (channel ?c)"
    by (simp_all add: conn_ok_def del: conn_inv_frame)
  note sp = handleClose_closable [OF up q]
  show ?thesis
  proof (rule on_conn_case [OF inv c], cases "handleClose V cb ?c")
    case (Inr c')
    then have "closable ok c'" "conn_state c' \<noteq> kConnected" "isNoneEvent (channel c')" using sp by auto
    moreover from this have "ok (poller_state c') (channel c')" by (simp add: closable_def)
    ultimately have "conn_ok ok J (poller_state c') P_Closing c'"
      unfolding conn_ok_def poller_state_same by (simp only: phase.case simp_thms)
    then show "case handleClose V cb ?c of Inl e \<Rightarrow> refused V ok e
        | Inr c' \<Rightarrow> conn_frame ok ?c c' \<and> conn_ok ok J (poller_state c') P_Closing c'"
      using handleClose_frame [OF up(1) q Inr] Inr by simp
  qed (use sp in simp)
qed

end


context poller
begin

lemma destroyed_case:
  assumes inv: "reg_inv ok J F ph s" and a: "ph a = P_Dying \<or> ph a = P_Up" and q: "quiet (connectionCallback cb)"
  shows "case bind_abort (on_conn a (connectDestroyed V cb) s) (release_conn chans a) of Inl e \<Rightarrow> refused V ok e
    | Inr s' \<Rightarrow> reg_inv ok J F (ph(a := P_Absent)) s' \<and> srv_same s s' \<and> conns s' = (conns s)(a := None)"
proof -
  obtain c where c: "conns s a = Some c" using reg_invD(1) [OF inv, of a] a by auto
  let ?c = "c\<lparr>poller_state := loop_poller s (conn_loop s a)\<rparr>"
  have "conn_ok ok J (loop_poller s (conn_loop s a)) (ph a) c" by (rule reg_invD(2) [OF inv c])
  then have cl: "closable ok ?c" using a unfolding conn_ok_def closable_at by (auto simp: closable_def)
  note sp = connectDestroyed_spec [OF cl q, of True]
  show ?thesis
  proof (cases "connectDestroyed V cb ?c")
    case (Inl e)
    then show ?thesis using sp c by (simp add: on_conn_def)
  next
    case (Inr c')
    let ?s = "s\<lparr>conns := (conns s)(a \<mapsto> c'), loop_poller := (loop_poller s)(conn_loop s a := poller_state c')\<rparr>"
    have c': "index (channel c') = kNew" "ok (poller_state c') (channel c')"
        "delete_Channel True (chans (poller_state c')) (channel c') = Inr ()"
      using sp Inr by simp_all
    have "reg_inv ok J F (ph(a := P_Done)) ?s"
      by (rule on_conn_reg [OF inv c connectDestroyed_frame [OF cl q Inr]]) (simp add: conn_ok_def c'(2))
    from release_reg [OF this, of a c'] have "reg_inv ok J F (ph(a := P_Absent)) (?s\<lparr>conns := (conns ?s)(a := None)\<rparr>)"
      using c' by simp
    moreover have "bind_abort (on_conn a (connectDestroyed V cb) s) (release_conn chans a) = Inr (?s\<lparr>conns := (conns ?s)(a := None)\<rparr>)"
      using c Inr c'(3) by (simp add: on_conn_def release_conn_def)
    moreover have "srv_same s (?s\<lparr>conns := (conns ?s)(a := None)\<rparr>)"
      unfolding srv_same_def
      by (rule exI [of _ "(conns s)(a := None)"], rule exI [of _ "(loop_poller s)(conn_loop s a := poller_state c')"], cases s) simp
    ultimately show ?thesis by simp
  qed
qed

end

section \<open>Names, map and queues\<close>

lemma srv_same_fields:
  assumes "srv_same s s'"
  shows "loop_queue s' = loop_queue s" "connections s' = connections s" "conn_loop s' = conn_loop s" "conn_name s' = conn_name s"
    "base_loop s' = base_loop s" "srv_queue_inv ph s' = srv_queue_inv ph s" "map_inv ph s' = map_inv ph s" "pool_inv s' = pool_inv s"
  using assms by (auto simp: srv_same_def base_loop_def srv_queue_inv_def expected_queue_def map_inv_def connName_def pool_inv_def)

definition idle :: "phase \<Rightarrow> bool" where
  "idle q \<longleftrightarrow> q = P_Absent \<or> q = P_Up \<or> q = P_Done"

lemma expected_idle: "idle q \<Longrightarrow> expected_queue s q a l = []"
  by (auto simp: idle_def expected_queue_def)

lemma queue_idle: "srv_queue_inv ph s \<Longrightarrow> idle (ph a) \<Longrightarrow> idle q \<Longrightarrow> srv_queue_inv (ph(a := q)) s"
  by (auto simp: srv_queue_inv_def expected_idle)

lemma queue_push:
  assumes "srv_queue_inv ph s" "idle (ph (srv_conn f))"
    "\<And>l'. expected_queue s q (srv_conn f) l' = (if l' = l then [f] else [])"
  shows "srv_queue_inv (ph(srv_conn f := q)) (srv_enqueue l f s)"
proof -
  have e: "expected_queue (srv_enqueue l f s) = expected_queue s"
    by (intro ext) (simp add: srv_enqueue_def expected_queue_def base_loop_def)
  show ?thesis using assms expected_idle [OF assms(2)] unfolding srv_queue_inv_def e by (auto simp: srv_enqueue_def)
qed

text \<open>The oldest functor of a loop tells the phase of its connection.\<close>

lemma queue_pop:
  assumes "srv_queue_inv ph s" "loop_queue s l = x # xs"
  shows "srv_queue_inv (ph(srv_conn x := P_Up)) (s\<lparr>loop_queue := (loop_queue s)(l := xs)\<rparr>)"
    and "x = ConnectEstablished a \<Longrightarrow> ph a = P_New \<and> l = conn_loop s a"
    and "x = RemoveConnectionInLoop a \<Longrightarrow> ph a = P_Closing \<and> l = base_loop s"
    and "x = ConnectDestroyed a \<Longrightarrow> ph a = P_Dying \<and> l = conn_loop s a"
proof -
  let ?b = "srv_conn x"
  have f: "filter (\<lambda>f. srv_conn f = b) (loop_queue s l') = expected_queue s (ph b) b l'" for b l'
    using assms(1) by (simp add: srv_queue_inv_def)
  have "x # filter (\<lambda>f. srv_conn f = ?b) xs = expected_queue s (ph ?b) ?b l" using f [of ?b l] assms(2) by simp
  then have x: "expected_queue s (ph ?b) ?b l = [x]" "filter (\<lambda>f. srv_conn f = ?b) xs = []"
    by (auto simp: expected_queue_def split: phase.splits if_splits)
  have other: "expected_queue s (ph ?b) ?b l' = []" if "l' \<noteq> l" for l'
    using x(1) that by (auto simp: expected_queue_def split: phase.splits if_splits)
  show "x = ConnectEstablished a \<Longrightarrow> ph a = P_New \<and> l = conn_loop s a"
    "x = RemoveConnectionInLoop a \<Longrightarrow> ph a = P_Closing \<and> l = base_loop s"
    "x = ConnectDestroyed a \<Longrightarrow> ph a = P_Dying \<and> l = conn_loop s a"
    using x(1) by (auto simp: expected_queue_def split: phase.splits if_splits)
  let ?s = "s\<lparr>loop_queue := (loop_queue s)(l := xs)\<rparr>"
  have e: "expected_queue ?s = expected_queue s" by (intro ext) (simp add: expected_queue_def base_loop_def)
  show "srv_queue_inv (ph(?b := P_Up)) ?s" unfolding srv_queue_inv_def e
  proof (intro allI)
    fix b l'
    show "filter (\<lambda>f. srv_conn f = b) (loop_queue ?s l') = expected_queue s ((ph(?b := P_Up)) b) b l'"
    proof (cases "b = ?b")
      case True
      then show ?thesis using x(2) other [of l'] f [of b l'] expected_idle [of P_Up s b l'] by (auto simp: idle_def)
    next
      case False
      then show ?thesis using f [of b l'] assms(2) by auto
    qed
  qed
qed

text \<open>Names are not cut off and are different for different numbers.\<close>

lemma connName_eq:
  assumes "length (ipPort s) \<le> 21" "1 \<le> i" "i < 2 ^ 31"
  shows "connName s i = srv_name s @ ''-'' @ ipPort s @ ''#'' @ show_nat (nat i)"
proof -
  have "nat i < 2 ^ 31" using assms(3) by (simp add: nat_less_iff)
  then have "nat i < 10 ^ 10" by simp
  then have "length (show_nat (nat i)) \<le> 10" by (intro length_show_nat) simp_all
  then show ?thesis using assms by (simp add: connName_def show_int_def)
qed

lemma connName_inj:
  assumes "length (ipPort s) \<le> 21" "1 \<le> i" "i < 2 ^ 31" "1 \<le> j" "j < 2 ^ 31" "connName s i = connName s j"
  shows "i = j"
proof -
  have "show_nat (nat i) = show_nat (nat j)" using assms by (simp add: connName_eq)
  then have "read_nat (show_nat (nat i)) = read_nat (show_nat (nat j))" by simp
  then show ?thesis using assms(2,4) by simp
qed

definition mapped :: "phase \<Rightarrow> bool" where
  "mapped q \<longleftrightarrow> q = P_New \<or> q = P_Up \<or> q = P_Closing"

lemma map_inv_alt: "map_inv ph s \<longleftrightarrow>
     (\<forall>n a. connections s n = Some a \<longleftrightarrow> mapped (ph a) \<and> conn_name s a = n)
     \<and> (\<forall>a. ph a \<noteq> P_Absent \<longrightarrow> (\<exists>i. 1 \<le> i \<and> i < nextConnId s \<and> conn_name s a = connName s i))
     \<and> (\<forall>a b. ph a \<noteq> P_Absent \<longrightarrow> ph b \<noteq> P_Absent \<longrightarrow> a \<noteq> b \<longrightarrow> conn_name s a \<noteq> conn_name s b)"
  by (simp add: map_inv_def mapped_def)

lemma map_phase: "map_inv ph s \<Longrightarrow> mapped (ph a) = mapped q \<Longrightarrow> ph a \<noteq> P_Absent \<Longrightarrow> map_inv (ph(a := q)) s"
  by (auto simp: map_inv_alt)

lemma map_remove:
  assumes "map_inv ph s" "ph a = P_Closing \<or> ph a = P_Up"
  shows "map_inv (ph(a := P_Dying)) (s\<lparr>connections := (connections s)(conn_name s a := None)\<rparr>)"
proof -
  have n: "connName (s\<lparr>connections := x\<rparr>) = connName s" for x by (intro ext) (simp add: connName_def)
  show ?thesis using assms unfolding map_inv_alt n by (auto simp: mapped_def)
qed

lemma map_queue [simp]: "map_inv ph (s\<lparr>loop_queue := x\<rparr>) = map_inv ph s" "map_inv ph (srv_enqueue l f s) = map_inv ph s"
  "pool_inv (s\<lparr>loop_queue := x\<rparr>) = pool_inv s" "pool_inv (srv_enqueue l f s) = pool_inv s"
  "pool_inv (s\<lparr>connections := y\<rparr>) = pool_inv s"
  by (simp_all add: map_inv_def connName_def srv_enqueue_def pool_inv_def)


lemma queue_connections [simp]: "srv_queue_inv ph (s\<lparr>connections := x\<rparr>) = srv_queue_inv ph s"
  by (simp add: srv_queue_inv_def expected_queue_def base_loop_def)

lemma reg_enqueue [simp]: "reg_inv ok J F ph (srv_enqueue l f s) = reg_inv ok J F ph s"
  by (simp add: srv_enqueue_def)

lemma remove_inv:
  assumes reg: "reg_inv ok J F (ph(a := P_Closing)) s" and queue: "srv_queue_inv (ph(a := P_Up)) s"
    and map: "map_inv (ph(a := P_Closing)) s" and pool: "pool_inv s" and nd: "\<forall>a. ph a \<noteq> P_Done"
  shows "\<exists>s'. removeConnectionInLoop a s = Inr s' \<and> srv_inv ok J F (ph(a := P_Dying)) s'"
proof -
  obtain c where c: "conns s a = Some c" using reg_invD(1) [OF reg, of a] by auto
  let ?s = "s\<lparr>connections := (connections s)(conn_name s a := None)\<rparr>"
  have "conn_ok ok J (loop_poller s (conn_loop s a)) P_Dying c" using reg_invD(2) [OF reg c] by (simp add: conn_ok_def)
  from reg_inv_phase [OF reg c this] have 1: "reg_inv ok J F (ph(a := P_Dying)) s" by simp
  have 2: "srv_queue_inv (ph(a := P_Dying)) (srv_enqueue (conn_loop s a) (ConnectDestroyed a) ?s)"
    using queue_push [of "ph(a := P_Up)" ?s "ConnectDestroyed a" P_Dying "conn_loop s a"] queue
    by (simp add: idle_def expected_queue_def)
  have 3: "map_inv (ph(a := P_Dying)) ?s" using map_remove [OF map, of a] by simp
  show ?thesis using c 1 2 3 pool nd by (simp add: removeConnectionInLoop_def srv_inv_def)
qed

context poller
begin

lemma run_inv:
  assumes inv: "srv_inv ok J F ph s" and q: "loop_queue s l = x # xs" and cb: "quiet (connectionCallback cb)"
    and gr: "greets J (connectionCallback cb)"
  shows "case exec_functor V chans cb x (s\<lparr>loop_queue := (loop_queue s)(l := xs)\<rparr>) of Inl e \<Rightarrow> refused V ok e
    | Inr s' \<Rightarrow> \<exists>ph'. srv_inv ok J F ph' s'"
proof -
  let ?s = "s\<lparr>loop_queue := (loop_queue s)(l := xs)\<rparr>"
  have reg: "reg_inv ok J F ph ?s" and map: "map_inv ph ?s" and pool: "pool_inv ?s" using inv by (simp_all add: srv_inv_def)
  have qi: "srv_queue_inv ph s" and nd: "\<forall>a. ph a \<noteq> P_Done" using inv by (simp_all add: srv_inv_def)
  note pop = queue_pop [OF qi q]
  show ?thesis
  proof (cases x)
    case (ConnectEstablished a)
    then have a: "ph a = P_New" using pop(2) by simp
    have "srv_inv ok J F (ph(a := P_Up)) s'"
      if "reg_inv ok J F (ph(a := P_Up)) s'" "srv_same ?s s'" for s'
      using that(1) pop(1) map_phase [OF map, of a P_Up] pool nd a ConnectEstablished
      by (simp add: srv_inv_def srv_same_fields [OF that(2)] mapped_def)
    then show ?thesis using established_case [OF reg a cb gr] unfolding ConnectEstablished
      by (cases "on_conn a (connectEstablished V cb) ?s") auto
  next
    case (ConnectDestroyed a)
    then have a: "ph a = P_Dying" using pop(4) by simp
    have "srv_inv ok J F (ph(a := P_Absent)) s'"
      if "reg_inv ok J F (ph(a := P_Absent)) s'" "srv_same ?s s'" for s'
      using that(1) queue_idle [OF pop(1), of a P_Absent] map_phase [OF map, of a P_Absent] pool nd a ConnectDestroyed
      by (simp add: srv_inv_def srv_same_fields [OF that(2)] mapped_def idle_def)
    then show ?thesis using destroyed_case [OF reg disjI1 [OF a] cb] unfolding ConnectDestroyed exec_functor.simps
      by (cases "bind_abort (on_conn a (connectDestroyed V cb) ?s) (release_conn chans a)") auto
  next
    case (RemoveConnectionInLoop a)
    then have a: "ph(a := P_Closing) = ph" using pop(3) by auto
    have "\<exists>s'. removeConnectionInLoop a ?s = Inr s' \<and> srv_inv ok J F (ph(a := P_Dying)) s'"
      by (rule remove_inv) (use reg map pool nd pop(1) a RemoveConnectionInLoop in simp_all)
    then show ?thesis unfolding RemoveConnectionInLoop exec_functor.simps by auto
  qed
qed

lemma watched_up:
  assumes inv: "srv_inv ok J F ph s" and c: "conns s a = Some c" "\<not> isNoneEvent (channel c)"
  shows "ph a = P_Up"
proof -
  have k: "conn_ok ok J (loop_poller s (conn_loop s a)) (ph a) c" "ph a \<noteq> P_Done" "ph a \<noteq> P_Absent"
    using inv c(1) reg_invD(1,2) [of ok J F ph s a] by (auto simp: srv_inv_def)
  then show ?thesis using c(2) by (cases "ph a") (simp_all add: conn_ok_def isNoneEvent_def kNoneEvent_def)
qed

lemma close_inv:
  assumes inv: "srv_inv ok J F ph s" and c: "conns s a = Some c" "\<not> isNoneEvent (channel c)"
    and cb: "quiet (connectionCallback cb)" "quiet (conn_closeCallback cb)"
  shows "case bind_abort (on_conn a (handleClose V cb) s) (removeConnection V chans cb a) of Inl e \<Rightarrow> refused V ok e
    | Inr s' \<Rightarrow> \<exists>ph'. srv_inv ok J F ph' s'"
proof -
  have parts: "reg_inv ok J F ph s" "srv_queue_inv ph s" "map_inv ph s" "pool_inv s" "\<forall>a. ph a \<noteq> P_Done"
    using inv by (simp_all add: srv_inv_def)
  have up: "ph a = P_Up" by (rule watched_up [OF inv c])
  show ?thesis
  proof (rule bind_abort_rule [OF close_case [OF parts(1) up cb]])
    fix s1 assume s1: "reg_inv ok J F (ph(a := P_Closing)) s1 \<and> srv_same s s1"
    have same: "srv_same s s1" using s1 by blast
    have q1: "srv_queue_inv (ph(a := P_Up)) s1" "map_inv (ph(a := P_Closing)) s1" "pool_inv s1"
      using parts(2,3,4) up map_phase [OF parts(3), of a P_Closing] unfolding srv_same_fields [OF same]
      by (simp_all add: mapped_def fun_upd_idem)
    show "case removeConnection V chans cb a s1 of Inl e \<Rightarrow> refused V ok e | Inr s' \<Rightarrow> \<exists>ph'. srv_inv ok J F ph' s'"
    proof (cases "conn_loop s1 a = base_loop s1")
      case True
      then show ?thesis using remove_inv [OF conjunct1 [OF s1] q1 parts(5)]
        by (auto simp: removeConnection_def srv_runInLoop_def)
    next
      case False
      then have eq: "removeConnection V chans cb a s1 = Inr (srv_enqueue (base_loop s1) (RemoveConnectionInLoop a) s1)"
        by (simp add: removeConnection_def srv_runInLoop_def)
      have "srv_queue_inv (ph(a := P_Closing)) (srv_enqueue (base_loop s1) (RemoveConnectionInLoop a) s1)"
        using queue_push [OF q1(1), of "RemoveConnectionInLoop a" P_Closing "base_loop s1"]
        by (simp add: idle_def expected_queue_def)
      then have "srv_inv ok J F (ph(a := P_Closing)) (srv_enqueue (base_loop s1) (RemoveConnectionInLoop a) s1)"
        using s1 q1 parts(5) by (simp add: srv_inv_def)
      then show ?thesis unfolding eq by auto
    qed
  qed
qed

lemma up_inv:
  assumes inv: "srv_inv ok J F ph s" and c: "conns s a = Some c" "\<not> isNoneEvent (channel c)"
    and op: "stays_up V ok J E (c\<lparr>poller_state := loop_poller s (conn_loop s a)\<rparr>) (g (c\<lparr>poller_state := loop_poller s (conn_loop s a)\<rparr>))"
  shows "case on_conn a g s of Inl e \<Rightarrow> refused V ok e \<or> E (conn_context c) e | Inr s' \<Rightarrow> \<exists>ph'. srv_inv ok J F ph' s'"
proof -
  have parts: "reg_inv ok J F ph s" "srv_queue_inv ph s" "map_inv ph s" "pool_inv s" "\<forall>a. ph a \<noteq> P_Done"
    using inv by (simp_all add: srv_inv_def)
  have "srv_inv ok J F ph s'" if "reg_inv ok J F ph s'" "srv_same s s'" for s'
    using that(1) parts(2-5) by (simp add: srv_inv_def srv_same_fields [OF that(2)])
  moreover have "case on_conn a g s of Inl e \<Rightarrow> refused V ok e \<or> E (conn_context c) e
    | Inr s' \<Rightarrow> reg_inv ok J F ph s' \<and> srv_same s s'"
    by (rule up_case [OF parts(1) watched_up [OF inv c] c(1)]) (rule op)
  ultimately show ?thesis by (cases "on_conn a g s") auto
qed

lemma traffic_inv:
  assumes inv: "srv_inv ok J F ph s" and c: "conns s a = Some c" "\<not> isNoneEvent (channel c)"
  shows "case on_conn a (conn_step V e) s of Inl e \<Rightarrow> refused V ok e | Inr s' \<Rightarrow> \<exists>ph'. srv_inv ok J F ph' s'"
proof -
  have reg: "reg_inv ok J F ph s" using inv by (simp add: srv_inv_def)
  note up = up_conn [OF reg watched_up [OF inv c] c(1)]
  have "case on_conn a (conn_step V e) s of Inl e \<Rightarrow> refused V ok e \<or> False | Inr s' \<Rightarrow> \<exists>ph'. srv_inv ok J F ph' s'"
    by (rule up_inv [OF inv c, where E = "\<lambda>_ _. False"], rule conn_step_stays_up [OF up(2)]) (simp_all add: up(3,6))
  then show ?thesis by (cases "on_conn a (conn_step V e) s") simp_all
qed

text \<open>A connection may be replaced by one that differs only in what it has read and in what the network will do.\<close>

lemma replace_inv:
  assumes inv: "srv_inv ok J F ph s" and c: "conns s a = Some c" and d: "channel d = channel c"
    and q: "conn_ok ok J (loop_poller s (conn_loop s a)) (ph a) d"
  shows "srv_inv ok J F ph (s\<lparr>conns := (conns s)(a \<mapsto> d)\<rparr>)"
proof -
  let ?s = "s\<lparr>conns := (conns s)(a \<mapsto> d)\<rparr>"
  have parts: "reg_inv ok J F ph s" "srv_queue_inv ph s" "map_inv ph s" "pool_inv s" "\<forall>a. ph a \<noteq> P_Done"
    using inv by (simp_all add: srv_inv_def)
  have 1: "conns ?s b = None \<longleftrightarrow> ph b = P_Absent" for b using reg_invD(1) [OF parts(1), of b] c by auto
  have 2: "conn_ok ok J (loop_poller ?s (conn_loop ?s b)) (ph b) x" if "conns ?s b = Some x" for b x
    using that q reg_invD(2) [OF parts(1), of b x] by (cases "b = a") auto
  have 3: "fd (channel x) \<noteq> fd (channel y)" if "conns ?s b = Some x" "conns ?s b' = Some y" "b \<noteq> b'" for b b' x y
    using that reg_invD(3) [OF parts(1), of b _ b'] c d by (auto split: if_splits)
  have 4: "ok (loop_poller ?s l) (new_Channel x y f)"
    if f: "f \<in> F" "\<forall>b e. conns ?s b = Some e \<longrightarrow> conn_loop ?s b = l \<longrightarrow> fd (channel e) \<noteq> f" for l f x y
  proof -
    have "fd (channel e) \<noteq> f" if "conns s b = Some e" "conn_loop s b = l" for b e
      using f(2) [rule_format, of b] that c d by (cases "b = a") auto
    then show ?thesis using reg_invD(4) [OF parts(1) f(1), of l x y] by simp
  qed
  have "srv_same s ?s" unfolding srv_same_def by (intro exI [of _ "conns ?s"] exI [of _ "loop_poller s"]) simp
  then show ?thesis using parts(2-5) 1 2 3 4 unfolding srv_inv_def by (auto simp: srv_same_fields reg_inv_def)
qed

lemma peer_inv:
  assumes inv: "srv_inv ok J F ph s" and c: "conns s a = Some c"
  shows "srv_inv ok J F ph (s\<lparr>conns := (conns s)(a \<mapsto> c\<lparr>read_script := rs, write_script := ws, so_error := se\<rparr>)\<rparr>)"
proof (rule replace_inv [OF inv c])
  have "conn_ok ok J (loop_poller s (conn_loop s a)) (ph a) c" using inv reg_invD(2) [of ok J F ph s a c] c by (simp add: srv_inv_def)
  then show "conn_ok ok J (loop_poller s (conn_loop s a)) (ph a) (c\<lparr>read_script := rs, write_script := ws, so_error := se\<rparr>)"
    by (simp add: conn_ok_script)
qed simp

lemma read_inv:
  assumes inv: "srv_inv ok J F ph s" and c: "conns s a = Some c" "\<not> isNoneEvent (channel c)"
    and cb: "quiet (connectionCallback cb)" "quiet (conn_closeCallback cb)" "\<And>t. serves_app V ok L J E (messageCallback cb t)"
    and room: "room_for L s"
  shows "case srv_handleRead V chans cb t a s of Inl e \<Rightarrow> refused V ok e \<or> E (conn_context c) e
    | Inr s' \<Rightarrow> \<exists>ph'. srv_inv ok J F ph' s'"
proof -
  have reg: "reg_inv ok J F ph s" using inv by (simp add: srv_inv_def)
  note up = up_conn [OF reg watched_up [OF inv c] c(1)]
  let ?p = "loop_poller s (conn_loop s a)"
  obtain n :: int and d where d: "handleRead V cb t (c\<lparr>poller_state := ?p\<rparr>) = (if n > 0 then messageCallback cb t (d\<lparr>poller_state := ?p\<rparr>)
        else if n = 0 then handleClose V cb (d\<lparr>poller_state := ?p\<rparr>) else Inr (handleError (d\<lparr>poller_state := ?p\<rparr>)))"
      "reads_eof c \<longleftrightarrow> n = 0" "channel d = channel c" "outputBuffer d = outputBuffer c" "conn_state d = conn_state c"
      "buffer_inv (inputBuffer c) \<longrightarrow> buffer_inv (inputBuffer d)" "conn_context d = conn_context c"
      "buffer_inv (inputBuffer c) \<longrightarrow> length (buffer (inputBuffer d)) \<le> 2 * length (buffer (inputBuffer c)) + 65536"
    by (rule handleRead_split [where V = V and cb = cb and t = t and c = c and p = ?p])
  have di: "conn_inv ok (d\<lparr>poller_state := ?p\<rparr>)" using up(2) d(3-6) by (auto simp: conn_inv_def)
  show ?thesis
  proof (cases "n = 0")
    case True
    let ?s = "s\<lparr>conns := (conns s)(a \<mapsto> d)\<rparr>"
    have "conn_ok ok J ?p (ph a) d" using di up watched_up [OF inv c] d(3,5,7) by (simp add: conn_ok_def del: conn_inv_frame)
    from replace_inv [OF inv c(1) d(3) this] have i: "srv_inv ok J F ph ?s" .
    have "on_conn a (handleRead V cb t) s = on_conn a (handleClose V cb) ?s"
      using c(1) d(1) True by (simp add: on_conn_def)
    then have "srv_handleRead V chans cb t a s = bind_abort (on_conn a (handleClose V cb) ?s) (removeConnection V chans cb a)"
      using c(1) d(2) True by (simp add: srv_handleRead_def)
    then show ?thesis using close_inv [OF i _ _ cb(1,2), of a d] c(2) d(3)
      by (cases "bind_abort (on_conn a (handleClose V cb) ?s) (removeConnection V chans cb a)") simp_all
  next
    case False
    have "buffer_inv (inputBuffer c)" using up(2) by (simp add: conn_inv_def)
    then have L: "L (length (buffer (inputBuffer d)))" using room c(1) d(8) unfolding room_for_def by blast
    have "stays_up V ok J E (d\<lparr>poller_state := ?p\<rparr>) (handleRead V cb t (c\<lparr>poller_state := ?p\<rparr>))"
    proof (cases "n > 0")
      case True
      then show ?thesis using d(1,5,7) cb(3) [of t] di up(3,6) L by (simp add: serves_app_def)
    next
      case False
      have "conn_inv ok (handleError (d\<lparr>poller_state := ?p\<rparr>))" using di by (simp add: conn_inv_def handleError_def)
      then show ?thesis using d(1,5,7) up(3,6) False \<open>n \<noteq> 0\<close>
        by (auto simp: stays_up_def handleError_def intro!: conn_frame_same)
    qed
    then have "stays_up V ok J E (c\<lparr>poller_state := ?p\<rparr>) (handleRead V cb t (c\<lparr>poller_state := ?p\<rparr>))"
      using d(3,7) by (cases "handleRead V cb t (c\<lparr>poller_state := ?p\<rparr>)") (simp_all add: stays_up_def conn_frame_def)
    then have "case on_conn a (handleRead V cb t) s of Inl e \<Rightarrow> refused V ok e \<or> E (conn_context c) e
      | Inr s' \<Rightarrow> \<exists>ph'. srv_inv ok J F ph' s'"
      by (rule up_inv [OF inv c])
    then show ?thesis using c(1) d(2) False by (simp add: srv_handleRead_def bind_abort_def split: sum.splits)
  qed
qed

end


section \<open>Accepting\<close>

lemma getNextLoop_pool:
  assumes "pool_inv s"
  obtains l pool where "getNextLoop (threadPool s) = Inr (l, pool)" "baseLoop pool = baseLoop (threadPool s)"
    "loops pool \<noteq> [] \<longrightarrow> 0 \<le> pool_next pool \<and> pool_next pool < int (length (loops pool))"
proof (cases "loops (threadPool s) = []")
  case True
  then show ?thesis using that [of "baseLoop (threadPool s)" "threadPool s"] by (simp add: getNextLoop_def)
next
  case False
  let ?p = "threadPool s"
  let ?p1 = "?p\<lparr>pool_next := pool_next ?p + 1\<rparr>"
  let ?pool = "if pool_next ?p1 \<ge> int (length (loops ?p1)) then ?p1\<lparr>pool_next := 0\<rparr> else ?p1"
  have b: "0 \<le> pool_next ?p" "nat (pool_next ?p) < length (loops ?p)" using assms False by (auto simp: pool_inv_def)
  then have "getNextLoop ?p = Inr (loops ?p ! nat (pool_next ?p), ?pool)" using False by (simp add: getNextLoop_def Let_def)
  then show ?thesis using that [of _ ?pool] b(1) False by auto
qed

text \<open>The map and the queues with a new connection in them.\<close>

lemma accept_map:
  assumes map: "map_inv ph s" and pool: "pool_inv s" and a: "ph a = P_Absent" and id: "nextConnId s < 2 ^ 31 - 1"
    and s1: "connections s1 = (connections s)(connName s (nextConnId s) \<mapsto> a)" "nextConnId s1 = nextConnId s + 1"
      "conn_name s1 = (conn_name s)(a := connName s (nextConnId s))" "srv_name s1 = srv_name s" "ipPort s1 = ipPort s"
  shows "map_inv (ph(a := P_New)) s1"
proof -
  let ?n = "connName s (nextConnId s)"
  have cn: "connName s1 = connName s" by (intro ext) (simp add: connName_def s1)
  have p: "length (ipPort s) \<le> 21" "1 \<le> nextConnId s" using pool by (simp_all add: pool_inv_def)
  note m = map [unfolded map_inv_alt]
  have fresh: "conn_name s b \<noteq> ?n" if live: "ph b \<noteq> P_Absent" for b
  proof
    assume eq: "conn_name s b = ?n"
    obtain i where i: "1 \<le> i" "i < nextConnId s" "conn_name s b = connName s i" using m live by blast
    then have "i = nextConnId s" using connName_inj [OF p(1), of i "nextConnId s"] p(2) id eq by simp
    then show False using i(2) by simp
  qed
  have m1: "connections s n = Some b \<longleftrightarrow> mapped (ph b) \<and> conn_name s b = n" for n b using m by blast
  have free: "connections s ?n = None"
  proof (cases "connections s ?n")
    case (Some b)
    then have "mapped (ph b)" "conn_name s b = ?n" using m1 by auto
    then show ?thesis using fresh [of b] by (auto simp: mapped_def)
  qed
  show ?thesis unfolding map_inv_alt cn
  proof (intro conjI allI impI)
    fix n b
    show "(connections s1 n = Some b) = (mapped ((ph(a := P_New)) b) \<and> conn_name s1 b = n)"
    proof (cases "b = a")
      case True
      have "connections s n \<noteq> Some a" using m1 [of n a] a by (simp add: mapped_def)
      then show ?thesis using True by (auto simp: s1 mapped_def)
    next
      case False
      then show ?thesis using m1 [of n b] free fresh [of b] by (auto simp: s1 mapped_def)
    qed
  next
    fix b assume b: "(ph(a := P_New)) b \<noteq> P_Absent"
    show "\<exists>i\<ge>1. i < nextConnId s1 \<and> conn_name s1 b = connName s i"
    proof (cases "b = a")
      case True
      then show ?thesis using p(2) by (intro exI [of _ "nextConnId s"]) (simp add: s1)
    next
      case False
      then obtain i where "1 \<le> i" "i < nextConnId s" "conn_name s b = connName s i" using m b by auto
      then show ?thesis using False by (intro exI [of _ i]) (simp add: s1)
    qed
  next
    fix b b' assume "(ph(a := P_New)) b \<noteq> P_Absent" "(ph(a := P_New)) b' \<noteq> P_Absent" "b \<noteq> b'"
    then show "conn_name s1 b \<noteq> conn_name s1 b'" using m fresh by (auto simp: s1 split: if_splits)
  qed
qed

lemma accept_queue:
  assumes "srv_queue_inv ph s" "idle (ph a)" "loop_queue s1 = loop_queue s" "conn_loop s1 = (conn_loop s)(a := l)"
    "base_loop s1 = base_loop s"
  shows "srv_queue_inv (ph(a := P_Up)) s1"
  unfolding srv_queue_inv_def
proof (intro allI)
  fix b l'
  have q: "filter (\<lambda>f. srv_conn f = b) (loop_queue s l') = expected_queue s (ph b) b l'"
    using assms(1) by (simp add: srv_queue_inv_def)
  show "filter (\<lambda>f. srv_conn f = b) (loop_queue s1 l') = expected_queue s1 ((ph(a := P_Up)) b) b l'"
  proof (cases "b = a")
    case True
    then show ?thesis using q expected_idle [OF assms(2), of s b l'] assms(3) by (simp add: expected_queue_def)
  next
    case False
    then show ?thesis using q assms(3,4,5) by (simp add: expected_queue_def split: phase.splits)
  qed
qed

context poller
begin

lemma accept_inv:
  assumes inv: "srv_inv ok J F ph s" and a: "conns s a = None" and f: "f \<in> F" "\<not> fd_in_use s f"
    and id: "nextConnId s < 2 ^ 31 - 1" and cb: "quiet (connectionCallback cb)" and gr: "greets J (connectionCallback cb)"
  shows "case newConnection V chans cb a f s of Inl e \<Rightarrow> refused V ok e | Inr s' \<Rightarrow> \<exists>ph'. srv_inv ok J F ph' s'"
proof -
  have parts: "reg_inv ok J F ph s" "srv_queue_inv ph s" "map_inv ph s" "pool_inv s" "\<forall>a. ph a \<noteq> P_Done"
    using inv by (simp_all add: srv_inv_def)
  have ab: "ph a = P_Absent" using reg_invD(1) [OF parts(1), of a] a by simp
  obtain l pool where p: "getNextLoop (threadPool s) = Inr (l, pool)" "baseLoop pool = baseLoop (threadPool s)"
    "loops pool \<noteq> [] \<longrightarrow> 0 \<le> pool_next pool \<and> pool_next pool < int (length (loops pool))"
    using getNextLoop_pool [OF parts(4)] .
  define n where "n = connName s (nextConnId s)"
  define s1 where "s1 = s\<lparr>threadPool := pool, nextConnId := nextConnId s + 1, connections := (connections s)(n \<mapsto> a),
      conns := (conns s)(a \<mapsto> new_TcpConnection a l f (loop_poller s l)),
      conn_loop := (conn_loop s)(a := l), conn_name := (conn_name s)(a := n)\<rparr>"
  have eq: "newConnection V chans cb a f s = srv_runInLoop V chans cb (base_loop s1) l (ConnectEstablished a) s1"
    using p(1) by (simp add: newConnection_def s1_def n_def Let_def)
  have reg: "reg_inv ok J F (ph(a := P_New)) s1" unfolding s1_def by (rule new_reg [OF parts(1) a f])
  have bl: "base_loop s1 = base_loop s" using p(2) by (simp add: s1_def base_loop_def)
  have queue: "srv_queue_inv (ph(a := P_Up)) s1"
    by (rule accept_queue [OF parts(2), of a _ l]) (simp_all add: ab idle_def bl, simp_all add: s1_def)
  have map: "map_inv (ph(a := P_New)) s1"
    by (rule accept_map [OF parts(3,4) ab id]) (simp_all add: s1_def n_def)
  have pl: "pool_inv s1" using parts(4) p(3) id by (simp add: s1_def pool_inv_def)
  show ?thesis
  proof (cases "base_loop s1 = l")
    case True
    have "(ph(a := P_New)) a = P_New" by simp
    note est = established_case [OF reg this cb gr]
    have "srv_inv ok J F (ph(a := P_Up)) s'" if "reg_inv ok J F (ph(a := P_Up)) s'" "srv_same s1 s'" for s'
      using that(1) queue pl parts(5) map_phase [OF map, of a P_Up]
      by (simp add: srv_inv_def srv_same_fields [OF that(2)] mapped_def)
    then show ?thesis using est True unfolding eq
      by (cases "on_conn a (connectEstablished V cb) s1") (auto simp: srv_runInLoop_def)
  next
    case False
    have cl: "conn_loop s1 a = l" by (simp add: s1_def)
    have "srv_queue_inv (ph(a := P_New)) (srv_enqueue l (ConnectEstablished a) s1)"
      using queue_push [OF queue, of "ConnectEstablished a" P_New l] cl by (simp add: idle_def expected_queue_def)
    then have "srv_inv ok J F (ph(a := P_New)) (srv_enqueue l (ConnectEstablished a) s1)"
      using reg map pl parts(5) by (simp add: srv_inv_def)
    then show ?thesis using False unfolding eq by (auto simp: srv_runInLoop_def)
  qed
qed

lemma srv_step_inv:
  assumes "srv_step V chans cb F s r" "srv_inv ok J F ph s" "quiet (connectionCallback cb)" "quiet (conn_closeCallback cb)"
    "greets J (connectionCallback cb)" "\<And>t. serves_app V ok L J E (messageCallback cb t)" "room_for L s"
  shows "case r of Inl e \<Rightarrow> refused V ok e \<or> (\<exists>a c. conns s a = Some c \<and> E (conn_context c) e)
    | Inr s' \<Rightarrow> \<exists>ph'. srv_inv ok J F ph' s'"
proof -
  have strict: ?thesis if "case r of Inl e \<Rightarrow> refused V ok e | Inr s' \<Rightarrow> \<exists>ph'. srv_inv ok J F ph' s'"
    using that by (cases r) auto
  show ?thesis using assms(1)
  proof cases
    case (accept a f)
    then show ?thesis using accept_inv [OF assms(2)] assms(3,5) by (intro strict) blast
  next
    case (run l x xs)
    then show ?thesis using run_inv [OF assms(2) _ assms(3,5)] by (intro strict) blast
  next
    case (traffic a c e)
    then show ?thesis using traffic_inv [OF assms(2)] by (intro strict) blast
  next
    case (peer a c rs ws se)
    then show ?thesis using peer_inv [OF assms(2), of a c rs ws se] by auto
  next
    case (read a c t)
    then show ?thesis using read_inv [OF assms(2) read(2,3) assms(3,4,6,7), of t]
      by (cases "srv_handleRead V chans cb t a s") auto
  next
    case (close a c)
    then show ?thesis using close_inv [OF assms(2) _ _ assms(3,4)] by (intro strict) blast
  qed
qed

text \<open>An application without an invariant of its own.\<close>

lemma serves_step_inv:
  assumes "srv_step V chans cb F s r" "srv_inv ok (\<lambda>_. True) F ph s" "quiet (connectionCallback cb)" "quiet (conn_closeCallback cb)"
    "\<And>t. serves V ok (messageCallback cb t)"
  shows "case r of Inl e \<Rightarrow> refused V ok e | Inr s' \<Rightarrow> \<exists>ph'. srv_inv ok (\<lambda>_. True) F ph' s'"
  using srv_step_inv [OF assms(1-4) greets_True assms(5) [unfolded serves_def] room_for_True] by (cases r) simp_all

lemma srv_reachable_inv:
  assumes "srv_reachable V chans cb F s0 s" "srv_inv ok (\<lambda>_. True) F ph s0" "quiet (connectionCallback cb)" "quiet (conn_closeCallback cb)"
    "\<And>t. serves V ok (messageCallback cb t)"
  shows "\<exists>ph'. srv_inv ok (\<lambda>_. True) F ph' s"
  using assms(1)
proof induction
  case init
  then show ?case using assms(2) by blast
next
  case (step s s')
  then obtain ph' where "srv_inv ok (\<lambda>_. True) F ph' s" by blast
  from serves_step_inv [OF step(2) this assms(3-5)] show ?case by simp
qed

end


section \<open>The end of a server\<close>

text \<open>The destructor goes through the entries of the map, in any order.\<close>

definition destroy_server ::
  "'p Poller \<Rightarrow> ('p \<Rightarrow> ChannelMap) \<Rightarrow> ('p, 'c) conn_callbacks \<Rightarrow> string list \<Rightarrow> ('p, 'c) TcpServer \<Rightarrow> abort + ('p, 'c) TcpServer" where
  "destroy_server V chans cb names s = fold (\<lambda>nm r. bind_abort r (destroy_entry V chans cb nm)) names (Inr s)"

lemma fold_abort: "fold (\<lambda>nm r. bind_abort r (f nm)) names (Inl e) = Inl e"
  by (induction names) simp_all

lemma destroy_server_Cons:
  "destroy_server V chans cb (nm # names) s = bind_abort (destroy_entry V chans cb nm s) (destroy_server V chans cb names)"
  by (cases "destroy_entry V chans cb nm s") (simp_all add: destroy_server_def fold_abort)

context poller
begin

lemma destroy_entry_inv:
  assumes inv: "srv_inv ok J F ph s" and a: "connections s nm = Some a" "conn_loop s a = base_loop s" "ph a = P_Up"
    and cb: "quiet (connectionCallback cb)"
  shows "case destroy_entry V chans cb nm s of Inl e \<Rightarrow> refused V ok e
    | Inr s' \<Rightarrow> srv_inv ok J F (ph(a := P_Absent)) s' \<and> connections s' = (connections s)(nm := None)
        \<and> conns s' = (conns s)(a := None) \<and> conn_loop s' = conn_loop s \<and> base_loop s' = base_loop s"
proof -
  have parts: "reg_inv ok J F ph s" "srv_queue_inv ph s" "map_inv ph s" "pool_inv s" "\<forall>a. ph a \<noteq> P_Done"
    using inv by (simp_all add: srv_inv_def)
  let ?s = "s\<lparr>connections := (connections s)(nm := None)\<rparr>"
  have nm: "conn_name s a = nm" using parts(3) a(1) by (simp add: map_inv_def)
  have eq: "destroy_entry V chans cb nm s = bind_abort (on_conn a (connectDestroyed V cb) ?s) (release_conn chans a)"
    using a(1,2) by (simp add: destroy_entry_def srv_runInLoop_def)
  have "map_inv (ph(a := P_Dying)) ?s" using map_remove [OF parts(3), of a] a(3) nm by simp
  then have map: "map_inv (ph(a := P_Absent)) ?s"
    using map_phase [of "ph(a := P_Dying)" ?s a P_Absent] by (simp add: mapped_def)
  have queue: "srv_queue_inv (ph(a := P_Absent)) ?s" using queue_idle [OF parts(2), of a P_Absent] a(3) by (simp add: idle_def)
  have reg: "reg_inv ok J F ph ?s" using parts(1) by simp
  have "srv_inv ok J F (ph(a := P_Absent)) s' \<and> connections s' = connections ?s \<and> conn_loop s' = conn_loop s \<and> base_loop s' = base_loop s"
    if "reg_inv ok J F (ph(a := P_Absent)) s'" "srv_same ?s s'" for s'
    using that(1) map queue parts(4,5) unfolding srv_inv_def srv_same_fields [OF that(2)] by (simp add: base_loop_def)
  then show ?thesis using destroyed_case [OF reg disjI2 [OF a(3)] cb] unfolding eq
    by (cases "bind_abort (on_conn a (connectDestroyed V cb) ?s) (release_conn chans a)") auto
qed

lemma destroy_server_inv:
  assumes "srv_inv ok J F ph s" "quiet (connectionCallback cb)" "distinct names" "set names = dom (connections s)"
    "\<forall>a. ph a = P_Absent \<or> ph a = P_Up" "\<forall>nm a. connections s nm = Some a \<longrightarrow> conn_loop s a = base_loop s"
  shows "case destroy_server V chans cb names s of Inl e \<Rightarrow> refused V ok e
    | Inr s' \<Rightarrow> (\<forall>a. conns s' a = None) \<and> (\<forall>nm. connections s' nm = None)"
  using assms(1,3-6)
proof (induction names arbitrary: ph s)
  case Nil
  have "\<forall>nm. connections s nm = None" using Nil.prems(3) by (auto simp: dom_def)
  moreover have "ph a \<noteq> P_Up" for a
    using Nil.prems(1) \<open>\<forall>nm. connections s nm = None\<close> by (auto simp: srv_inv_def map_inv_alt mapped_def)
  moreover have "conns s a = None \<longleftrightarrow> ph a = P_Absent" for a using Nil.prems(1) reg_invD(1) [of ok J F ph s a] by (simp add: srv_inv_def)
  ultimately show ?case using Nil.prems(4) by (auto simp: destroy_server_def)
next
  case (Cons nm names)
  obtain a where a: "connections s nm = Some a" using Cons.prems(3) by (auto simp: dom_def set_eq_iff)
  have "mapped (ph a)" using Cons.prems(1) a by (simp add: srv_inv_def map_inv_alt)
  then have up: "ph a = P_Up" using Cons.prems(4) [rule_format, of a] by (auto simp: mapped_def)
  have loop: "conn_loop s a = base_loop s" using Cons.prems(5) a by blast
  show ?case unfolding destroy_server_Cons
  proof (rule bind_abort_rule [OF destroy_entry_inv [OF Cons.prems(1) a loop up assms(2)]])
    fix s1 assume s1: "srv_inv ok J F (ph(a := P_Absent)) s1 \<and> connections s1 = (connections s)(nm := None)
        \<and> conns s1 = (conns s)(a := None) \<and> conn_loop s1 = conn_loop s \<and> base_loop s1 = base_loop s"
    show "case destroy_server V chans cb names s1 of Inl e \<Rightarrow> refused V ok e
      | Inr s' \<Rightarrow> (\<forall>a. conns s' a = None) \<and> (\<forall>nm. connections s' nm = None)"
    proof (rule Cons.IH [of "ph(a := P_Absent)" s1])
      show "srv_inv ok J F (ph(a := P_Absent)) s1" using s1 by blast
      show "set names = dom (connections s1)" using s1 Cons.prems(2,3) by auto
      show "\<forall>nm a. connections s1 nm = Some a \<longrightarrow> conn_loop s1 a = base_loop s1" using s1 Cons.prems(5) by auto
      show "\<forall>b. (ph(a := P_Absent)) b = P_Absent \<or> (ph(a := P_Absent)) b = P_Up" using Cons.prems(4) by simp
    qed (use Cons.prems(2) in simp)
  qed
qed

end

text \<open>Without queued functors every connection is up.\<close>

lemma no_functors_up:
  assumes "srv_inv ok J F ph s" "\<forall>l. loop_queue s l = []"
  shows "ph a = P_Absent \<or> ph a = P_Up"
proof -
  have "expected_queue s (ph a) a l = []" for l
    using assms by (simp add: srv_inv_def srv_queue_inv_def)
  from this [of "conn_loop s a"] this [of "base_loop s"] show ?thesis using assms(1)
    by (cases "ph a") (auto simp: expected_queue_def srv_inv_def)
qed


section \<open>Properties\<close>

text \<open>A server as the application starts it: constructed, with a number of threads, and started.\<close>

definition started_server ::
  "nat \<Rightarrow> InetAddress \<Rightarrow> string \<Rightarrow> int \<Rightarrow> (nat \<Rightarrow> nat) \<Rightarrow> (nat \<Rightarrow> 'p) \<Rightarrow> ('p, 'c) TcpServer" where
  "started_server base addr name n new_loop pollers =
     srv_start new_loop False (srv_setThreadNum n (new_TcpServer base addr name pollers))"

lemma started_server_inv:
  assumes "\<And>l f x y. f \<in> F \<Longrightarrow> ok (pollers l) (new_Channel x y f)"
  shows "srv_inv ok J F (\<lambda>_. P_Absent) (started_server base addr name n new_loop pollers)"
proof -
  let ?s = "started_server base addr name n new_loop pollers"
  have s: "conns ?s = (\<lambda>_. None)" "connections ?s = (\<lambda>_. None)" "loop_poller ?s = pollers" "loop_queue ?s = (\<lambda>_. [])"
    "nextConnId ?s = 1" "ipPort ?s = toIpPort addr" "pool_next (threadPool ?s) = 0"
    by (simp_all add: started_server_def srv_start_def srv_setThreadNum_def new_TcpServer_def pool_start_def setThreadNum_def
        new_EventLoopThreadPool_def fold_start_thread)
  have "reg_inv ok J F (\<lambda>_. P_Absent) ?s" using assms by (simp add: reg_inv_def s)
  moreover have "srv_queue_inv (\<lambda>_. P_Absent) ?s" by (simp add: srv_queue_inv_def s expected_queue_def)
  moreover have "map_inv (\<lambda>_. P_Absent) ?s" by (simp add: map_inv_def s)
  moreover have "pool_inv ?s" using toIpPort_length [of addr] by (simp add: pool_inv_def s)
  ultimately show ?thesis by (simp add: srv_inv_def)
qed

text \<open>Starting a server again changes nothing but the count of calls.\<close>

lemma srv_start_again: "0 \<le> srv_started s \<Longrightarrow>
  srv_start f cb (srv_start f' cb' s) = (srv_start f' cb' s)\<lparr>srv_started := srv_started s + 2\<rparr>"
  by (simp add: srv_start_def)


text \<open>C11: The server's map is exact. In every reachable state its entries are objects in memory under their own names,
  of the form name-ip:port\#id and never cut off; different connections have different names and different
  descriptors; a connection in memory that is not in the map is waiting in its loop to be destroyed, once;
  so when no functor is waiting, the connections in memory are those in the map and nothing is leaked.\<close>

theorem server_map_exact:
  assumes "poller V chans ok" "\<forall>l x y. \<forall>f \<in> F. ok (pollers l) (new_Channel x y f)"
    "quiet (connectionCallback cb)" "quiet (conn_closeCallback cb)" "\<And>t. serves V ok (messageCallback cb t)"
    "srv_reachable V chans cb F (started_server base addr name n new_loop pollers) s"
  shows "(\<forall>nm a. connections s nm = Some a \<longrightarrow> conns s a \<noteq> None \<and> conn_name s a = nm
         \<and> (\<exists>i. nm = srv_name s @ ''-'' @ ipPort s @ ''#'' @ show_nat i))
    \<and> (\<forall>a b c d. conns s a = Some c \<longrightarrow> conns s b = Some d \<longrightarrow> a \<noteq> b \<longrightarrow>
         conn_name s a \<noteq> conn_name s b \<and> fd (channel c) \<noteq> fd (channel d))
    \<and> (\<forall>a. conns s a \<noteq> None \<longrightarrow> connections s (conn_name s a) = Some a
         \<or> filter (\<lambda>f. srv_conn f = a) (loop_queue s (conn_loop s a)) = [ConnectDestroyed a])
    \<and> ((\<forall>l. loop_queue s l = []) \<longrightarrow> (\<forall>a. conns s a \<noteq> None \<longleftrightarrow> (\<exists>nm. connections s nm = Some a)))"
proof -
  have "srv_inv ok (\<lambda>_. True) F (\<lambda>_. P_Absent) (started_server base addr name n new_loop pollers)"
    using assms(2) by (intro started_server_inv) blast
  from poller.srv_reachable_inv [OF assms(1,6) this assms(3-5)] obtain ph where
    ph: "reg_inv ok (\<lambda>_. True) F ph s" "srv_queue_inv ph s" "map_inv ph s" "\<forall>a. ph a \<noteq> P_Done" "pool_inv s" by (auto simp: srv_inv_def)
  note live = reg_invD(1) [OF ph(1)]
  have m: "connections s nm = Some a \<longleftrightarrow> mapped (ph a) \<and> conn_name s a = nm" for nm a
    using ph(3) by (simp add: map_inv_alt)
  have names: "\<exists>i. 1 \<le> i \<and> i < nextConnId s \<and> conn_name s a = connName s i" "b \<noteq> a \<Longrightarrow> ph b \<noteq> P_Absent \<Longrightarrow> conn_name s b \<noteq> conn_name s a"
    if "ph a \<noteq> P_Absent" for a b using ph(3) that unfolding map_inv_alt by blast+
  have 1: "conns s a \<noteq> None \<and> conn_name s a = nm \<and> (\<exists>i. nm = srv_name s @ ''-'' @ ipPort s @ ''#'' @ show_nat i)"
    if h: "connections s nm = Some a" for nm a
  proof -
    have a: "ph a \<noteq> P_Absent" "conn_name s a = nm" using h m by (auto simp: mapped_def)
    obtain i where i: "1 \<le> i" "i < nextConnId s" "conn_name s a = connName s i" using names(1) [OF a(1)] by blast
    have "connName s i = srv_name s @ ''-'' @ ipPort s @ ''#'' @ show_nat (nat i)"
      by (rule connName_eq) (use ph(5) i in \<open>simp_all add: pool_inv_def\<close>)
    then have "nm = srv_name s @ ''-'' @ ipPort s @ ''#'' @ show_nat (nat i)" using a(2) i(3) by simp
    then show ?thesis using a live [of a] by blast
  qed
  have 2: "conn_name s a \<noteq> conn_name s b \<and> fd (channel c) \<noteq> fd (channel d)"
    if "conns s a = Some c" "conns s b = Some d" "a \<noteq> b" for a b c d
    using names(2) [of b a] live [of a] live [of b] reg_invD(3) [OF ph(1) that] that by simp
  have 3: "connections s (conn_name s a) = Some a
         \<or> filter (\<lambda>f. srv_conn f = a) (loop_queue s (conn_loop s a)) = [ConnectDestroyed a]" if "conns s a \<noteq> None" for a
  proof (cases "mapped (ph a)")
    case False
    then have "ph a = P_Dying" using live [of a] that ph(4) [rule_format, of a] by (cases "ph a") (auto simp: mapped_def)
    then show ?thesis using ph(2) by (simp add: srv_queue_inv_def expected_queue_def)
  qed (simp add: m)
  have 4: "conns s a \<noteq> None \<longleftrightarrow> (\<exists>nm. connections s nm = Some a)" if "\<forall>l. loop_queue s l = []" for a
    using 1 3 [of a] that by auto
  show ?thesis using 1 2 3 4 by blast
qed


text \<open>A server with one extra loop over epoll, and the state after its first connection.\<close>

definition demo_server :: "((int \<Rightarrow> epoll_event option) EPollPoller, unit) TcpServer" where
  "demo_server = started_server 1 (InetAddress_port 80 False) ''srv'' 1 (\<lambda>i. 20 + i) (\<lambda>_. new_EPollPoller (\<lambda>_. None))"

lemma demo_pollers:
  "\<forall>l x y. \<forall>f \<in> UNIV. epoll_ok (\<lambda>k. k) ((\<lambda>_ :: nat. new_EPollPoller (\<lambda>_. None)) l) (new_Channel x y f)"
  by (simp add: epoll_ok_def new_EPollPoller_def new_Channel_def kNew_def)

lemma demo_serves: "serves V ok (messageCallback demo_callbacks t)"
  by (simp add: serves_def serves_app_def stays_up_def demo_callbacks_def conn_frame_same)

lemma demo_accept:
  "srv_step (epoll_vtable list_ctl) channels demo_callbacks UNIV demo_server
     (newConnection (epoll_vtable list_ctl) channels demo_callbacks 100 7 demo_server)"
  by (rule srv_step.accept)
    (simp_all add: demo_server_def started_server_def srv_start_def srv_setThreadNum_def new_TcpServer_def fd_in_use_def)


lemma demo_server_pool:
  "threadPool demo_server = \<lparr>baseLoop = 1, pool_name = ''srv'', pool_started = True, numThreads = 1, pool_next = 0,
     thread_names = [snprintf 35 (''srv'' @ show_int 0)], loops = [20]\<rparr>"
  by (simp add: demo_server_def started_server_def srv_start_def srv_setThreadNum_def new_TcpServer_def pool_start_def
      setThreadNum_def new_EventLoopThreadPool_def start_thread_def)

theorem server_map_exact_witness:
  "\<exists>s nm. srv_reachable (epoll_vtable list_ctl) channels demo_callbacks UNIV demo_server s
     \<and> connections s nm = Some 100 \<and> conns s 100 \<noteq> None \<and> conn_name s 100 = nm"
proof -
  let ?V = "epoll_vtable list_ctl :: (int \<Rightarrow> epoll_event option) EPollPoller Poller"
  obtain s where s: "newConnection ?V channels demo_callbacks 100 7 demo_server = Inr s"
      "connections s (connName demo_server 1) = Some 100"
  proof -
    have one: "nextConnId demo_server = 1"
      by (simp add: demo_server_def started_server_def srv_start_def srv_setThreadNum_def new_TcpServer_def)
    show thesis
      by (rule that, simp add: newConnection_def getNextLoop_def demo_server_pool srv_runInLoop_def base_loop_def
          srv_enqueue_def Let_def one) simp
  qed
  have r: "srv_reachable ?V channels demo_callbacks UNIV demo_server s"
    by (rule srv_reachable.step [OF srv_reachable.init demo_accept [unfolded s(1)]])
  from server_map_exact [OF list_epoll.ep.poller_axioms demo_pollers demo_callbacks_quiet demo_serves r [unfolded demo_server_def]]
  have "conns s 100 \<noteq> None \<and> conn_name s 100 = connName demo_server 1" using s(2) by blast
  then show ?thesis using r s(2) by blast
qed


text \<open>C12: A server whose connections are all served by the base loop, as one without threads, is destroyed cleanly when
  no functor is waiting: the destructor goes through the map in any order, every connection is unregistered,
  closed and freed exactly once, no assertion fails, and neither the map nor the memory keeps one.\<close>

theorem server_destroyed:
  assumes "poller V chans ok" "\<forall>l x y. \<forall>f \<in> F. ok (pollers l) (new_Channel x y f)"
    "quiet (connectionCallback cb)" "quiet (conn_closeCallback cb)" "\<And>t. serves V ok (messageCallback cb t)"
    "srv_reachable V chans cb F (started_server base addr name n new_loop pollers) s"
    "\<forall>l. loop_queue s l = []" "\<forall>nm a. connections s nm = Some a \<longrightarrow> conn_loop s a = base_loop s"
    "distinct names" "set names = dom (connections s)"
  shows "case destroy_server V chans cb names s of Inl e \<Rightarrow> refused V ok e
    | Inr s' \<Rightarrow> (\<forall>a. conns s' a = None) \<and> (\<forall>nm. connections s' nm = None)"
proof -
  have "srv_inv ok (\<lambda>_. True) F (\<lambda>_. P_Absent) (started_server base addr name n new_loop pollers)"
    using assms(2) by (intro started_server_inv) blast
  from poller.srv_reachable_inv [OF assms(1,6) this assms(3-5)] obtain ph where ph: "srv_inv ok (\<lambda>_. True) F ph s" by blast
  have "\<forall>a. ph a = P_Absent \<or> ph a = P_Up" using no_functors_up [OF ph assms(7)] by blast
  from poller.destroy_server_inv [OF assms(1) ph assms(3,9,10) this assms(8)] show ?thesis .
qed

text \<open>A server without threads and with one client, destroyed.\<close>

definition single_server :: "((int \<Rightarrow> epoll_event option) EPollPoller, unit) TcpServer" where
  "single_server = started_server 1 (InetAddress_port 80 False) ''srv'' 0 (\<lambda>i. 20 + i) (\<lambda>_. new_EPollPoller (\<lambda>_. None))"

lemma single_accept:
  "srv_step (epoll_vtable list_ctl) channels demo_callbacks UNIV single_server
     (newConnection (epoll_vtable list_ctl) channels demo_callbacks 100 7 single_server)"
  by (rule srv_step.accept)
    (simp_all add: single_server_def started_server_def srv_start_def srv_setThreadNum_def new_TcpServer_def fd_in_use_def)

lemma single_server_conn:
  obtains s where "newConnection (epoll_vtable list_ctl) channels demo_callbacks 100 7 single_server = Inr s"
    "connections s = [connName single_server 1 \<mapsto> 100]" "conn_loop s 100 = base_loop s" "\<forall>l. loop_queue s l = []"
proof -
  let ?V = "epoll_vtable list_ctl :: (int \<Rightarrow> epoll_event option) EPollPoller Poller"
  have inv: "srv_inv (epoll_ok (\<lambda>k. k)) (\<lambda>_. True) UNIV (\<lambda>_. P_Absent) single_server"
    unfolding single_server_def by (intro started_server_inv) (use demo_pollers in blast)
  obtain s where s: "newConnection ?V channels demo_callbacks 100 7 single_server = Inr s"
    using list_epoll.ep.serves_step_inv [OF single_accept inv demo_callbacks_quiet demo_serves] list_reliable.not_refused
    by (cases "newConnection ?V channels demo_callbacks 100 7 single_server") auto
  have f: "threadPool single_server = (new_EventLoopThreadPool 1 ''srv'')\<lparr>pool_started := True\<rparr>" "nextConnId single_server = 1"
      "connections single_server = (\<lambda>_. None)" "loop_queue single_server = (\<lambda>_. [])"
    by (simp_all add: single_server_def started_server_def srv_start_def srv_setThreadNum_def new_TcpServer_def pool_start_def
        setThreadNum_def new_EventLoopThreadPool_def)
  show thesis
    by (rule that [OF s])
      (use s in \<open>auto simp: newConnection_def getNextLoop_def f new_EventLoopThreadPool_def srv_runInLoop_def base_loop_def
        Let_def on_conn_def bind_abort_Inr\<close>)
qed

theorem server_destroyed_witness:
  "\<exists>s s'. newConnection (epoll_vtable list_ctl) channels demo_callbacks 100 7 single_server = Inr s
     \<and> connections s (connName single_server 1) = Some 100
     \<and> destroy_server (epoll_vtable list_ctl) channels demo_callbacks [connName single_server 1] s = Inr s' \<and> conns s' 100 = None"
proof -
  obtain s where s: "newConnection (epoll_vtable list_ctl) channels demo_callbacks 100 7 single_server = Inr s"
    "connections s = [connName single_server 1 \<mapsto> 100]" "conn_loop s 100 = base_loop s" "\<forall>l. loop_queue s l = []"
    by (rule single_server_conn)
  have r: "srv_reachable (epoll_vtable list_ctl) channels demo_callbacks UNIV single_server s"
    by (rule srv_reachable.step [OF srv_reachable.init single_accept [unfolded s(1)]])
  have l: "\<forall>nm a. connections s nm = Some a \<longrightarrow> conn_loop s a = base_loop s" using s(2,3) by (auto split: if_splits)
  have d: "distinct [connName single_server 1]" "set [connName single_server 1] = dom (connections s)" using s(2) by auto
  from server_destroyed [OF list_epoll.ep.poller_axioms demo_pollers demo_callbacks_quiet demo_serves
      r [unfolded single_server_def] s(4) l d]
  show ?thesis using s(1,2) list_reliable.not_refused
    by (cases "destroy_server (epoll_vtable list_ctl) channels demo_callbacks [connName single_server 1] s") auto
qed

end
