(* ===== verification/Ymuduo_Programs.thy ===== *)
theory Ymuduo_Programs
  imports Ymuduo_EchoServer Ymuduo_HttpServer Ymuduo_TcpServer
begin

text \<open>
  The two server programs (\<^verbatim>\<open>src/echo/echo_server.cc\<close>, \<^verbatim>\<open>src/http/HttpServer.h\<close>, \<^verbatim>\<open>src/http/HttpServer.cc\<close>,
  \<^verbatim>\<open>src/http/http-server.cc\<close>): how they put a \<^verbatim>\<open>TcpServer\<close> together, and each server as a whole. The
  arguments are the base loop, the loops that the threads of the pool return, and the pollers of the loops.
\<close>

section \<open>Construction\<close>

definition new_EchoServer :: "nat \<Rightarrow> InetAddress \<Rightarrow> string \<Rightarrow> (nat \<Rightarrow> 'p) \<Rightarrow> ('p, 'c) TcpServer" where
  "new_EchoServer loop addr name pollers = srv_setThreadNum 0 (new_TcpServer loop addr name pollers)"

definition echo_setThreadNum :: "int \<Rightarrow> ('p, 'c) TcpServer \<Rightarrow> ('p, 'c) TcpServer" where
  "echo_setThreadNum n s = srv_setThreadNum n s"

definition echo_start :: "(nat \<Rightarrow> nat) \<Rightarrow> ('p, 'c) TcpServer \<Rightarrow> ('p, 'c) TcpServer" where
  "echo_start new_loop s = srv_start new_loop False s"

text \<open>\<^verbatim>\<open>main\<close> of the echo server up to the call of \<^verbatim>\<open>loop\<close>.\<close>

definition echo_main :: "nat \<Rightarrow> (nat \<Rightarrow> nat) \<Rightarrow> (nat \<Rightarrow> 'p) \<Rightarrow> abort + ('p, 'c) TcpServer" where
  "echo_main loop new_loop pollers =
     bind_abort (InetAddress_ip ''0.0.0.0'' 8000) (\<lambda>addr. Inr (echo_start new_loop (new_EchoServer loop addr ''EchoServer'' pollers)))"

text \<open>The HTTP server: the option is not passed on.\<close>

definition new_HttpServer :: "nat \<Rightarrow> InetAddress \<Rightarrow> string \<Rightarrow> bool \<Rightarrow> (nat \<Rightarrow> 'p) \<Rightarrow> ('p, 'c) TcpServer" where
  "new_HttpServer loop addr name option pollers = new_TcpServer loop addr name pollers"

definition http_setThreadNum :: "int \<Rightarrow> ('p, 'c) TcpServer \<Rightarrow> ('p, 'c) TcpServer" where
  "http_setThreadNum n s = srv_setThreadNum n s"

definition http_start :: "(nat \<Rightarrow> nat) \<Rightarrow> ('p, 'c) TcpServer \<Rightarrow> ('p, 'c) TcpServer" where
  "http_start new_loop s = srv_start new_loop False s"

text \<open>\<open>arg\<close> is the number given on the command line, if there is one.\<close>

definition http_main :: "int option \<Rightarrow> nat \<Rightarrow> (nat \<Rightarrow> nat) \<Rightarrow> (nat \<Rightarrow> 'p) \<Rightarrow> ('p, 'c) TcpServer" where
  "http_main arg loop new_loop pollers =
     (let numThreads = (case arg of None \<Rightarrow> 0 | Some n \<Rightarrow> n)
      in http_start new_loop (http_setThreadNum numThreads
           (new_HttpServer loop (InetAddress_port 8000 False) ''yichen-http-server'' False pollers)))"

lemma echo_main_started:
  obtains addr where "echo_main loop new_loop pollers = Inr (started_server loop addr ''EchoServer'' 0 new_loop pollers)"
proof -
  have "inet_pton (c_str ''0.0.0.0'') \<noteq> None" by code_simp
  then obtain a where a: "inet_pton (c_str ''0.0.0.0'') = Some a" by blast
  show thesis
    by (rule that) (simp add: echo_main_def InetAddress_ip_def a echo_start_def new_EchoServer_def started_server_def)
qed

lemma http_main_started:
  "http_main arg loop new_loop pollers = started_server loop (InetAddress_port 8000 False) ''yichen-http-server''
     (case arg of None \<Rightarrow> 0 | Some n \<Rightarrow> n) new_loop pollers"
  by (simp add: http_main_def http_start_def http_setThreadNum_def new_HttpServer_def started_server_def Let_def)

lemma http_main_fresh:
  "conns (http_main arg loop new_loop pollers) = (\<lambda>_. None)" "nextConnId (http_main arg loop new_loop pollers) = 1"
  by (simp_all add: http_main_started started_server_def srv_start_def srv_setThreadNum_def new_TcpServer_def)

section \<open>The echo server as a whole\<close>

lemma echo_quiet: "quiet (echo_onConnection :: ('p, 'c) TcpConnection \<Rightarrow> abort + ('p, 'c) TcpConnection)"
  by (simp add: quiet_def echo_onConnection_def connected_def conn_shutdown_def shutdownInLoop_def setState_def Let_def)

context poller
begin

lemma echo_serves: "serves V ok (echo_onMessage V t)"
  unfolding serves_def serves_app_def
proof (intro allI impI)
  fix c :: "('p, 'b) TcpConnection"
  assume c: "conn_inv ok c" "conn_state c = kConnected"
  let ?d = "c\<lparr>inputBuffer := retrieve (inputBuffer c) (readableBytes (inputBuffer c))\<rparr>"
  have inv: "buffer_inv (inputBuffer c)" using c(1) by (simp add: conn_inv_def)
  have eq: "echo_onMessage V t c = conn_step V (SendMsg (readable (inputBuffer c))) ?d"
    using inv by (simp add: echo_onMessage_def retrieveAllAsString_eq)
  have "conn_inv ok ?d" using c(1) by (simp add: conn_inv_def)
  then have "stays_up V ok (\<lambda>_. True) (\<lambda>_ _. False) ?d (echo_onMessage V t c)"
    unfolding eq by (rule conn_step_stays_up) (simp_all add: c(2))
  then show "stays_up V ok (\<lambda>_. True) (\<lambda>_ _. False) c (echo_onMessage V t c)"
    by (cases "echo_onMessage V t c") (simp_all add: stays_up_def conn_frame_def)
qed

end

section \<open>The HTTP server as a whole\<close>

text \<open>The state of a parser after a request line that was rejected behind a known method: the next line runs into the
  assertion of \<^verbatim>\<open>setMethod\<close>.\<close>

definition stale_parser :: "HttpContext option \<Rightarrow> bool" where
  "stale_parser x \<longleftrightarrow>
     (\<exists>ctx. x = Some ctx \<and> parse_state ctx = kExpectRequestLine \<and> http_method (request ctx) \<noteq> kInvalid)"

definition parser_attached :: "HttpContext option \<Rightarrow> bool" where
  "parser_attached x \<longleftrightarrow> (\<exists>ctx. x = Some ctx \<and> parsing ctx)"

text \<open>How \<^verbatim>\<open>onMessage\<close> can fail by itself.\<close>

definition http_failure :: "HttpContext option \<Rightarrow> abort \<Rightarrow> bool" where
  "http_failure x e \<longleftrightarrow> e = Assert_fail \<and> stale_parser x"

lemma http_quiet: "quiet (http_onConnection :: 'p http_conn \<Rightarrow> abort + 'p http_conn)"
  by (simp add: quiet_def http_onConnection_def setContext_def connected_def)

lemma http_greets: "greets parser_attached http_onConnection"
  by (auto simp: greets_def http_onConnection_def setContext_def connected_def parser_attached_def parsing_new split: if_splits)

context poller
begin

lemma http_send_up:
  assumes "conn_inv ok c" "conn_state c = kConnected"
  shows "stays_up V ok (\<lambda>x. x = conn_context c) (\<lambda>_ _. False) c (send V True 0 s c)"
  using conn_step_stays_up [OF assms, of "\<lambda>x. x = conn_context c" "\<lambda>_ _. False" "SendMsg s"] by simp

lemma onRequest_up:
  assumes "conn_inv ok c" "conn_state c = kConnected"
  shows "stays_up V ok (\<lambda>x. x = conn_context c) (\<lambda>_ _. False) c (onRequest V cb req c)"
proof -
  have "stays_up V ok (\<lambda>x. x = conn_context c) (\<lambda>_ _. False) c
      (bind_abort (send V True 0 s c) (\<lambda>c1. Inr (if b then conn_shutdown True c1 else c1)))" for s b
    using http_send_up [OF assms, of s]
    by (cases "send V True 0 s c") (auto simp: stays_up_def conn_shutdown_def)
  then show ?thesis unfolding onRequest_def Let_def .
qed

lemma stays_up_context:
  assumes "stays_up V ok (\<lambda>x. True) (\<lambda>_ _. False) c r" "J (Some ctx)"
  shows "stays_up V ok J E c (bind_abort r (\<lambda>c'. Inr (c'\<lparr>conn_context := Some ctx\<rparr>)))"
proof (cases r)
  case (Inl e)
  then show ?thesis using assms(1) by (simp add: stays_up_def)
next
  case (Inr c')
  have "conn_inv ok (c'\<lparr>conn_context := Some ctx\<rparr>) = conn_inv ok c'"
      "conn_frame ok c (c'\<lparr>conn_context := Some ctx\<rparr>) = conn_frame ok c c'"
    by (simp_all add: conn_inv_def conn_frame_def)
  then show ?thesis using assms Inr by (simp add: stays_up_def)
qed

lemma stays_up_from:
  assumes "channel c1 = channel c" "poller_state c1 = poller_state c" "stays_up V ok J (\<lambda>_ _. False) c1 r"
  shows "stays_up V ok J E c r"
  using assms by (cases r) (simp_all add: stays_up_def conn_frame_def)

text \<open>\<^verbatim>\<open>onMessage\<close> after the parser has returned.\<close>

lemma onMessage_parsed:
  assumes c: "conn_inv ok c" "conn_state c = kConnected" and ctx: "conn_context c = Some ctx" "parsing ctx"
    and r: "parseRequest t ctx (inputBuffer c) = Some (Inr (okp, ctx', b1))" "buffer_inv b1"
    and ps: "parse_spec t ctx s = Inr (okp, ctx', s')"
  shows "stays_up V ok parser_attached E c (onMessage V cb t c)"
proof -
  define c1 where "c1 = c\<lparr>conn_context := Some ctx', inputBuffer := b1\<rparr>"
  have c1: "conn_inv ok c1" "conn_state c1 = kConnected" "conn_context c1 = Some ctx'"
    using c r(2) by (simp_all add: c1_def conn_inv_def)
  have "channel c1 = channel c" "poller_state c1 = poller_state c" by (simp_all add: c1_def)
  note up = stays_up_from [OF this]
  have eq: "onMessage V cb t c = bind_abort
       (if \<not> okp then bind_abort (send V True 0 bad_request_text c1) (\<lambda>c2. Inr (conn_shutdown True c2)) else Inr c1)
       (\<lambda>c2. if gotAll ctx' then bind_abort (onRequest V cb (request ctx') c2) (\<lambda>c3.
              Inr (c3\<lparr>conn_context := Some (reset_HttpContext ctx')\<rparr>)) else Inr c2)"
    using ctx(1) r(1) by (simp add: onMessage_def c1_def Let_def)
  have st: "\<not> gotAll ctx' \<Longrightarrow> parsing ctx'" using parse_spec_parsing [OF ps ctx(2)] by (simp add: gotAll_def)
  show ?thesis
  proof (cases "okp \<and> gotAll ctx'")
    case True
    have "stays_up V ok (\<lambda>_. True) (\<lambda>_ _. False) c1 (onRequest V cb (request ctx') c1)"
      using onRequest_up [OF c1(1,2), of cb "request ctx'"] by (rule stays_up_weaken) simp_all
    moreover have "parser_attached (Some (reset_HttpContext ctx'))"
      by (simp add: parser_attached_def reset_is_new parsing_new)
    moreover have "onMessage V cb t c = bind_abort (onRequest V cb (request ctx') c1) (\<lambda>c3.
            Inr (c3\<lparr>conn_context := Some (reset_HttpContext ctx')\<rparr>))"
      unfolding eq using True by simp
    ultimately show ?thesis
      using stays_up_context [of c1 "onRequest V cb (request ctx') c1" parser_attached "reset_HttpContext ctx'"] up by metis
  next
    case False
    then have ng: "\<not> gotAll ctx'" using parse_spec_fails_only_on_line [of t ctx s ctx' s'] ps ctx(2) by (auto simp: gotAll_def)
    have "onMessage V cb t c = (if okp then Inr c1
        else bind_abort (send V True 0 bad_request_text c1) (\<lambda>c2. Inr (conn_shutdown True c2)))"
      unfolding eq using ng by (cases "send V True 0 bad_request_text c1") simp_all
    moreover have "stays_up V ok parser_attached (\<lambda>_ _. False) c1
        (bind_abort (send V True 0 bad_request_text c1) (\<lambda>c2. Inr (conn_shutdown True c2)))"
      using http_send_up [OF c1(1,2), of bad_request_text] st [OF ng] c1(3)
      by (cases "send V True 0 bad_request_text c1") (auto simp: stays_up_def conn_shutdown_def parser_attached_def)
    moreover have "stays_up V ok parser_attached (\<lambda>_ _. False) c1 (Inr c1)"
      using c1 st [OF ng] by (simp add: stays_up_def conn_frame_same parser_attached_def)
    ultimately show ?thesis using up by metis
  qed
qed

lemma http_serves: "serves_app V ok (\<lambda>n. n < 2 ^ 63) parser_attached http_failure (onMessage V cb t)"
  unfolding serves_app_def
proof (intro allI impI)
  fix c :: "'p http_conn"
  assume c: "conn_inv ok c" "conn_state c = kConnected" "parser_attached (conn_context c)"
    "length (buffer (inputBuffer c)) < 2 ^ 63"
  obtain ctx where ctx: "conn_context c = Some ctx" "parsing ctx" using c(3) by (auto simp: parser_attached_def)
  have pb: "parse_buffer (inputBuffer c)" using c(1,4) by (simp add: conn_inv_def parse_buffer_def)
  let ?s = "readable (inputBuffer c)"
  obtain r where r: "parseRequest t ctx (inputBuffer c) = Some r" "view_result r = parse_spec t ctx ?s"
      "\<forall>ok c' b'. r = Inr (ok, c', b') \<longrightarrow> parse_buffer b'"
    using parseRequest_refines [OF pb ctx(2), of t] by blast
  show "stays_up V ok parser_attached http_failure c (onMessage V cb t c)"
  proof (cases r)
    case (Inl e)
    then have e: "e = AssertFailed" by (cases e) simp
    have "parse_spec t ctx ?s = Inl AssertFailed" using r(2) Inl e by (simp add: view_result_def)
    then have "\<not> http_ctx_ok ctx" using parse_spec_ctx_ok [of ctx t ?s] by auto
    then have "stale_parser (conn_context c)" using ctx by (auto simp: stale_parser_def http_ctx_ok_def)
    moreover have "onMessage V cb t c = Inl Assert_fail" using ctx(1) r(1) Inl e by (simp add: onMessage_def)
    ultimately show ?thesis by (simp add: stays_up_def http_failure_def)
  next
    case (Inr x)
    obtain okp ctx' b1 where x: "r = Inr (okp, ctx', b1)" using Inr by (cases x) auto
    then show ?thesis using onMessage_parsed [OF c(1,2) ctx, of t okp ctx' b1 ?s "readable b1"] r
      by (simp add: view_result_def parse_buffer_def)
  qed
qed

end

text \<open>The HTTP parser counts in 64 bits, so its buffers have to stay below \<open>2 ^ 63\<close> bytes. They do while the input buffers
  do not exceed \<open>2 ^ 61\<close> bytes, which is more than the address space of a process holds.\<close>

definition buffers_fit :: "('p, 'c) TcpServer \<Rightarrow> bool" where
  "buffers_fit s \<longleftrightarrow> (\<forall>a c. conns s a = Some c \<longrightarrow> length (buffer (inputBuffer c)) \<le> 2 ^ 61)"

inductive fitting_run ::
  "'p Poller \<Rightarrow> ('p \<Rightarrow> ChannelMap) \<Rightarrow> ('p, 'c) conn_callbacks \<Rightarrow> int set \<Rightarrow> ('p, 'c) TcpServer \<Rightarrow> ('p, 'c) TcpServer \<Rightarrow> bool"
  for V chans cb F s0 where
  init: "fitting_run V chans cb F s0 s0"
| step: "fitting_run V chans cb F s0 s \<Longrightarrow> buffers_fit s \<Longrightarrow> srv_step V chans cb F s (Inr s') \<Longrightarrow> fitting_run V chans cb F s0 s'"

lemma buffers_fit_room: "buffers_fit s \<Longrightarrow> room_for (\<lambda>n. n < 2 ^ 63) s"
  unfolding buffers_fit_def room_for_def by fastforce

context poller
begin

lemma http_step_inv:
  assumes "srv_step V chans (http_callbacks V cb Inr) F s r" "srv_inv ok parser_attached F ph s" "buffers_fit s"
  shows "case r of Inl e \<Rightarrow> refused V ok e \<or> (\<exists>a c. conns s a = Some c \<and> http_failure (conn_context c) e)
    | Inr s' \<Rightarrow> \<exists>ph'. srv_inv ok parser_attached F ph' s'"
proof (rule srv_step_inv [OF assms(1,2)])
  show "room_for (\<lambda>n. n < 2 ^ 63) s" using assms(3) by (rule buffers_fit_room)
  show "serves_app V ok (\<lambda>n. n < 2 ^ 63) parser_attached http_failure (messageCallback (http_callbacks V cb Inr) t)" for t
    using http_serves by (simp add: http_callbacks_def)
qed (simp_all add: http_callbacks_def http_quiet http_greets, simp add: quiet_def)

lemma http_run_inv:
  assumes "fitting_run V chans (http_callbacks V cb Inr) F s0 s" "srv_inv ok parser_attached F ph s0"
  shows "\<exists>ph'. srv_inv ok parser_attached F ph' s"
  using assms(1)
proof induction
  case init
  then show ?case using assms(2) by blast
next
  case (step s s')
  then obtain ph' where "srv_inv ok parser_attached F ph' s" by blast
  from http_step_inv [OF step(3) this step(2)] show ?case by simp
qed

end

section \<open>Properties\<close>





end
