(* ===== verification/Ymuduo_Logger.thy ===== *)
theory Ymuduo_Logger
  imports Ymuduo_Timestamp Ymuduo_Channel
begin

text \<open>
  The logger (\<^verbatim>\<open>src/include/Logger.h\<close>, \<^verbatim>\<open>src/src/Logger.cc\<close>) and the fixed-size character buffers it
  declares. The model keeps the open descriptors and the text of the files; what \<^verbatim>\<open>open\<close> and \<^verbatim>\<open>write\<close>
  return, the readings of the clock and \<^verbatim>\<open>localtime_r\<close> are arguments. The lemmas show that a buffer
  holds what was appended to it, that the messages of a logger go whole and in order to the files that
  its rolling times determine, and how the level shared by all threads decides whether the process ends.
\<close>

section \<open>Files\<close>

text \<open>The descriptors opened for logging and the text of the files. Files are opened with \<^verbatim>\<open>O_CREAT | O_APPEND\<close>:
  opening keeps the text and writing adds to its end. \<open>n\<close> is the number of characters the system takes.\<close>

record Files =
  fd_file :: "int \<Rightarrow> string option"
  file_text :: "string \<Rightarrow> string"

definition sys_open :: "string \<Rightarrow> int \<Rightarrow> Files \<Rightarrow> Files" where
  "sys_open name f w = (if f \<ge> 0 then w\<lparr>fd_file := (fd_file w)(f \<mapsto> name)\<rparr> else w)"

definition sys_close :: "int \<Rightarrow> Files \<Rightarrow> Files" where
  "sys_close f w = w\<lparr>fd_file := (fd_file w)(f := None)\<rparr>"

definition sys_write :: "int \<Rightarrow> string \<Rightarrow> nat \<Rightarrow> Files \<Rightarrow> Files" where
  "sys_write f buf n w =
     (case fd_file w f of
        None \<Rightarrow> w
      | Some name \<Rightarrow> w\<lparr>file_text := (file_text w)(name := file_text w name @ take n buf)\<rparr>)"

section \<open>Fixed-size buffers\<close>

definition kSmallBuffer :: nat where "kSmallBuffer = 4000"
definition kLargeBuffer :: nat where "kLargeBuffer = 4000 * 1000"

text \<open>The array \<^verbatim>\<open>data_\<close>, whose length is the template parameter, and the offset of \<^verbatim>\<open>cur_\<close> in it. The array is not
  initialised: its contents \<open>mem\<close> are an argument of the constructor. Conversions of an \<^verbatim>\<open>int\<close> to \<^verbatim>\<open>size_t\<close>
  wrap.\<close>

record FixedBuffer =
  fb_data :: string
  fb_cur :: nat

definition to_size_t :: "int \<Rightarrow> nat" where
  "to_size_t x = nat (x mod 2 ^ 64)"

definition new_FixedBuffer :: "string \<Rightarrow> FixedBuffer" where
  "new_FixedBuffer mem = \<lparr>fb_data = mem, fb_cur = 0\<rparr>"

definition fb_avail :: "FixedBuffer \<Rightarrow> int" where
  "fb_avail b = int (length (fb_data b)) - int (fb_cur b)"

definition fb_append :: "string \<Rightarrow> FixedBuffer \<Rightarrow> abort + FixedBuffer" where
  "fb_append buf b =
     (if to_size_t (fb_avail b) > length buf
      then if fb_cur b + length buf \<le> length (fb_data b)
           then Inr (b\<lparr>fb_data := std_copy buf (fb_cur b) (fb_data b), fb_cur := fb_cur b + length buf\<rparr>)
           else Inl Bad_access
      else Inr b)"

definition fb_length :: "FixedBuffer \<Rightarrow> int" where
  "fb_length b = int (fb_cur b)"

definition fb_add :: "nat \<Rightarrow> FixedBuffer \<Rightarrow> FixedBuffer" where
  "fb_add len b = b\<lparr>fb_cur := fb_cur b + len\<rparr>"

definition fb_reset :: "FixedBuffer \<Rightarrow> FixedBuffer" where
  "fb_reset b = b\<lparr>fb_cur := 0\<rparr>"

definition fb_bzero :: "FixedBuffer \<Rightarrow> FixedBuffer" where
  "fb_bzero b = b\<lparr>fb_data := replicate (length (fb_data b)) CHR 0x00\<rparr>"

text \<open>The first \<^verbatim>\<open>length()\<close> characters, outside the array after too large an \<^verbatim>\<open>add\<close>.\<close>

definition fb_toString :: "FixedBuffer \<Rightarrow> abort + string" where
  "fb_toString b = (if fb_cur b \<le> length (fb_data b) then Inr (take (fb_cur b) (fb_data b)) else Inl Bad_access)"

section \<open>The logger\<close>

definition INFO :: int where "INFO = 0"
definition ERROR :: int where "ERROR = 1"
definition FATAL :: int where "FATAL = 2"
definition DEBUG :: int where "DEBUG = 3"

text \<open>The output function is the member \<^verbatim>\<open>defaultOutput\<close>, a function of the user on the user's state, or an empty
  \<^verbatim>\<open>std::function\<close>, whose call throws.\<close>

datatype 'u output_func = Default_output | User_output "string \<Rightarrow> 'u \<Rightarrow> 'u" | Empty_function

record 'u Logger =
  allowRecord :: bool
  g_output :: "'u output_func"
  log_file_fd :: int
  logLevel :: int
  log_file_name :: string
  roll_every_hours :: int
  nextRollOverTime :: Timestamp
  currentFileName :: string
  log_files :: Files
  user_state :: 'u

text \<open>The end of a call: it returns, \<^verbatim>\<open>exit\<close> is called with a status, or an exception is thrown.\<close>

datatype 'u log_outcome = Returned "'u Logger" | Exited int "'u Logger" | Bad_function_call "'u Logger"

text \<open>What the system answers during one call of \<^verbatim>\<open>log\<close>: the clock for the time in the text, for the test of the
  rolling time, for the name of the new file and for the next rolling time, the descriptor of \<^verbatim>\<open>open\<close>, and
  the number of characters taken by \<^verbatim>\<open>write\<close>.\<close>

record log_env =
  now_text :: Timestamp
  now_test :: Timestamp
  now_name :: Timestamp
  now_next :: Timestamp
  open_result :: int
  write_count :: nat

text \<open>The constructor does not set \<^verbatim>\<open>logLevel_\<close>: \<open>junk\<close> is its first value, \<open>f\<close> the result of \<^verbatim>\<open>open\<close>.\<close>

definition new_Logger :: "int \<Rightarrow> int \<Rightarrow> Files \<Rightarrow> 'u \<Rightarrow> 'u Logger" where
  "new_Logger junk f w u =
     \<lparr>allowRecord = True, g_output = Default_output, log_file_fd = f, logLevel = junk, log_file_name = ''yichen-server'',
      roll_every_hours = 1, nextRollOverTime = new_Timestamp, currentFileName = [],
      log_files = sys_open ''yichen-server'' f w, user_state = u\<rparr>"

definition delete_Logger :: "'u Logger \<Rightarrow> Files" where
  "delete_Logger s = (if log_file_fd s \<noteq> - 1 then sys_close (log_file_fd s) (log_files s) else log_files s)"

definition closeLoggerRecord :: "'u Logger \<Rightarrow> 'u Logger" where
  "closeLoggerRecord s = s\<lparr>allowRecord := False\<rparr>"

definition startLogerRecord :: "'u Logger \<Rightarrow> 'u Logger" where
  "startLogerRecord s = s\<lparr>allowRecord := True\<rparr>"

definition close_log :: "'u Logger \<Rightarrow> 'u Logger" where
  "close_log s = (if log_file_fd s \<noteq> - 1 then s\<lparr>log_files := sys_close (log_file_fd s) (log_files s)\<rparr> else s)"

definition setLoggerFileName :: "int \<Rightarrow> string \<Rightarrow> 'u Logger \<Rightarrow> 'u Logger" where
  "setLoggerFileName f filename s =
     (let s1 = (close_log s)\<lparr>log_file_name := filename\<rparr>
      in s1\<lparr>log_file_fd := f, log_files := sys_open (filename @ ''.log'') f (log_files s1)\<rparr>)"

definition setRollTime :: "int \<Rightarrow> 'u Logger \<Rightarrow> 'u Logger" where
  "setRollTime hours s = s\<lparr>roll_every_hours := hours\<rparr>"

definition setOutPut :: "'u output_func \<Rightarrow> 'u Logger \<Rightarrow> 'u Logger" where
  "setOutPut outfunc s = s\<lparr>g_output := outfunc\<rparr>"

definition setLogLevel :: "int \<Rightarrow> 'u Logger \<Rightarrow> 'u Logger" where
  "setLogLevel level s = s\<lparr>logLevel := level\<rparr>"

definition rollOver :: "(int \<Rightarrow> tm) \<Rightarrow> log_env \<Rightarrow> 'u Logger \<Rightarrow> 'u Logger" where
  "rollOver lt e s =
     (let s1 = close_log s;
          s2 = s1\<lparr>currentFileName := log_file_name s1 @ toFormattedStringWithoutSeconds lt (now_name e) @ ''.log''\<rparr>;
          s3 = s2\<lparr>log_file_fd := open_result e, log_files := sys_open (currentFileName s2) (open_result e) (log_files s2)\<rparr>
      in s3\<lparr>nextRollOverTime := addTime (now_next e) (of_int (3600 * roll_every_hours s3))\<rparr>)"

definition defaultOutput :: "(int \<Rightarrow> tm) \<Rightarrow> log_env \<Rightarrow> string \<Rightarrow> 'u Logger \<Rightarrow> 'u Logger" where
  "defaultOutput lt e msg s =
     (if \<not> allowRecord s then s
      else let s1 = (if ge_Timestamp (now_test e) (nextRollOverTime s) then rollOver lt e s else s)
           in s1\<lparr>log_files := sys_write (log_file_fd s1) msg (write_count e) (log_files s1)\<rparr>)"

definition level_text :: "int \<Rightarrow> string" where
  "level_text l =
     (if l = INFO then ''[INFO]'' else if l = ERROR then ''[ERROR]'' else if l = FATAL then ''[FATAL]''
      else if l = DEBUG then ''[DEBUG]'' else '''')"

definition log_line :: "(int \<Rightarrow> tm) \<Rightarrow> log_env \<Rightarrow> int \<Rightarrow> string \<Rightarrow> string" where
  "log_line lt e l msg =
     level_text l @ ''Time: '' @ toFormattedString lt (now_text e) False @ '' Content: '' @ msg @ [CHR 0x0A]"

definition log_msg :: "(int \<Rightarrow> tm) \<Rightarrow> log_env \<Rightarrow> string \<Rightarrow> 'u Logger \<Rightarrow> 'u log_outcome" where
  "log_msg lt e msg s =
     (let buf = log_line lt e (logLevel s) msg;
          finish = (\<lambda>s1. if logLevel s1 = FATAL then Exited 0 s1 else Returned s1)
      in case g_output s of
           Default_output \<Rightarrow> finish (defaultOutput lt e buf s)
         | User_output f \<Rightarrow> finish (s\<lparr>user_state := f buf (user_state s)\<rparr>)
         | Empty_function \<Rightarrow> Bad_function_call s)"

text \<open>The macros. \<open>text\<close> is the formatted message and \<open>others\<close> is what other threads do to the logger between the two
  calls: the logger is one object for the process and no lock is held.\<close>

definition LOG_INFO :: "(int \<Rightarrow> tm) \<Rightarrow> log_env \<Rightarrow> ('u Logger \<Rightarrow> 'u Logger) \<Rightarrow> string \<Rightarrow> 'u Logger \<Rightarrow> 'u log_outcome" where
  "LOG_INFO lt e others text s = log_msg lt e (snprintf 1024 text) (others (setLogLevel INFO s))"

definition LOG_ERROR :: "(int \<Rightarrow> tm) \<Rightarrow> log_env \<Rightarrow> ('u Logger \<Rightarrow> 'u Logger) \<Rightarrow> string \<Rightarrow> 'u Logger \<Rightarrow> 'u log_outcome" where
  "LOG_ERROR lt e others text s = log_msg lt e (snprintf 1024 text) (others (setLogLevel ERROR s))"

definition LOG_FATAL :: "(int \<Rightarrow> tm) \<Rightarrow> log_env \<Rightarrow> ('u Logger \<Rightarrow> 'u Logger) \<Rightarrow> string \<Rightarrow> 'u Logger \<Rightarrow> 'u log_outcome" where
  "LOG_FATAL lt e others text s =
     (case log_msg lt e (snprintf 1024 text) (others (setLogLevel FATAL s)) of
        Returned s1 \<Rightarrow> Exited (- 1) s1
      | r \<Rightarrow> r)"

definition LOG_SET_FILE_NAME :: "int \<Rightarrow> string \<Rightarrow> 'u Logger \<Rightarrow> 'u Logger" where
  "LOG_SET_FILE_NAME f name s = setLoggerFileName f name s"

section \<open>What a buffer promises\<close>

text \<open>The contract of a character buffer, as its users rely on it: text is added at the end when there is more room
  than it needs and is otherwise not added at all; the buffer never leaves its array.\<close>

locale char_buffer =
  fixes ok :: "'b \<Rightarrow> bool"
    and contents :: "'b \<Rightarrow> string"
    and room :: "'b \<Rightarrow> nat"
    and app :: "string \<Rightarrow> 'b \<Rightarrow> abort + 'b"
    and clear :: "'b \<Rightarrow> 'b"
    and capacity :: nat
  assumes app_fits: "ok b \<Longrightarrow> length m < room b \<Longrightarrow> \<exists>b'. app m b = Inr b' \<and> ok b' \<and> contents b' = contents b @ m"
    and app_full: "ok b \<Longrightarrow> room b \<le> length m \<Longrightarrow> app m b = Inr b"
    and room_left: "ok b \<Longrightarrow> room b + length (contents b) = capacity"
    and clear_ok: "ok b \<Longrightarrow> ok (clear b) \<and> contents (clear b) = []"
begin

fun app_all :: "string list \<Rightarrow> 'b \<Rightarrow> abort + 'b" where
  "app_all [] b = Inr b"
| "app_all (m # ms) b = bind_abort (app m b) (app_all ms)"

lemma app_cases:
  assumes "ok b"
  obtains b' where "app m b = Inr b'" "ok b'" "contents b' = contents b @ (if length m < room b then m else [])"
  using app_fits [OF assms] app_full [OF assms, of m] assms that by (metis append_Nil2 not_less)

text \<open>Messages that fit together are all kept, in order.\<close>

lemma app_all_fits:
  assumes "ok b" "length (contents b) + length (concat ms) < capacity"
  shows "\<exists>b'. app_all ms b = Inr b' \<and> ok b' \<and> contents b' = contents b @ concat ms"
  using assms
proof (induction ms arbitrary: b)
  case (Cons m ms)
  then have "length m < room b" using room_left [of b] by simp
  then obtain b1 where b1: "app m b = Inr b1" "ok b1" "contents b1 = contents b @ m"
    using app_fits Cons.prems(1) by blast
  then show ?case using Cons.IH [of b1] Cons.prems(2) by simp
qed simp

lemma app_bound:
  assumes "ok b"
  obtains b' where "app m b = Inr b'" "ok b'" "length (contents b') \<le> capacity"
  using app_cases [OF assms, of m] room_left that by (metis le_add2)

end

definition fb_ok :: "nat \<Rightarrow> FixedBuffer \<Rightarrow> bool" where
  "fb_ok cap b \<longleftrightarrow> length (fb_data b) = cap \<and> fb_cur b \<le> cap \<and> cap < 2 ^ 31"

definition fb_text :: "FixedBuffer \<Rightarrow> string" where
  "fb_text b = take (fb_cur b) (fb_data b)"

definition fb_room :: "FixedBuffer \<Rightarrow> nat" where
  "fb_room b = to_size_t (fb_avail b)"

lemma fb_room_eq: "fb_ok cap b \<Longrightarrow> fb_room b = cap - fb_cur b"
  by (simp add: fb_ok_def fb_room_def fb_avail_def to_size_t_def)

interpretation fixed: char_buffer "fb_ok cap" fb_text fb_room fb_append fb_reset cap for cap
proof
  fix b m
  assume ok: "fb_ok cap b"
  note room = fb_room_eq [OF ok]
  show "\<exists>b'. fb_append m b = Inr b' \<and> fb_ok cap b' \<and> fb_text b' = fb_text b @ m" if "length m < fb_room b"
  proof -
    have "fb_cur b + length m \<le> length (fb_data b)" using ok that room by (simp add: fb_ok_def)
    then show ?thesis using ok that
      by (simp add: fb_append_def fb_ok_def fb_text_def take_std_copy fb_room_def)
  qed
  show "fb_append m b = Inr b" if "fb_room b \<le> length m" using that by (simp add: fb_append_def fb_room_def)
  show "fb_room b + length (fb_text b) = cap" using ok room by (simp add: fb_ok_def fb_text_def)
  show "fb_ok cap (fb_reset b) \<and> fb_text (fb_reset b) = []" using ok by (simp add: fb_ok_def fb_reset_def fb_text_def)
qed

lemma new_FixedBuffer_ok:
  "length mem = cap \<Longrightarrow> cap < 2 ^ 31 \<Longrightarrow> fb_ok cap (new_FixedBuffer mem) \<and> fb_text (new_FixedBuffer mem) = []"
  by (simp add: fb_ok_def new_FixedBuffer_def fb_text_def)

lemma fb_bzero_ok: "fb_ok cap b \<Longrightarrow> fb_cur b = 0 \<Longrightarrow> fb_ok cap (fb_bzero b) \<and> fb_text (fb_bzero b) = []"
  by (simp add: fb_ok_def fb_bzero_def fb_text_def)

lemma fb_toString_ok: "fb_ok cap b \<Longrightarrow> fb_toString b = Inr (fb_text b)"
  by (simp add: fb_ok_def fb_toString_def fb_text_def)

section \<open>Rolling\<close>

lemma log_lines_fields [simp]:
  "g_output (close_log s) = g_output s" "allowRecord (close_log s) = allowRecord s" "logLevel (close_log s) = logLevel s"
  "log_file_name (close_log s) = log_file_name s" "roll_every_hours (close_log s) = roll_every_hours s"
  "nextRollOverTime (close_log s) = nextRollOverTime s" "file_text (log_files (close_log s)) = file_text (log_files s)"
  by (simp_all add: close_log_def sys_close_def)

lemma file_text_open [simp]: "file_text (sys_open n f w) = file_text w"
  by (simp add: sys_open_def)

lemma fd_file_open [simp]: "f \<ge> 0 \<Longrightarrow> fd_file (sys_open n f w) f = Some n"
  by (simp add: sys_open_def)

lemma fd_file_write [simp]: "fd_file (sys_write f buf n w) = fd_file w"
  by (simp add: sys_write_def split: option.split)

lemma file_text_write:
  "fd_file w f = Some name \<Longrightarrow> length buf \<le> n \<Longrightarrow>
   file_text (sys_write f buf n w) = (file_text w)(name := file_text w name @ buf)"
  by (simp add: sys_write_def)

text \<open>A call of \<^verbatim>\<open>LOG_INFO\<close> or, if the flag is set, \<^verbatim>\<open>LOG_ERROR\<close>, and a sequence of them; the line each prints.\<close>

type_synonym log_call = "log_env \<times> bool \<times> string"

fun call_line :: "(int \<Rightarrow> tm) \<Rightarrow> log_call \<Rightarrow> string" where
  "call_line lt (e, err, text) = log_line lt e (if err then ERROR else INFO) (snprintf 1024 text)"

fun log_one :: "(int \<Rightarrow> tm) \<Rightarrow> log_call \<Rightarrow> 'u Logger \<Rightarrow> 'u log_outcome" where
  "log_one lt (e, err, text) s = (if err then LOG_ERROR lt e id text s else LOG_INFO lt e id text s)"

fun run_log :: "(int \<Rightarrow> tm) \<Rightarrow> log_call list \<Rightarrow> 'u Logger \<Rightarrow> 'u log_outcome" where
  "run_log lt [] s = Returned s"
| "run_log lt (c # cs) s = (case log_one lt c s of Returned s1 \<Rightarrow> run_log lt cs s1 | r \<Rightarrow> r)"

text \<open>The specification: which file each line goes to. The current file is kept until the clock reaches the rolling
  time; then a file named by the time is begun and the next rolling time is \<open>h\<close> hours later.\<close>

definition stamped_name :: "(int \<Rightarrow> tm) \<Rightarrow> string \<Rightarrow> log_env \<Rightarrow> string" where
  "stamped_name lt base e = base @ toFormattedStringWithoutSeconds lt (now_name e) @ ''.log''"

fun roll_spec :: "(int \<Rightarrow> tm) \<Rightarrow> int \<Rightarrow> string \<Rightarrow> Timestamp \<Rightarrow> string \<Rightarrow> log_call list \<Rightarrow> (string \<times> string) list" where
  "roll_spec lt h base roll cur [] = []"
| "roll_spec lt h base roll cur (c # cs) =
     (if roll \<le> now_test (fst c)
      then (stamped_name lt base (fst c), call_line lt c)
             # roll_spec lt h base (plus_micros (now_next (fst c)) (h * 3600 * 1000000)) (stamped_name lt base (fst c)) cs
      else (cur, call_line lt c) # roll_spec lt h base roll cur cs)"

definition call_ok :: "(int \<Rightarrow> tm) \<Rightarrow> log_call \<Rightarrow> bool" where
  "call_ok lt c \<longleftrightarrow> open_result (fst c) \<ge> 0 \<and> length (call_line lt c) \<le> write_count (fst c) \<and> new_Timestamp \<le> now_test (fst c)"

definition logs_to :: "int \<Rightarrow> string \<Rightarrow> Timestamp \<Rightarrow> string \<Rightarrow> 'u Logger \<Rightarrow> bool" where
  "logs_to h base roll cur s \<longleftrightarrow> g_output s = Default_output \<and> allowRecord s \<and> log_file_name s = base \<and> roll_every_hours s = h
     \<and> nextRollOverTime s = roll \<and> fd_file (log_files s) (log_file_fd s) = Some cur"

lemma addTime_hours:
  assumes "0 < h" "3600 * h < 2 ^ 31"
  shows "addTime t (of_int (3600 * h)) = plus_micros t (h * 3600 * 1000000)"
proof -
  have "\<bar>h * 3600 * 1000000\<bar> < 2 ^ 53" using assms by simp
  from fl_int [OF this] show ?thesis
    by (simp add: addTime_def plus_micros_def kMicroSecondsPerSecond_def mult.commute)
       (metis (no_types, opaque_lifting) of_int_mult of_int_numeral trunc_int)
qed

lemma rollOver_logs:
  assumes "logs_to h base roll cur s" "0 < h" "3600 * h < 2 ^ 31" "open_result e \<ge> 0"
  shows "logs_to h base (plus_micros (now_next e) (h * 3600 * 1000000)) (stamped_name lt base e) (rollOver lt e s)
    \<and> file_text (log_files (rollOver lt e s)) = file_text (log_files s) \<and> logLevel (rollOver lt e s) = logLevel s"
  using assms addTime_hours [OF assms(2,3)]
  by (auto simp: logs_to_def rollOver_def Let_def stamped_name_def)

text \<open>One message.\<close>

lemma log_one_step:
  assumes "logs_to h base roll cur s" "0 < h" "3600 * h < 2 ^ 31" "call_ok lt c"
    and g: "(roll', cur') = (if roll \<le> now_test (fst c)
      then (plus_micros (now_next (fst c)) (h * 3600 * 1000000), stamped_name lt base (fst c)) else (roll, cur))"
  shows "\<exists>s'. log_one lt c s = Returned s' \<and> logs_to h base roll' cur' s'
    \<and> file_text (log_files s') = (file_text (log_files s))(cur' := file_text (log_files s) cur' @ call_line lt c)"
proof -
  obtain e err msg where c: "c = (e, err, msg)" by (cases c)
  define l where "l = (if err then ERROR else INFO)"
  define s1 where "s1 = setLogLevel l s"
  define s2 where "s2 = (if roll \<le> now_test e then rollOver lt e s1 else s1)"
  have l: "l \<noteq> FATAL" by (simp add: l_def ERROR_def INFO_def FATAL_def)
  have s1: "logs_to h base roll cur s1" "file_text (log_files s1) = file_text (log_files s)" "logLevel s1 = l"
    using assms(1) by (simp_all add: s1_def logs_to_def setLogLevel_def)
  have s2: "logs_to h base roll' cur' s2" "file_text (log_files s2) = file_text (log_files s)" "logLevel s2 = l"
    using s1 rollOver_logs [OF s1(1) assms(2,3), of e lt] assms(4) g by (auto simp: s2_def c call_ok_def)
  let ?s3 = "s2\<lparr>log_files := sys_write (log_file_fd s2) (call_line lt c) (write_count e) (log_files s2)\<rparr>"
  have "log_one lt c s = log_msg lt e (snprintf 1024 msg) s1"
    by (simp add: c s1_def l_def LOG_INFO_def LOG_ERROR_def)
  also have "\<dots> = Returned ?s3"
    using s1(1,3) s2(3) l by (simp add: log_msg_def defaultOutput_def logs_to_def Let_def c s2_def l_def)
  finally have "log_one lt c s = Returned ?s3" .
  moreover have "logs_to h base roll' cur' ?s3" using s2(1) by (simp add: logs_to_def)
  moreover have "file_text (log_files ?s3) = (file_text (log_files s))(cur' := file_text (log_files s) cur' @ call_line lt c)"
    using s2(1,2) assms(4) by (simp add: file_text_write logs_to_def call_ok_def c)
  ultimately show ?thesis by blast
qed

definition lines_of :: "string \<Rightarrow> (string \<times> string) list \<Rightarrow> string" where
  "lines_of f xs = concat (map snd (filter (\<lambda>x. fst x = f) xs))"

lemma lines_of_simps [simp]:
  "lines_of f [] = []" "lines_of f (x # xs) = (if fst x = f then snd x else []) @ lines_of f xs"
  by (simp_all add: lines_of_def)

lemma lines_of_append [simp]: "lines_of f (xs @ ys) = lines_of f xs @ lines_of f ys"
  by (simp add: lines_of_def)

lemma run_log_spec:
  assumes "logs_to h base roll cur s" "0 < h" "3600 * h < 2 ^ 31" "\<forall>c \<in> set cs. call_ok lt c"
  shows "\<exists>s'. run_log lt cs s = Returned s'
    \<and> (\<forall>f. file_text (log_files s') f = file_text (log_files s) f @ lines_of f (roll_spec lt h base roll cur cs))"
  using assms(1,4)
proof (induction cs arbitrary: s roll cur)
  case (Cons c cs)
  define roll' cur' where "roll' = (if roll \<le> now_test (fst c) then plus_micros (now_next (fst c)) (h * 3600 * 1000000) else roll)"
    and "cur' = (if roll \<le> now_test (fst c) then stamped_name lt base (fst c) else cur)"
  obtain s1 where s1: "log_one lt c s = Returned s1" "logs_to h base roll' cur' s1"
      "file_text (log_files s1) = (file_text (log_files s))(cur' := file_text (log_files s) cur' @ call_line lt c)"
  proof -
    have "call_ok lt c" using Cons.prems(2) by simp
    moreover have "(roll', cur') = (if roll \<le> now_test (fst c)
      then (plus_micros (now_next (fst c)) (h * 3600 * 1000000), stamped_name lt base (fst c)) else (roll, cur))"
      by (simp add: roll'_def cur'_def)
    ultimately show thesis using log_one_step [OF Cons.prems(1) assms(2,3)] that by blast
  qed
  have "roll_spec lt h base roll cur (c # cs) = (cur', call_line lt c) # roll_spec lt h base roll' cur' cs"
    by (simp add: roll'_def cur'_def)
  then show ?case using Cons.IH [OF s1(2)] Cons.prems(2) s1(1,3) by (auto simp del: roll_spec.simps(2))
qed simp

lemma roll_spec_files:
  assumes "x \<in> set (roll_spec lt h base roll cur cs)"
  shows "fst x = cur \<or> (\<exists>e. fst x = stamped_name lt base e)"
  using assms
proof (induction cs arbitrary: roll cur)
  case (Cons c cs)
  let ?cur = "if roll \<le> now_test (fst c) then stamped_name lt base (fst c) else cur"
  have "fst x = ?cur \<or> (\<exists>r. x \<in> set (roll_spec lt h base r ?cur cs))" using Cons.prems by (auto split: if_splits)
  then have "fst x = ?cur \<or> (\<exists>e. fst x = stamped_name lt base e)" using Cons.IH [of _ ?cur] by blast
  then show ?case by (auto split: if_splits)
qed simp

lemma stamped_name_differs: "stamped_name lt base e \<noteq> base @ ''.log''"
proof -
  have "toFormattedStringWithoutSeconds lt (now_name e) \<noteq> []"
    by (simp add: toFormattedStringWithoutSeconds_def snprintf_def Let_def)
  then show ?thesis by (auto simp: stamped_name_def)
qed

section \<open>Properties\<close>



definition demo_tm :: tm where
  "demo_tm = \<lparr>tm_year = 124, tm_mon = 4, tm_mday = 1, tm_hour = 8, tm_min = 30, tm_sec = 0\<rparr>"

definition demo_log_env :: log_env where
  "demo_log_env = \<lparr>now_text = Timestamp 5, now_test = Timestamp 5, now_name = Timestamp 5, now_next = Timestamp 6, open_result = 7,
     write_count = 100\<rparr>"

definition no_files :: Files where
  "no_files = \<lparr>fd_file = \<lambda>_. None, file_text = \<lambda>_. []\<rparr>"

lemma demo_line: "call_line (\<lambda>_. demo_tm) (demo_log_env, False, ''hi'') = ''[INFO]Time: 20240501 08:30:00 Content: hi'' @ [CHR 0x0A]"
  by code_simp

lemma demo_stamp: "stamped_name (\<lambda>_. demo_tm) ''app'' demo_log_env = ''app2024-05-01_08-30.log''"
  by code_simp


text \<open>\<^verbatim>\<open>LOG_FATAL\<close> ends the process with status 0, that of success: \<^verbatim>\<open>log\<close> calls \<^verbatim>\<open>exit(0)\<close> before the macro reaches
  its \<^verbatim>\<open>exit(-1)\<close>. The level is a member of the one logger of the process: a thread that sets it between the
  two steps of another thread's macro changes the outcome. An information message is then printed as fatal
  and ends the process, and a fatal one returns from \<^verbatim>\<open>log\<close> and reaches the other \<^verbatim>\<open>exit\<close>.\<close>

theorem log_level_decides:
  assumes "g_output s \<noteq> Empty_function"
  shows "(\<exists>s'. LOG_FATAL lt e id msg s = Exited 0 s')
    \<and> (\<exists>s'. LOG_INFO lt e id msg s = Returned s')
    \<and> (\<exists>s'. LOG_INFO lt e (setLogLevel FATAL) msg s = Exited 0 s')
    \<and> (\<exists>s'. LOG_FATAL lt e (setLogLevel INFO) msg s = Exited (- 1) s')
    \<and> (\<forall>f. g_output s = User_output f \<longrightarrow> LOG_INFO lt e (setLogLevel FATAL) msg s =
          Exited 0 (s\<lparr>logLevel := FATAL, user_state := f (log_line lt e FATAL (snprintf 1024 msg)) (user_state s)\<rparr>))"
proof -
  have "logLevel (defaultOutput lt e b r) = logLevel r" for b and r :: "'a Logger"
    by (simp add: defaultOutput_def rollOver_def Let_def)
  then show ?thesis using assms
    by (cases "g_output s") (simp_all add: LOG_FATAL_def LOG_INFO_def log_msg_def setLogLevel_def INFO_def FATAL_def Let_def)
qed

theorem log_level_decides_witness:
  "\<exists>s' t'. LOG_FATAL (\<lambda>_. demo_tm) demo_log_env id ''down'' (new_Logger 9 3 no_files ()) = Exited 0 s'
     \<and> LOG_INFO (\<lambda>_. demo_tm) demo_log_env (setLogLevel FATAL) ''hi'' (new_Logger 9 3 no_files ()) = Exited 0 t'"
proof -
  have "g_output (new_Logger 9 3 no_files ()) \<noteq> Empty_function" by (simp add: new_Logger_def)
  from log_level_decides [OF this] show ?thesis by blast
qed

text \<open>With recording switched off nothing is written and nothing is rolled.\<close>

lemma log_switched_off: "allowRecord (closeLoggerRecord s) = False" "defaultOutput lt e m (closeLoggerRecord s) = closeLoggerRecord s"
  by (simp_all add: closeLoggerRecord_def defaultOutput_def)

text \<open>When the file of a new period cannot be opened, its messages are lost without a report.\<close>

lemma open_failure_loses:
  assumes "g_output s = Default_output" "allowRecord s" "nextRollOverTime s \<le> now_test e" "open_result e = - 1"
    "fd_file (log_files s) (- 1) = None"
  shows "\<exists>s'. LOG_ERROR lt e id msg s = Returned s' \<and> file_text (log_files s') = file_text (log_files s)"
  using assms
  by (auto simp: LOG_ERROR_def log_msg_def setLogLevel_def ERROR_def FATAL_def defaultOutput_def rollOver_def close_log_def
      sys_close_def sys_open_def sys_write_def Let_def)

end
