(* ===== verification/Ymuduo_AsyncLogging.thy ===== *)
theory Ymuduo_AsyncLogging
  imports Ymuduo_Logger Ymuduo_Threads
begin

text \<open>
  The asynchronous logger (\<^verbatim>\<open>src/include/AsyncLogging.h\<close>, \<^verbatim>\<open>src/src/AsyncLogging.cc\<close>): any thread appends
  messages to a buffer under a mutex, and one thread collects the full buffers and writes them to the
  log file. Each critical section and each system call of the logging thread is one step of the model, so
  that every interleaving with the other threads is a sequence of steps. The lemmas show that no null
  pointer is used and no vector is read when empty, that messages reach the files whole and in order as
  long as the backlog stays within its limit, and what is lost when it does not or when the logger stops.
\<close>

section \<open>State\<close>

text \<open>Where the logging thread is: not started, at the test of \<^verbatim>\<open>running_\<close>, before its critical section, at the test
  of the backlog, at the write of buffer \<open>i\<close>, before taking back two buffers, at its end.\<close>

datatype log_pc = AL_Unborn | AL_Test | AL_Collect | AL_Backlog | AL_Write nat | AL_Refill | AL_End

text \<open>A \<^verbatim>\<open>BufferPtr\<close> is \<open>None\<close> when it is null. \<open>newBuffer1\<close>, \<open>newBuffer2\<close> and \<open>buffersToWrite\<close> are the local
  variables of \<^verbatim>\<open>threadFunc\<close>. The last four fields record, for the statements only, what was appended, what
  the system took with the file it went to, how many buffers were thrown away and whether the system once
  took less than it was given.\<close>

record AsyncLogging =
  al_fd :: int
  al_file_name :: string
  flushInterval :: int
  al_running :: bool
  al_basename :: string
  al_thread :: Thread
  al_latch :: CountDownLatch
  currentBuffer :: "FixedBuffer option"
  nextBuffer :: "FixedBuffer option"
  al_buffers :: "FixedBuffer option list"
  al_roll_hours :: int
  al_nextRoll :: Timestamp
  al_currentFileName :: string
  newBuffer1 :: "FixedBuffer option"
  newBuffer2 :: "FixedBuffer option"
  buffersToWrite :: "FixedBuffer option list"
  al_pc :: log_pc
  al_files :: Files
  al_msgs :: "string list"
  al_out :: "(string \<times> string) list"
  al_dropped :: nat
  al_short :: bool

section \<open>Construction\<close>

text \<open>\<open>m1\<close> and \<open>m2\<close> are the memory of the two new buffers, \<open>num\<close> the threads created so far, \<open>f\<close> the result of
  \<^verbatim>\<open>open\<close>. When that fails the constructor returns early, after an error message, with the buffers as they are.\<close>

definition new_AsyncLogging ::
  "string \<Rightarrow> int \<Rightarrow> string \<Rightarrow> int \<Rightarrow> string \<Rightarrow> string \<Rightarrow> int \<Rightarrow> Timestamp \<Rightarrow> int \<Rightarrow> Files \<Rightarrow> AsyncLogging" where
  "new_AsyncLogging base rollTime out flush m1 m2 num now f w =
     (let zero = (if f < 0 then id else fb_bzero)
      in \<lparr>al_fd = f, al_file_name = out, flushInterval = flush, al_running = False, al_basename = base,
          al_thread = fst (new_Thread num ''Logging''), al_latch = new_CountDownLatch 1,
          currentBuffer = Some (zero (new_FixedBuffer m1)), nextBuffer = Some (zero (new_FixedBuffer m2)), al_buffers = [],
          al_roll_hours = rollTime, al_nextRoll = now, al_currentFileName = [],
          newBuffer1 = None, newBuffer2 = None, buffersToWrite = [], al_pc = AL_Unborn, al_files = sys_open out f w,
          al_msgs = [], al_out = [], al_dropped = 0, al_short = False\<rparr>)"

section \<open>Operations of other threads\<close>

text \<open>\<^verbatim>\<open>append\<close>, under the mutex; \<open>mem\<close> is the memory of a new buffer if one is needed.\<close>

definition al_append :: "string \<Rightarrow> string \<Rightarrow> AsyncLogging \<Rightarrow> abort + AsyncLogging" where
  "al_append mem msg s =
     (case currentBuffer s of
        None \<Rightarrow> Inl Bad_access
      | Some b \<Rightarrow>
          if to_size_t (fb_avail b) > length msg
          then bind_abort (fb_append msg b) (\<lambda>b'. Inr (s\<lparr>currentBuffer := Some b'\<rparr>))
          else let s1 = s\<lparr>al_buffers := al_buffers s @ [currentBuffer s], currentBuffer := None\<rparr>;
                   s2 = (case nextBuffer s1 of
                           Some n \<Rightarrow> s1\<lparr>currentBuffer := Some n, nextBuffer := None\<rparr>
                         | None \<Rightarrow> s1\<lparr>currentBuffer := Some (new_FixedBuffer mem)\<rparr>)
               in (case currentBuffer s2 of
                     None \<Rightarrow> Inl Bad_access
                   | Some c \<Rightarrow> bind_abort (fb_append msg c) (\<lambda>c'. Inr (s2\<lparr>currentBuffer := Some c'\<rparr>))))"

definition al_start :: "AsyncLogging \<Rightarrow> AsyncLogging" where
  "al_start s = s\<lparr>al_running := True, al_thread := thread_start (al_thread s), al_latch := latch_enter 0 (al_latch s)\<rparr>"

text \<open>\<^verbatim>\<open>stop\<close> up to its \<^verbatim>\<open>join\<close>, which the logging thread's end lets return.\<close>

definition al_stop :: "AsyncLogging \<Rightarrow> AsyncLogging" where
  "al_stop s = s\<lparr>al_running := False\<rparr>"

text \<open>The destructor stops a logger that is still running.\<close>

definition delete_AsyncLogging :: "AsyncLogging \<Rightarrow> AsyncLogging" where
  "delete_AsyncLogging s = (if al_running s then al_stop s else s)"

definition al_join :: "AsyncLogging \<Rightarrow> AsyncLogging" where
  "al_join s = s\<lparr>al_thread := thread_join (al_thread s)\<rparr>"

definition al_setRollTime :: "int \<Rightarrow> AsyncLogging \<Rightarrow> AsyncLogging" where
  "al_setRollTime hours s = s\<lparr>al_roll_hours := hours\<rparr>"

text \<open>\<^verbatim>\<open>setAsyncLogFileName\<close>. The line that should take the mutex declares a local variable of that name instead, so
  that the logging thread can run between the two halves.\<close>

definition rename_close :: "string \<Rightarrow> AsyncLogging \<Rightarrow> AsyncLogging" where
  "rename_close filename s = s\<lparr>al_basename := filename, al_files := sys_close (al_fd s) (al_files s), al_fd := - 1\<rparr>"

definition rename_open :: "int \<Rightarrow> AsyncLogging \<Rightarrow> AsyncLogging" where
  "rename_open f s =
     (let s1 = s\<lparr>al_file_name := al_basename s @ ''.log''\<rparr>
      in s1\<lparr>al_fd := f, al_files := sys_open (al_file_name s1) f (al_files s1)\<rparr>)"

definition setAsyncLogFileName :: "int \<Rightarrow> string \<Rightarrow> AsyncLogging \<Rightarrow> AsyncLogging" where
  "setAsyncLogFileName f filename s = rename_open f (rename_close filename s)"

section \<open>The logging thread\<close>

definition al_rollOver :: "(int \<Rightarrow> tm) \<Rightarrow> log_env \<Rightarrow> AsyncLogging \<Rightarrow> AsyncLogging" where
  "al_rollOver lt e s =
     (let s1 = (if al_fd s \<noteq> - 1 then s\<lparr>al_files := sys_close (al_fd s) (al_files s)\<rparr> else s);
          s2 = s1\<lparr>al_currentFileName := al_basename s1 @ toFormattedStringWithoutSeconds lt (now_name e) @ ''.log''\<rparr>;
          s3 = s2\<lparr>al_file_name := al_currentFileName s2\<rparr>;
          s4 = s3\<lparr>al_fd := open_result e, al_files := sys_open (al_currentFileName s3) (open_result e) (al_files s3)\<rparr>
      in s4\<lparr>al_nextRoll := addTime (now_next e) (of_int (3600 * al_roll_hours s4))\<rparr>)"

text \<open>A call of \<^verbatim>\<open>write\<close> on the log file, whose result is not looked at.\<close>

definition al_write :: "string \<Rightarrow> nat \<Rightarrow> AsyncLogging \<Rightarrow> AsyncLogging" where
  "al_write buf n s =
     s\<lparr>al_files := sys_write (al_fd s) buf n (al_files s),
       al_out := al_out s @ (case fd_file (al_files s) (al_fd s) of None \<Rightarrow> [] | Some f \<Rightarrow> [(f, take n buf)]),
       al_short := (al_short s \<or> fd_file (al_files s) (al_fd s) = None \<or> n < length buf)\<rparr>"

definition thread_begin :: "string \<Rightarrow> string \<Rightarrow> AsyncLogging \<Rightarrow> AsyncLogging" where
  "thread_begin m1 m2 s =
     s\<lparr>al_latch := countDown (al_latch s), newBuffer1 := Some (fb_bzero (new_FixedBuffer m1)),
       newBuffer2 := Some (fb_bzero (new_FixedBuffer m2)), buffersToWrite := [], al_pc := AL_Test\<rparr>"

definition test_running :: "AsyncLogging \<Rightarrow> AsyncLogging" where
  "test_running s = (if al_running s then s\<lparr>al_pc := AL_Collect\<rparr> else s\<lparr>al_files := sys_close (al_fd s) (al_files s), al_pc := AL_End\<rparr>)"

text \<open>The critical section, when \<^verbatim>\<open>wait_for\<close> has returned because there is a full buffer or the time is over.\<close>

definition collect_buffers :: "(int \<Rightarrow> tm) \<Rightarrow> log_env \<Rightarrow> AsyncLogging \<Rightarrow> AsyncLogging" where
  "collect_buffers lt e s =
     (let s1 = (if ge_Timestamp (now_test e) (al_nextRoll s) then al_rollOver lt e s else s);
          s2 = s1\<lparr>al_buffers := al_buffers s1 @ [currentBuffer s1], currentBuffer := newBuffer1 s1, newBuffer1 := None\<rparr>;
          s3 = s2\<lparr>buffersToWrite := al_buffers s2, al_buffers := buffersToWrite s2\<rparr>;
          s4 = (case nextBuffer s3 of None \<Rightarrow> s3\<lparr>nextBuffer := newBuffer2 s3, newBuffer2 := None\<rparr> | Some _ \<Rightarrow> s3)
      in s4\<lparr>al_pc := AL_Backlog\<rparr>)"

definition drop_notice :: "(int \<Rightarrow> tm) \<Rightarrow> log_env \<Rightarrow> nat \<Rightarrow> string" where
  "drop_notice lt e k =
     snprintf 256 (''Dropped log messages at '' @ toFormattedString lt (now_text e) True @ '', '' @ show_nat (k - 2)
       @ '' larger buffers'' @ [CHR 0x0A])"

definition drop_backlog :: "(int \<Rightarrow> tm) \<Rightarrow> log_env \<Rightarrow> AsyncLogging \<Rightarrow> AsyncLogging" where
  "drop_backlog lt e s =
     (let k = length (buffersToWrite s);
          s1 = (if k > 25
                then let s2 = al_write (drop_notice lt e k) (write_count e) s
                     in s2\<lparr>buffersToWrite := take 2 (buffersToWrite s2), al_dropped := al_dropped s2 + (k - 2)\<rparr>
                else s)
      in s1\<lparr>al_pc := AL_Write 0\<rparr>)"

definition write_buffer :: "nat \<Rightarrow> nat \<Rightarrow> AsyncLogging \<Rightarrow> abort + AsyncLogging" where
  "write_buffer n i s =
     (if i < length (buffersToWrite s)
      then (case buffersToWrite s ! i of
              None \<Rightarrow> Inl Bad_access
            | Some b \<Rightarrow> bind_abort (fb_toString b) (\<lambda>text. Inr ((al_write text n s)\<lparr>al_pc := AL_Write (Suc i)\<rparr>)))
      else Inr (s\<lparr>al_pc := AL_Refill\<rparr>))"

text \<open>A new buffer pointer is taken from the end of \<open>buffersToWrite\<close> if it is null.\<close>

definition take_back :: "FixedBuffer option \<Rightarrow> FixedBuffer option list \<Rightarrow> abort + (FixedBuffer option \<times> FixedBuffer option list)" where
  "take_back p bs =
     (case p of
        Some b \<Rightarrow> Inr (Some b, bs)
      | None \<Rightarrow> if bs = [] then Inl Bad_access
                else (case last bs of None \<Rightarrow> Inl Bad_access | Some b \<Rightarrow> Inr (Some (fb_reset b), butlast bs)))"

definition refill_buffers :: "AsyncLogging \<Rightarrow> abort + AsyncLogging" where
  "refill_buffers s =
     (let bs = (if length (buffersToWrite s) > 2 then take 2 (buffersToWrite s) else buffersToWrite s)
      in bind_abort (take_back (newBuffer1 s) bs) (\<lambda>(p1, bs1).
         bind_abort (take_back (newBuffer2 s) bs1) (\<lambda>(p2, bs2).
         Inr (s\<lparr>newBuffer1 := p1, newBuffer2 := p2, buffersToWrite := [], al_pc := AL_Test\<rparr>))))"

section \<open>Interleavings\<close>

text \<open>One step of any thread. Memory for a buffer has its size. A name is changed and the logger started and stopped
  by any thread at any time.\<close>

definition buffer_memory :: "string \<Rightarrow> bool" where
  "buffer_memory mem \<longleftrightarrow> length mem = kLargeBuffer"

inductive al_step :: "(int \<Rightarrow> tm) \<Rightarrow> AsyncLogging \<Rightarrow> abort + AsyncLogging \<Rightarrow> bool" for lt where
  append: "buffer_memory mem \<Longrightarrow> al_step lt s (map_sum id (\<lambda>s'. s'\<lparr>al_msgs := al_msgs s @ [msg]\<rparr>) (al_append mem msg s))"
| start: "\<not> thr_start (al_thread s) \<Longrightarrow> al_step lt s (Inr (al_start s))"
| stop: "al_step lt s (Inr (al_stop s))"
| destroy: "al_step lt s (Inr (delete_AsyncLogging s))"
| join: "al_pc s = AL_End \<Longrightarrow> al_step lt s (Inr (al_join s))"
| rename1: "al_step lt s (Inr (rename_close name s))"
| rename2: "al_step lt s (Inr (rename_open f s))"
| rollTime: "al_step lt s (Inr (al_setRollTime h s))"
| thread: "al_pc s = AL_Unborn \<Longrightarrow> thr_start (al_thread s) \<Longrightarrow> buffer_memory m1 \<Longrightarrow> buffer_memory m2 \<Longrightarrow>
    al_step lt s (Inr (thread_begin m1 m2 s))"
| test: "al_pc s = AL_Test \<Longrightarrow> al_step lt s (Inr (test_running s))"
| collect: "al_pc s = AL_Collect \<Longrightarrow> al_step lt s (Inr (collect_buffers lt e s))"
| backlog: "al_pc s = AL_Backlog \<Longrightarrow> al_step lt s (Inr (drop_backlog lt e s))"
| emit: "al_pc s = AL_Write i \<Longrightarrow> al_step lt s (write_buffer n i s)"
| refill: "al_pc s = AL_Refill \<Longrightarrow> al_step lt s (refill_buffers s)"

inductive al_reachable :: "(int \<Rightarrow> tm) \<Rightarrow> AsyncLogging \<Rightarrow> AsyncLogging \<Rightarrow> bool" for lt s0 where
  init: "al_reachable lt s0 s0"
| step: "al_reachable lt s0 s \<Longrightarrow> al_step lt s (Inr s') \<Longrightarrow> al_reachable lt s0 s'"

section \<open>Invariant\<close>

definition buf_ok :: "FixedBuffer option \<Rightarrow> bool" where
  "buf_ok p \<longleftrightarrow> (case p of None \<Rightarrow> False | Some b \<Rightarrow> fb_ok kLargeBuffer b)"

definition ptr_text :: "FixedBuffer option \<Rightarrow> string" where
  "ptr_text p = (case p of None \<Rightarrow> [] | Some b \<Rightarrow> fb_text b)"

definition texts :: "FixedBuffer option list \<Rightarrow> string" where
  "texts bs = concat (map ptr_text bs)"

text \<open>The buffers: the spare one is empty, and when it is missing a full one waits, which is why the logging thread
  can take two buffers back.\<close>

definition al_inv :: "AsyncLogging \<Rightarrow> bool" where
  "al_inv s \<longleftrightarrow> buf_ok (currentBuffer s) \<and> list_all buf_ok (al_buffers s)
     \<and> (if nextBuffer s = None then al_buffers s \<noteq> [] else buf_ok (nextBuffer s) \<and> ptr_text (nextBuffer s) = [])
     \<and> (al_pc s = AL_Test \<or> al_pc s = AL_Collect \<longrightarrow> buf_ok (newBuffer1 s) \<and> ptr_text (newBuffer1 s) = []
          \<and> buf_ok (newBuffer2 s) \<and> ptr_text (newBuffer2 s) = [] \<and> buffersToWrite s = [])
     \<and> ((al_pc s = AL_Backlog \<or> al_pc s = AL_Refill \<or> (\<exists>i. al_pc s = AL_Write i)) \<longrightarrow>
          newBuffer1 s = None \<and> list_all buf_ok (buffersToWrite s)
          \<and> length (buffersToWrite s) \<ge> (if newBuffer2 s = None then 2 else 1)
          \<and> (newBuffer2 s \<noteq> None \<longrightarrow> buf_ok (newBuffer2 s) \<and> ptr_text (newBuffer2 s) = []))"

text \<open>What has been appended and not yet been written.\<close>

fun being_written :: "log_pc \<Rightarrow> FixedBuffer option list \<Rightarrow> FixedBuffer option list" where
  "being_written AL_Backlog bs = bs"
| "being_written (AL_Write i) bs = drop i bs"
| "being_written _ bs = []"

definition unwritten :: "AsyncLogging \<Rightarrow> string" where
  "unwritten s = texts (being_written (al_pc s) (buffersToWrite s)) @ texts (al_buffers s) @ ptr_text (currentBuffer s)"

definition al_stream :: "AsyncLogging \<Rightarrow> bool" where
  "al_stream s \<longleftrightarrow> (al_dropped s = 0 \<and> \<not> al_short s \<and> (\<forall>m \<in> set (al_msgs s). length m < kLargeBuffer) \<longrightarrow>
     concat (map snd (al_out s)) @ unwritten s = concat (al_msgs s))"

definition al_filed :: "Files \<Rightarrow> AsyncLogging \<Rightarrow> bool" where
  "al_filed w s \<longleftrightarrow> (\<forall>f. file_text (al_files s) f = file_text w f @ lines_of f (al_out s))"

definition al_good :: "Files \<Rightarrow> AsyncLogging \<Rightarrow> bool" where
  "al_good w s \<longleftrightarrow> al_inv s \<and> al_stream s \<and> al_filed w s"

lemma texts_simps [simp]: "texts [] = []" "texts (p # ps) = ptr_text p @ texts ps" "texts (ps @ qs) = texts ps @ texts qs"
  by (simp_all add: texts_def)

lemma ptr_simps [simp]:
  "buf_ok None = False" "buf_ok (Some b) = fb_ok kLargeBuffer b" "ptr_text None = []" "ptr_text (Some b) = fb_text b"
  by (simp_all add: buf_ok_def ptr_text_def)

lemma kLargeBuffer_bound: "kLargeBuffer < 2 ^ 31"
  by (simp add: kLargeBuffer_def)

lemma new_buffer [simp]:
  assumes "buffer_memory mem"
  shows "fb_ok kLargeBuffer (new_FixedBuffer mem)" "fb_text (new_FixedBuffer mem) = []"
    "fb_ok kLargeBuffer (fb_bzero (new_FixedBuffer mem))" "fb_text (fb_bzero (new_FixedBuffer mem)) = []"
proof -
  show "fb_ok kLargeBuffer (new_FixedBuffer mem)" "fb_text (new_FixedBuffer mem) = []"
    using assms new_FixedBuffer_ok [OF _ kLargeBuffer_bound] by (simp_all add: buffer_memory_def)
  then show "fb_ok kLargeBuffer (fb_bzero (new_FixedBuffer mem))" "fb_text (fb_bzero (new_FixedBuffer mem)) = []"
    using fb_bzero_ok [of kLargeBuffer "new_FixedBuffer mem"] by (simp_all add: new_FixedBuffer_def)
qed

text \<open>A fresh buffer takes every message shorter than itself.\<close>

lemma empty_append:
  assumes "fb_ok kLargeBuffer b" "fb_text b = []"
  obtains b' where "fb_append m b = Inr b'" "fb_ok kLargeBuffer b'" "fb_text b' = (if length m < kLargeBuffer then m else [])"
  using fixed.app_cases [OF assms(1), of m] fixed.room_left [OF assms(1)] assms(2) by auto

lemma append_spec:
  assumes "al_inv s" "buffer_memory mem"
  shows "\<exists>c n bs. al_append mem msg s = Inr (s\<lparr>currentBuffer := c, nextBuffer := n, al_buffers := bs\<rparr>)
    \<and> buf_ok c \<and> list_all buf_ok bs \<and> (if n = None then bs \<noteq> [] else buf_ok n \<and> ptr_text n = [])
    \<and> texts bs @ ptr_text c = texts (al_buffers s) @ ptr_text (currentBuffer s) @ (if length msg < kLargeBuffer then msg else [])"
proof -
  obtain b where b: "currentBuffer s = Some b" "fb_ok kLargeBuffer b" using assms(1) by (cases "currentBuffer s") (auto simp: al_inv_def)
  show ?thesis
  proof (cases "length msg < fb_room b")
    case True
    moreover have "length msg < kLargeBuffer" using True fixed.room_left [OF b(2)] by simp
    moreover obtain b' where "fb_append msg b = Inr b'" "fb_ok kLargeBuffer b'" "fb_text b' = fb_text b @ msg"
      using fixed.app_fits [OF b(2) True] by blast
    ultimately show ?thesis using b assms(1)
      by (intro exI [of _ "Some b'"] exI [of _ "nextBuffer s"] exI [of _ "al_buffers s"])
        (simp add: al_append_def fb_room_def al_inv_def)
  next
    case False
    define c where "c = (case nextBuffer s of Some n \<Rightarrow> n | None \<Rightarrow> new_FixedBuffer mem)"
    have "fb_ok kLargeBuffer c" "fb_text c = []"
      using assms by (auto simp: c_def al_inv_def split: option.splits)
    from empty_append [OF this, of msg] obtain c' where
      "fb_append msg c = Inr c'" "fb_ok kLargeBuffer c'" "fb_text c' = (if length msg < kLargeBuffer then msg else [])" by blast
    then show ?thesis using b False assms(1)
      by (intro exI [of _ "Some c'"] exI [of _ None] exI [of _ "al_buffers s @ [Some b]"])
        (cases "nextBuffer s"; simp add: al_append_def fb_room_def al_inv_def c_def Let_def)
  qed
qed

lemma take_back_spec:
  assumes "if p = None then bs \<noteq> [] \<and> list_all buf_ok bs else buf_ok p \<and> ptr_text p = []"
  obtains b where "take_back p bs = Inr (Some b, if p = None then butlast bs else bs)" "fb_ok kLargeBuffer b" "fb_text b = []"
proof (cases p)
  case None
  then have "buf_ok (last bs)" "bs \<noteq> []" using assms by (auto simp: list_all_iff)
  then obtain b where "last bs = Some b" "fb_ok kLargeBuffer b" by (cases "last bs") auto
  then show ?thesis using None \<open>bs \<noteq> []\<close> fixed.clear_ok [of kLargeBuffer b] that [of "fb_reset b"] by (simp add: take_back_def)
qed (use assms that in \<open>simp add: take_back_def\<close>)

lemma refill_spec:
  assumes "al_inv s" "al_pc s = AL_Refill"
  shows "\<exists>b1 b2. refill_buffers s = Inr (s\<lparr>newBuffer1 := Some b1, newBuffer2 := Some b2, buffersToWrite := [], al_pc := AL_Test\<rparr>)
    \<and> fb_ok kLargeBuffer b1 \<and> fb_text b1 = [] \<and> fb_ok kLargeBuffer b2 \<and> fb_text b2 = []"
proof -
  define bs where "bs = (if length (buffersToWrite s) > 2 then take 2 (buffersToWrite s) else buffersToWrite s)"
  have s: "newBuffer1 s = None" "list_all buf_ok bs" "length bs \<ge> (if newBuffer2 s = None then 2 else 1)"
      "newBuffer2 s \<noteq> None \<longrightarrow> buf_ok (newBuffer2 s) \<and> ptr_text (newBuffer2 s) = []"
    using assms by (auto simp: al_inv_def bs_def list_all_iff dest: in_set_takeD)
  have ne: "bs \<noteq> []" using s(3) by (auto split: if_splits)
  obtain b1 where b1: "take_back None bs = Inr (Some b1, butlast bs)" "fb_ok kLargeBuffer b1" "fb_text b1 = []"
    using take_back_spec [of None bs] s(2) ne by auto
  have "if newBuffer2 s = None then butlast bs \<noteq> [] \<and> list_all buf_ok (butlast bs) else buf_ok (newBuffer2 s) \<and> ptr_text (newBuffer2 s) = []"
    using s(2-4) by (auto simp: list_all_iff dest: in_set_butlastD) (cases bs rule: rev_cases; auto)
  from take_back_spec [OF this] obtain b2 where b2: "take_back (newBuffer2 s) (butlast bs) = Inr (Some b2,
      if newBuffer2 s = None then butlast (butlast bs) else butlast bs)" "fb_ok kLargeBuffer b2" "fb_text b2 = []" by blast
  have "refill_buffers s = Inr (s\<lparr>newBuffer1 := Some b1, newBuffer2 := Some b2, buffersToWrite := [], al_pc := AL_Test\<rparr>)"
    unfolding refill_buffers_def using s(1) b1(1) b2(1) by (simp add: bs_def [symmetric])
  then show ?thesis using b1 b2 by blast
qed

section \<open>Steps keep the invariant\<close>

lemma al_rollOver_fields [simp]:
  "currentBuffer (al_rollOver lt e s) = currentBuffer s" "nextBuffer (al_rollOver lt e s) = nextBuffer s"
  "al_buffers (al_rollOver lt e s) = al_buffers s" "newBuffer1 (al_rollOver lt e s) = newBuffer1 s"
  "newBuffer2 (al_rollOver lt e s) = newBuffer2 s" "buffersToWrite (al_rollOver lt e s) = buffersToWrite s"
  "al_msgs (al_rollOver lt e s) = al_msgs s" "al_out (al_rollOver lt e s) = al_out s"
  "al_dropped (al_rollOver lt e s) = al_dropped s" "al_short (al_rollOver lt e s) = al_short s"
  "file_text (al_files (al_rollOver lt e s)) = file_text (al_files s)"
  by (simp_all add: al_rollOver_def Let_def sys_close_def)

lemma al_write_fields [simp]:
  "currentBuffer (al_write buf n s) = currentBuffer s" "nextBuffer (al_write buf n s) = nextBuffer s"
  "al_buffers (al_write buf n s) = al_buffers s" "newBuffer1 (al_write buf n s) = newBuffer1 s"
  "newBuffer2 (al_write buf n s) = newBuffer2 s" "buffersToWrite (al_write buf n s) = buffersToWrite s"
  "al_msgs (al_write buf n s) = al_msgs s" "al_dropped (al_write buf n s) = al_dropped s" "al_pc (al_write buf n s) = al_pc s"
  by (simp_all add: al_write_def)

lemma al_write_filed: "al_filed w s \<Longrightarrow> al_filed w (al_write buf n s)"
  by (cases "fd_file (al_files s) (al_fd s)") (simp_all add: al_filed_def al_write_def sys_write_def)

lemma al_write_full:
  "\<not> al_short (al_write buf n s) \<Longrightarrow> \<not> al_short s \<and> concat (map snd (al_out (al_write buf n s))) = concat (map snd (al_out s)) @ buf"
  by (cases "fd_file (al_files s) (al_fd s)") (simp_all add: al_write_def)

lemma al_filed_cong:
  "al_filed w s \<Longrightarrow> file_text (al_files s') = file_text (al_files s) \<Longrightarrow> al_out s' = al_out s \<Longrightarrow> al_filed w s'"
  by (simp add: al_filed_def)

lemmas al_stream_defs = al_stream_def unwritten_def

text \<open>The operations of the other threads.\<close>

lemma append_good:
  assumes "al_good w s" "buffer_memory mem"
  shows "\<exists>s'. al_append mem msg s = Inr s' \<and> al_good w (s'\<lparr>al_msgs := al_msgs s @ [msg]\<rparr>)"
proof -
  have s: "al_inv s" "al_stream s" "al_filed w s" using assms(1) by (simp_all add: al_good_def)
  obtain c n bs where a: "al_append mem msg s = Inr (s\<lparr>currentBuffer := c, nextBuffer := n, al_buffers := bs\<rparr>)"
    "buf_ok c" "list_all buf_ok bs" "if n = None then bs \<noteq> [] else buf_ok n \<and> ptr_text n = []"
    "texts bs @ ptr_text c = texts (al_buffers s) @ ptr_text (currentBuffer s) @ (if length msg < kLargeBuffer then msg else [])"
    using append_spec [OF s(1) assms(2)] by blast
  let ?s = "s\<lparr>currentBuffer := c, nextBuffer := n, al_buffers := bs, al_msgs := al_msgs s @ [msg]\<rparr>"
  have "al_inv ?s" using s(1) a(2-4) by (simp add: al_inv_def)
  moreover have "al_stream ?s" using s(2) a(5) by (auto simp: al_stream_defs)
  moreover have "al_filed w ?s" using s(3) by (simp add: al_filed_def)
  ultimately show ?thesis using a(1) by (simp add: al_good_def)
qed

lemma other_ops_good:
  assumes "al_good w s"
  shows "al_good w (al_start s)" "al_good w (al_stop s)" "al_good w (delete_AsyncLogging s)" "al_good w (al_join s)"
    "al_good w (rename_close name s)"
    "al_good w (rename_open f s)" "al_good w (al_setRollTime h s)"
  using assms by (simp_all add: al_good_def al_inv_def al_stream_defs al_filed_def al_start_def al_stop_def al_join_def
      delete_AsyncLogging_def rename_close_def rename_open_def al_setRollTime_def sys_close_def)

text \<open>The logging thread.\<close>

lemma thread_begin_good:
  assumes "al_good w s" "al_pc s = AL_Unborn" "buffer_memory m1" "buffer_memory m2"
  shows "al_good w (thread_begin m1 m2 s)"
  using assms by (simp add: al_good_def al_inv_def al_stream_defs al_filed_def thread_begin_def)

lemma test_running_good:
  assumes "al_good w s" "al_pc s = AL_Test"
  shows "al_good w (test_running s)"
  using assms by (simp add: al_good_def al_inv_def al_stream_defs al_filed_def test_running_def sys_close_def)

lemma collect_good:
  assumes "al_good w s" "al_pc s = AL_Collect"
  shows "al_good w (collect_buffers lt e s)"
proof -
  have s: "al_inv s" "al_stream s" "al_filed w s" using assms(1) by (simp_all add: al_good_def)
  let ?s = "collect_buffers lt e s"
  have fields: "al_pc ?s = AL_Backlog" "currentBuffer ?s = newBuffer1 s" "newBuffer1 ?s = None"
      "buffersToWrite ?s = al_buffers s @ [currentBuffer s]" "al_buffers ?s = buffersToWrite s"
      "nextBuffer ?s = (if nextBuffer s = None then newBuffer2 s else nextBuffer s)"
      "newBuffer2 ?s = (if nextBuffer s = None then None else newBuffer2 s)"
      "al_msgs ?s = al_msgs s" "al_out ?s = al_out s" "al_dropped ?s = al_dropped s" "al_short ?s = al_short s"
      "file_text (al_files ?s) = file_text (al_files s)"
    by (cases "nextBuffer s"; simp add: collect_buffers_def Let_def)+
  have "al_inv ?s" using s(1) assms(2) unfolding al_inv_def fields
    by (cases "al_buffers s"; cases "newBuffer2 s"; cases "nextBuffer s") (simp_all add: Suc_le_eq)
  moreover have "al_stream ?s" using s(1,2) assms(2) unfolding al_stream_defs fields by (simp add: al_inv_def)
  moreover have "al_filed w ?s" using al_filed_cong [OF s(3) fields(12,9)] .
  ultimately show ?thesis by (simp add: al_good_def)
qed

lemma backlog_good:
  assumes "al_good w s" "al_pc s = AL_Backlog"
  shows "al_good w (drop_backlog lt e s)"
proof (cases "length (buffersToWrite s) > 25")
  case True
  have s: "al_inv s" "al_filed w s" using assms(1) by (simp_all add: al_good_def)
  have "al_inv (drop_backlog lt e s)" using s(1) assms(2) True
    by (auto simp: al_inv_def drop_backlog_def Let_def list_all_iff dest: in_set_takeD)
  moreover have "al_dropped (drop_backlog lt e s) \<noteq> 0" using True by (simp add: drop_backlog_def Let_def)
  moreover have "al_filed w (drop_backlog lt e s)"
    using al_write_filed [OF s(2), of "drop_notice lt e (length (buffersToWrite s))" "write_count e"] True
    by (simp add: drop_backlog_def Let_def al_filed_def)
  ultimately show ?thesis by (simp add: al_good_def al_stream_def)
qed (use assms in \<open>simp add: al_good_def al_inv_def al_stream_defs al_filed_def drop_backlog_def\<close>)

lemma write_buffer_good:
  assumes "al_good w s" "al_pc s = AL_Write i"
  shows "\<exists>s'. write_buffer n i s = Inr s' \<and> al_good w s'"
proof (cases "i < length (buffersToWrite s)")
  case True
  have s: "al_inv s" "al_stream s" "al_filed w s" using assms(1) by (simp_all add: al_good_def)
  obtain b where b: "buffersToWrite s ! i = Some b" "fb_ok kLargeBuffer b"
    using s(1) assms(2) True by (cases "buffersToWrite s ! i") (auto simp: al_inv_def list_all_length)
  let ?s = "(al_write (fb_text b) n s)\<lparr>al_pc := AL_Write (Suc i)\<rparr>"
  have "write_buffer n i s = Inr ?s" using True b by (simp add: write_buffer_def fb_toString_ok)
  moreover have "al_inv ?s" using s(1) assms(2) by (auto simp: al_inv_def)
  moreover have "al_stream ?s"
  proof -
    have "drop i (buffersToWrite s) = Some b # drop (Suc i) (buffersToWrite s)" using True b(1) by (simp add: Cons_nth_drop_Suc [symmetric])
    then show ?thesis using s(2) assms(2) al_write_full [of "fb_text b" n s] by (auto simp: al_stream_defs)
  qed
  moreover have "al_filed w ?s" using al_write_filed [OF s(3), of "fb_text b" n] by (simp add: al_filed_def)
  ultimately show ?thesis by (simp add: al_good_def)
qed (use assms in \<open>simp add: write_buffer_def al_good_def al_inv_def al_stream_defs al_filed_def\<close>)

lemma refill_good:
  assumes "al_good w s" "al_pc s = AL_Refill"
  shows "\<exists>s'. refill_buffers s = Inr s' \<and> al_good w s'"
proof -
  have s: "al_inv s" "al_stream s" "al_filed w s" using assms(1) by (simp_all add: al_good_def)
  obtain b1 b2 where "refill_buffers s = Inr (s\<lparr>newBuffer1 := Some b1, newBuffer2 := Some b2, buffersToWrite := [], al_pc := AL_Test\<rparr>)"
      "fb_ok kLargeBuffer b1" "fb_text b1 = []" "fb_ok kLargeBuffer b2" "fb_text b2 = []"
    using refill_spec [OF s(1) assms(2)] by blast
  then show ?thesis using s assms(2) by (simp add: al_good_def al_inv_def al_stream_defs al_filed_def)
qed

lemma al_step_good:
  assumes "al_step lt s r" "al_good w s"
  shows "case r of Inl a \<Rightarrow> False | Inr s' \<Rightarrow> al_good w s'"
  using assms(1)
proof cases
  case (append mem msg)
  then show ?thesis using append_good [OF assms(2), of mem msg] by auto
next
  case (emit i n)
  then show ?thesis using write_buffer_good [OF assms(2), of i n] by auto
next
  case refill
  then show ?thesis using refill_good [OF assms(2)] by auto
qed (simp_all add: other_ops_good [OF assms(2)] thread_begin_good [OF assms(2)] test_running_good [OF assms(2)]
    collect_good [OF assms(2)] backlog_good [OF assms(2)])

lemma new_AsyncLogging_good:
  assumes "buffer_memory m1" "buffer_memory m2"
  shows "al_good w (new_AsyncLogging base rollTime out flush m1 m2 num now f w)"
  using assms by (simp add: al_good_def al_inv_def al_stream_defs al_filed_def new_AsyncLogging_def Let_def)

lemma al_reachable_good:
  assumes "al_reachable lt (new_AsyncLogging base rollTime out flush m1 m2 num now f w) s" "buffer_memory m1" "buffer_memory m2"
  shows "al_good w s"
  using assms(1)
proof induction
  case init
  show ?case by (rule new_AsyncLogging_good [OF assms(2,3)])
next
  case (step s s')
  from al_step_good [OF step.hyps(2) step.IH] show ?case by simp
qed

section \<open>One round of the logging thread\<close>

fun write_all :: "nat \<Rightarrow> nat \<Rightarrow> nat \<Rightarrow> AsyncLogging \<Rightarrow> abort + AsyncLogging" where
  "write_all n 0 i s = write_buffer n i s"
| "write_all n (Suc k) i s = bind_abort (write_buffer n i s) (write_all n k (Suc i))"

definition logging_round :: "(int \<Rightarrow> tm) \<Rightarrow> log_env \<Rightarrow> nat \<Rightarrow> AsyncLogging \<Rightarrow> abort + AsyncLogging" where
  "logging_round lt e n s =
     (let s1 = drop_backlog lt e (collect_buffers lt e s)
      in bind_abort (write_all n (length (buffersToWrite s1)) 0 s1) refill_buffers)"

lemma fb_text_bound: "fb_ok cap b \<Longrightarrow> length (fb_text b) \<le> cap"
  by (simp add: fb_ok_def fb_text_def)

lemma write_all_spec:
  assumes "al_good w s" "al_pc s = AL_Write i" "length (buffersToWrite s) = i + k" "kLargeBuffer \<le> n"
    "fd_file (al_files s) (al_fd s) = Some f"
  shows "\<exists>s'. write_all n k i s = Inr s' \<and> al_good w s' \<and> al_pc s' = AL_Refill \<and> al_short s' = al_short s
    \<and> concat (map snd (al_out s')) = concat (map snd (al_out s)) @ texts (drop i (buffersToWrite s))
    \<and> al_buffers s' = al_buffers s \<and> currentBuffer s' = currentBuffer s \<and> al_dropped s' = al_dropped s"
  using assms
proof (induction k arbitrary: i s)
  case 0
  then show ?case using write_buffer_good [OF 0(1,2), of n] by (simp add: write_buffer_def)
next
  case (Suc k)
  have i: "i < length (buffersToWrite s)" using Suc.prems(3) by simp
  obtain b where b: "buffersToWrite s ! i = Some b" "fb_ok kLargeBuffer b"
    using Suc.prems(1,2) i by (cases "buffersToWrite s ! i") (auto simp: al_good_def al_inv_def list_all_length)
  let ?s = "(al_write (fb_text b) n s)\<lparr>al_pc := AL_Write (Suc i)\<rparr>"
  have w: "write_buffer n i s = Inr ?s" using i b by (simp add: write_buffer_def fb_toString_ok)
  have len: "length (fb_text b) \<le> n" using fb_text_bound [OF b(2)] Suc.prems(4) by simp
  then have out: "concat (map snd (al_out ?s)) = concat (map snd (al_out s)) @ fb_text b" "al_short ?s = al_short s"
      "fd_file (al_files ?s) (al_fd ?s) = Some f"
    using Suc.prems(5) by (simp_all add: al_write_def)
  have "al_good w ?s" using write_buffer_good [OF Suc.prems(1,2), of n] w by simp
  moreover have "drop i (buffersToWrite s) = Some b # drop (Suc i) (buffersToWrite s)"
    using i b(1) by (simp add: Cons_nth_drop_Suc [symmetric])
  ultimately show ?case using Suc.IH [of ?s "Suc i"] Suc.prems(3,4) w out by simp
qed

text \<open>A round with an open file, whole writes and a backlog within the limit writes everything appended before it and
  returns to the test of \<^verbatim>\<open>running_\<close> with nothing left in the buffers.\<close>

lemma logging_round_flushes:
  assumes "al_good w s" "al_pc s = AL_Collect" "length (al_buffers s) < 25" "kLargeBuffer \<le> n"
    "fd_file (al_files (collect_buffers lt e s)) (al_fd (collect_buffers lt e s)) = Some f"
  shows "\<exists>s'. logging_round lt e n s = Inr s' \<and> al_good w s' \<and> al_pc s' = AL_Test \<and> unwritten s' = []
    \<and> concat (map snd (al_out s')) = concat (map snd (al_out s)) @ unwritten s"
proof -
  let ?c = "collect_buffers lt e s"
  let ?d = "drop_backlog lt e ?c"
  have c: "al_good w ?c" "al_pc ?c = AL_Backlog" "buffersToWrite ?c = al_buffers s @ [currentBuffer s]" "al_out ?c = al_out s"
      "al_buffers ?c = buffersToWrite s" "currentBuffer ?c = newBuffer1 s"
    using collect_good [OF assms(1,2)] by (cases "nextBuffer s"; simp add: collect_buffers_def Let_def)+
  have d: "?d = ?c\<lparr>al_pc := AL_Write 0\<rparr>" using assms(3) c(3) by (simp add: drop_backlog_def)
  have "al_good w ?d" by (rule backlog_good [OF c(1,2)])
  from write_all_spec [OF this, of 0 "length (buffersToWrite ?d)" n f] obtain t where
    t: "write_all n (length (buffersToWrite ?d)) 0 ?d = Inr t" "al_good w t" "al_pc t = AL_Refill"
      "concat (map snd (al_out t)) = concat (map snd (al_out s)) @ texts (al_buffers s @ [currentBuffer s])"
      "al_buffers t = buffersToWrite s" "currentBuffer t = newBuffer1 s"
    using assms(4,5) d c by auto
  obtain b1 b2 where r: "refill_buffers t = Inr (t\<lparr>newBuffer1 := Some b1, newBuffer2 := Some b2, buffersToWrite := [], al_pc := AL_Test\<rparr>)"
    using refill_spec [OF _ t(3)] t(2) by (auto simp: al_good_def)
  have "al_inv s" using assms(1) by (simp add: al_good_def)
  then have "buffersToWrite s = []" "ptr_text (newBuffer1 s) = []" using assms(2) by (simp_all add: al_inv_def)
  moreover have "\<exists>s'. refill_buffers t = Inr s' \<and> al_good w s'" by (rule refill_good [OF t(2,3)])
  ultimately show ?thesis using r t assms(2) by (simp add: logging_round_def Let_def unwritten_def)
qed

section \<open>Properties\<close>

text \<open>C37: The asynchronous logger uses no null buffer, takes no buffer from an empty vector and copies nothing outside a
  buffer, under every interleaving of appending threads, the logging thread, renaming, starting and stopping,
  with any results of the system calls: no step fails.\<close>

theorem async_safe:
  assumes "buffer_memory m1" "buffer_memory m2"
    "al_reachable lt (new_AsyncLogging base rollTime out flush m1 m2 num now f w) s" "al_step lt s r"
  shows "\<exists>s'. r = Inr s'"
  using al_step_good [OF assms(4) al_reachable_good [OF assms(3,1,2)]] by (cases r) auto

text \<open>C38: Messages pass through the asynchronous logger whole and in order. As long as the backlog was never over its
  limit, every write was complete and the messages are shorter than a buffer, what the system took followed
  by what still waits in the buffers is exactly what was appended; every file holds what it held before
  followed by what was written to it, in order.\<close>

theorem async_in_order:
  assumes "buffer_memory m1" "buffer_memory m2"
    "al_reachable lt (new_AsyncLogging base rollTime out flush m1 m2 num now f w) s"
  shows "(al_dropped s = 0 \<and> \<not> al_short s \<and> (\<forall>m \<in> set (al_msgs s). length m < kLargeBuffer) \<longrightarrow>
      concat (map snd (al_out s)) @ unwritten s = concat (al_msgs s))
    \<and> (\<forall>g. file_text (al_files s) g = file_text w g @ lines_of g (al_out s))"
  using al_reachable_good [OF assms(3,1,2)] by (simp add: al_good_def al_stream_def al_filed_def)

text \<open>C39: Stopping loses messages: when the logging thread finds that the logger is no longer running it ends, and from
  then on nothing is written any more. What was appended since the last collection, which is still in the
  buffers, is missing from the files.\<close>

theorem async_stop_loses:
  assumes "buffer_memory m1" "buffer_memory m2"
    "al_reachable lt (new_AsyncLogging base rollTime out flush m1 m2 num now f w) s" "al_pc s = AL_Test" "\<not> al_running s"
    "(\<lambda>x y. al_step lt x (Inr y))\<^sup>*\<^sup>* (test_running s) s'"
  shows "al_pc s' = AL_End \<and> al_out s' = al_out s \<and> file_text (al_files s') = file_text (al_files s)
    \<and> (al_dropped s = 0 \<and> \<not> al_short s \<and> (\<forall>m \<in> set (al_msgs s). length m < kLargeBuffer) \<longrightarrow>
         concat (al_msgs s) = concat (map snd (al_out s)) @ texts (al_buffers s) @ ptr_text (currentBuffer s))"
proof -
  have g: "al_good w s" by (rule al_reachable_good [OF assms(3,1,2)])
  from assms(6) have "al_good w s' \<and> al_pc s' = AL_End \<and> al_out s' = al_out s \<and> file_text (al_files s') = file_text (al_files s)"
  proof induction
    case base
    show ?case using test_running_good [OF g assms(4)] assms(5) by (simp add: test_running_def sys_close_def)
  next
    case (step x y)
    have "al_good w y" using al_step_good [OF step.hyps(2), of w] step.IH by simp
    from step.hyps(2) show ?case
    proof cases
      case (append mem msg)
      then show ?thesis using step.IH append_spec [of x mem msg] \<open>al_good w y\<close> by (auto simp: al_good_def)
    qed (use step.IH \<open>al_good w y\<close> in \<open>auto simp: al_start_def al_stop_def delete_AsyncLogging_def al_join_def rename_close_def rename_open_def
        al_setRollTime_def sys_close_def Let_def\<close>)
  qed
  then show ?thesis using g assms(4) by (simp add: al_good_def al_stream_defs)
qed


text \<open>A run: the logger is started, a message is appended, and it is stopped before the next collection.\<close>

definition demo_mem :: string where
  "demo_mem = replicate kLargeBuffer CHR 0x00"

definition demo_async :: AsyncLogging where
  "demo_async = new_AsyncLogging ''app'' 1 ''async'' 3 demo_mem demo_mem 0 (Timestamp 5) 4 no_files"

lemma demo_mem: "buffer_memory demo_mem"
  by (simp add: demo_mem_def buffer_memory_def)

lemma demo_async_run:
  "\<exists>s. al_reachable lt demo_async s \<and> al_pc s = AL_Test \<and> \<not> al_running s \<and> al_msgs s = [''hi''] \<and> al_out s = []
     \<and> al_dropped s = 0 \<and> \<not> al_short s"
proof -
  let ?s2 = "thread_begin demo_mem demo_mem (al_start demo_async)"
  have "al_reachable lt demo_async (al_start demo_async)"
    by (rule al_reachable.step [OF al_reachable.init al_step.start])
      (simp add: demo_async_def new_AsyncLogging_def new_Thread_def Let_def)
  then have r: "al_reachable lt demo_async ?s2"
    by (rule al_reachable.step [OF _ al_step.thread [OF _ _ demo_mem demo_mem]])
      (simp_all add: demo_async_def new_AsyncLogging_def al_start_def thread_start_def Let_def)
  have f: "al_pc ?s2 = AL_Test" "al_out ?s2 = []" "al_dropped ?s2 = 0" "\<not> al_short ?s2" "al_msgs ?s2 = []"
    by (simp_all add: demo_async_def new_AsyncLogging_def al_start_def thread_begin_def Let_def)
  have g: "al_inv ?s2" using al_reachable_good [OF r [unfolded demo_async_def] demo_mem demo_mem]
    by (simp add: demo_async_def al_good_def)
  obtain c n bs where a: "al_append demo_mem ''hi'' ?s2 = Inr (?s2\<lparr>currentBuffer := c, nextBuffer := n, al_buffers := bs\<rparr>)"
    using append_spec [OF g demo_mem] by blast
  let ?s3 = "?s2\<lparr>currentBuffer := c, nextBuffer := n, al_buffers := bs, al_msgs := al_msgs ?s2 @ [''hi'']\<rparr>"
  have "al_step lt ?s2 (Inr ?s3)" using al_step.append [OF demo_mem, of lt ?s2 "''hi''"] a by simp
  from al_reachable.step [OF al_reachable.step [OF r this] al_step.stop]
  have "al_reachable lt demo_async (al_stop ?s3)" .
  then show ?thesis using f by (intro exI [of _ "al_stop ?s3"]) (simp add: al_stop_def)
qed

theorem async_safe_witness:
  "\<exists>s'. map_sum id (\<lambda>s'. s'\<lparr>al_msgs := al_msgs demo_async @ [''hi'']\<rparr>) (al_append demo_mem ''hi'' demo_async) = Inr s'"
  using async_safe [OF demo_mem demo_mem al_reachable.init al_step.append [OF demo_mem]]
  unfolding demo_async_def by blast

theorem async_in_order_witness:
  "\<exists>s. al_reachable (\<lambda>_. demo_tm) demo_async s \<and> al_out s = [] \<and> unwritten s = ''hi''"
proof -
  obtain s where s: "al_reachable (\<lambda>_. demo_tm) demo_async s" "al_msgs s = [''hi'']" "al_out s = []" "al_dropped s = 0" "\<not> al_short s"
    using demo_async_run by blast
  have "length ''hi'' < kLargeBuffer" by (simp add: kLargeBuffer_def)
  then show ?thesis using async_in_order [OF demo_mem demo_mem s(1) [unfolded demo_async_def]] s by auto
qed

theorem async_stop_loses_witness:
  "\<exists>s'. al_reachable (\<lambda>_. demo_tm) demo_async s' \<and> al_pc s' = AL_End \<and> al_msgs s' = [''hi''] \<and> al_out s' = []"
proof -
  obtain s where s: "al_reachable (\<lambda>_. demo_tm) demo_async s" "al_pc s = AL_Test" "\<not> al_running s" "al_msgs s = [''hi'']" "al_out s = []"
    using demo_async_run by blast
  have r: "al_reachable (\<lambda>_. demo_tm) demo_async (test_running s)" by (rule al_reachable.step [OF s(1) al_step.test [OF s(2)]])
  have "al_pc (test_running s) = AL_End \<and> al_out (test_running s) = al_out s"
    using async_stop_loses [OF demo_mem demo_mem s(1) [unfolded demo_async_def] s(2,3) rtranclp.rtrancl_refl] by blast
  moreover have "al_msgs (test_running s) = al_msgs s" by (simp add: test_running_def)
  ultimately show ?thesis using r s(4,5) by auto
qed


text \<open>The lines printed by the macros always fit a buffer, so that none of them is too long for \<^verbatim>\<open>append\<close>.\<close>

lemma call_line_fits: "length (call_line lt c) < kLargeBuffer"
proof (cases c)
  case (fields e err msg)
  let ?l = "if err then ERROR else INFO"
  let ?t = "toFormattedString lt (now_text e) False"
  have "length ?t \<le> 63" "length (snprintf 1024 msg) \<le> 1023"
    by (simp_all add: toFormattedString_def snprintf_def Let_def)
  moreover have "length (level_text ?l) \<le> 7" by (simp add: level_text_def ERROR_def INFO_def)
  moreover have "length (call_line lt c) = length (level_text ?l) + length ?t + length (snprintf 1024 msg) + 17"
    unfolding fields by (simp add: log_line_def del: if_split)
  ultimately show ?thesis by (simp add: kLargeBuffer_def)
qed

end
