(* ===== verification/Spec2Isabelle.thy ===== *)
theory Spec2Isabelle
  imports Ymuduo_Programs Ymuduo_SelectPoller Ymuduo_AsyncLogging
begin

text \<open>
  A verification development of ymuduo, a C++ network library in the style of muduo: one event loop per thread,
  non-blocking connections with buffers, timers, a pool of loops, an HTTP parser and server, and a
  synchronous and an asynchronous logger.

  \<^bold>\<open>The program.\<close> An \<^verbatim>\<open>EventLoop\<close> waits in a \<^verbatim>\<open>Poller\<close> (\<^verbatim>\<open>EPollPoller\<close> or \<^verbatim>\<open>SelectPoller\<close>) for events of \<^verbatim>\<open>Channel\<close>s,
  calls their handlers and then the functors that threads have queued; an event descriptor wakes it. A
  \<^verbatim>\<open>TimerQueue\<close> turns a timer descriptor into callbacks. A \<^verbatim>\<open>TcpServer\<close> accepts connections in its base loop
  through an \<^verbatim>\<open>Acceptor\<close>, gives each to a loop of its \<^verbatim>\<open>EventLoopThreadPool\<close> in turn, and removes it again when
  it closes. A \<^verbatim>\<open>TcpConnection\<close> has an input and an output \<^verbatim>\<open>Buffer\<close> and passes data to the callbacks of its user, such as
  the HTTP server, which parses requests with an \<^verbatim>\<open>HttpContext\<close> and answers with an \<^verbatim>\<open>HttpResponse\<close>.

  \<^bold>\<open>The theories\<close>, each with its source under \<^verbatim>\<open>src/\<close>.

  \<^item> \<open>Ymuduo_Prelude\<close>: the parts of the C++ library the sources use (searching and copying in ranges, ordered sets and
    maps with their laws as locales, decimals, \<^verbatim>\<open>snprintf\<close>).
  \<^item> \<open>Ymuduo_Timestamp\<close> (\<^verbatim>\<open>Timestamp.h/.cc\<close>): microseconds since the epoch, rounding of doubles, printing.
  \<^item> \<open>Ymuduo_Buffer\<close> (\<^verbatim>\<open>Buffer.h/.cc\<close>): the vector with its two indices; a buffer refines a sequence of bytes under
    any appends and retrievals, moving its contents when it has to.
  \<^item> \<open>Ymuduo_HttpRequest\<close>, \<open>Ymuduo_HttpContext\<close>, \<open>Ymuduo_HttpResponse\<close> (\<^verbatim>\<open>http/\<close>): the parser is a partial function,
    shown to return exactly in its two line states, to equal a specification on the text, to read back
    every well-formed request and to be independent of how the bytes arrive in pieces.
  \<^item> \<open>Ymuduo_Channel\<close> (\<^verbatim>\<open>Channel.h/.cc\<close>): interest and dispatch, and the locale \<open>poller\<close>, the contract by which
    channels use a poller: updates keep channel, poller and kernel consistent, and a removed channel may be destroyed.
  \<^item> \<open>Ymuduo_EPollPoller\<close>, \<open>Ymuduo_SelectPoller\<close>: both interpret \<open>poller\<close>; what each reports from \<^verbatim>\<open>poll\<close>.
  \<^item> \<open>Ymuduo_TcpConnection\<close>: the handlers and their state machine; bytes leave in the order they were sent, under
    every sequence of partial writes; a connection goes through its life without a failed assertion.
  \<^item> \<open>Ymuduo_EchoServer\<close>, \<open>Ymuduo_HttpServer\<close> (\<^verbatim>\<open>echo/\<close>, \<^verbatim>\<open>http/HttpServer.cc\<close>, \<^verbatim>\<open>http/http-server.cc\<close>): users of
    a connection; no byte is lost, every well-formed request is answered, and what bad input does.
  \<^item> \<open>Ymuduo_TimerQueue\<close> (\<^verbatim>\<open>Timer.h/.cc\<close>, \<^verbatim>\<open>TimerId.h\<close>, \<^verbatim>\<open>TimerQueue.h/.cc\<close>): timers in an explicit heap, so that
    using a deleted one is an error of the model; the two ordered sets agree, the descriptor is armed in time.
    Additions and cancellations come from the loop's thread or are queued by others.
  \<^item> \<open>Ymuduo_EventLoop\<close> (\<^verbatim>\<open>EventLoop.h/.cc\<close>): the loop and any other threads as interleaved steps; no wakeup is lost,
    functors run in order, an iteration completes, and construction and destruction of the loop with its parts.
  \<^item> \<open>Ymuduo_Threads\<close> (\<^verbatim>\<open>CurrentThread\<close>, \<^verbatim>\<open>CountDownLatch\<close>, \<^verbatim>\<open>Thread\<close>, \<^verbatim>\<open>EventLoopThread\<close>, \<^verbatim>\<open>EventLoopThreadPool\<close>):
    starting and joining as interleaved steps, and the choice of a loop in turn.
  \<^item> \<open>Ymuduo_Socket\<close> (\<^verbatim>\<open>InetAddress\<close>, \<^verbatim>\<open>util.h\<close>, \<^verbatim>\<open>Socket\<close>, \<^verbatim>\<open>Acceptor\<close>): addresses and their text, accepting, and the
    descriptors an acceptor holds.
  \<^item> \<open>Ymuduo_TcpServer\<close> (\<^verbatim>\<open>TcpServer.h/.cc\<close>): the server over any poller of the contract, with any number of loops and
    connections; every interleaving of accepting, establishing, reading, writing, closing and destroying is
    safe and keeps the map of connections exact; a server without threads is destroyed cleanly.
    An application enters through the contracts \<open>greets\<close> and \<open>serves_app\<close>: what its callbacks keep of a
    connection's context, and how they may fail.
  \<^item> \<open>Ymuduo_Programs\<close> (\<^verbatim>\<open>main\<close> and the constructors in \<^verbatim>\<open>echo/\<close> and \<^verbatim>\<open>http/\<close>): the two server programs put together.
    The echo server as a whole is safe; the HTTP server as a whole is safe but for the one assertion that a
    client can reach after a bad request.
  \<^item> \<open>Ymuduo_Favicon\<close> (\<^verbatim>\<open>http/Favicon.h\<close>): the icon of the demonstration, a whole PNG file.
  \<^item> \<open>Ymuduo_Logger\<close>, \<open>Ymuduo_AsyncLogging\<close> (\<^verbatim>\<open>Logger.h/.cc\<close>, \<^verbatim>\<open>AsyncLogging.h/.cc\<close>): lines and the files they go to,
    the buffers with their contract \<open>char_buffer\<close>, and the logging thread interleaved with its users.

  \<^bold>\<open>Conventions.\<close> A class is a record and a method a function from the state to the new state; a method that can
  end the process, fail an assertion or leave its memory returns \<open>abort + \<dots>\<close>. Results of system calls, the
  clock and allocated addresses are arguments, so that the theorems hold for all of them. Pointers to
  loops and connections are numbers. Code that several threads run is cut at its lock operations, atomic
  accesses and system calls, and the theorems quantify over all sequences of such steps; this assumes the
  sequential consistency that the mutexes and atomics give. Event masks, ports and addresses are words; a C++
  \<^verbatim>\<open>int\<close> or \<^verbatim>\<open>int64_t\<close> whose overflow would be undefined is an unbounded integer, with the bounds that exclude
  the overflow as hypotheses where they matter.

  \<^bold>\<open>Bounds and termination.\<close> No function of the model has fuel. \<^verbatim>\<open>HttpContext::parseRequest\<close>, the one loop that can
  run forever, is a partial function into options, and its theorems say when it returns. The number of
  connections is below \<open>2 ^ 31\<close>, the largest connection number; descriptors under \<^verbatim>\<open>select\<close> are below
  \<^verbatim>\<open>FD_SETSIZE\<close>; the buffers that the HTTP server parses stay below \<open>2 ^ 63\<close> bytes, which they do while no input
  buffer exceeds \<open>2 ^ 61\<close>, more than an address space holds; the rolling period of a logger is one whose seconds fit an \<^verbatim>\<open>int\<close>.

  \<^bold>\<open>Faults shown.\<close> \<^verbatim>\<open>shutdown\<close> tests the wrong state; a bad request makes later data abort the server; \<^verbatim>\<open>select\<close> reports
  interest instead of readiness; a failed \<^verbatim>\<open>accept\<close> ends the process; two hand-overs between threads use
  memory that may be gone; \<^verbatim>\<open>quit\<close> before \<^verbatim>\<open>loop\<close> is lost, which can hang a destructor; \<^verbatim>\<open>LOG_FATAL\<close> reports
  success; stopping the asynchronous logger loses messages.

  \<^bold>\<open>Not modelled.\<close> The kernel behind the system calls, except that \<^verbatim>\<open>epoll_ctl\<close> keeps its documented promises and files
  opened for appending keep their text; memory exhaustion; the callbacks of users, which are parameters;
  \<^verbatim>\<open>noncopyable.h\<close> and \<^verbatim>\<open>Callbacks.h\<close>, which have no behaviour; test programs; the loop that a constructor checks for null is one
  that exists; lines that only log;
  steps of other loops while the destructor of a \<^verbatim>\<open>TcpServer\<close> runs, and what becomes of functors still queued then.
\<close>

end
